theory Spec2Isabelle
  imports Main "HOL-Library.AList"
begin

section \<open>Data model of the evaluator (Evaluator.cpp)\<close>

text \<open>
  The declarations of \<^verbatim>\<open>Evaluator.hpp\<close> are not part of the sources at hand; the records
  below carry the fields that \<^verbatim>\<open>Evaluator.cpp\<close> reads and writes.  A pointer to a token is
  the token, a pointer to a token array is the array (both are immutable once published), a
  pointer to a \<^verbatim>\<open>GeneratorOutput\<close> is an address of the output store, and a
  \<^verbatim>\<open>std::unordered_map\<close> that the code iterates is an association list whose order stands
  for the unspecified iteration order (lookup is \<open>map_of\<close>).  Field names that are reserved
  words of the theory language carry a prime (\<open>context'\<close>, \<open>output'\<close>, \<open>functions'\<close>);
  fields that several structures share are written qualified.
\<close>

datatype TokenType =
  TokenType_OpenParen | TokenType_CloseParen | TokenType_Symbol | TokenType_String

record Token =
  type :: TokenType
  contents :: string
  sourceFile :: string
  lineNumber :: nat
  columnStart :: nat
  columnEnd :: nat

datatype ObjectType =
  ObjectType_Function | ObjectType_CompileTimeMacro | ObjectType_CompileTimeGenerator

datatype ObjectReferenceGuessState =
  GuessState_None | GuessState_Guessed | GuessState_Resolved | GuessState_WaitingForLoad

datatype EvaluatorScope =
  EvaluatorScope_Module | EvaluatorScope_Body | EvaluatorScope_ExpressionsOnly

record ModuleEnvironment =
  stateVariables :: "string list"

record EvaluatorContext =
  scope :: EvaluatorScope
  definitionName :: "Token option"
  moduleEnvironment :: "ModuleEnvironment option"

record ObjectReference =
  tokens :: "Token list"
  startIndex :: nat
  context' :: EvaluatorContext
  spliceOutput :: nat
  isResolved :: bool

record ObjectReferenceStatus =
  name :: Token
  guessState :: ObjectReferenceGuessState
  references :: "ObjectReference list"

record ObjectDefinition =
  name :: Token
  type :: ObjectType
  output' :: nat
  isRequired :: bool
  isLoaded :: bool
  references :: "(string \<times> ObjectReferenceStatus) list"

text \<open>An \<^verbatim>\<open>ObjectReferencePool\<close> holds nothing but its \<^verbatim>\<open>references\<close> vector.\<close>

type_synonym ObjectReferencePool = "ObjectReference list"

text \<open>
  \<^verbatim>\<open>MacroFunc\<close> and \<^verbatim>\<open>GeneratorFunc\<close> are function pointers: here the handle of a
  loaded entry point, called through the collaborators below.  A name that is not in a table
  is the null pointer of \<^verbatim>\<open>findMacro\<close> and \<^verbatim>\<open>findGenerator\<close>.
\<close>

type_synonym MacroFunc = nat
type_synonym GeneratorFunc = nat

record EvaluatorEnvironment =
  definitions :: "(string \<times> ObjectDefinition) list"
  referencePools :: "string \<rightharpoonup> ObjectReferencePool"
  macros :: "string \<rightharpoonup> MacroFunc"
  generators :: "string \<rightharpoonup> GeneratorFunc"
  macroExpansions :: "Token list list"
  nextFreeBuildId :: int
  enableHotReloading :: bool

datatype StringOutputModifierFlags =
  StringOutMod_None | StringOutMod_ConvertVariableName | StringOutMod_SurroundWithQuotes
  | StringOutMod_OpenParen | StringOutMod_CloseParen | StringOutMod_Splice

record StringOutput =
  outputString :: string
  modifiers :: StringOutputModifierFlags
  startToken :: Token
  spliceTarget :: "nat option"

record GeneratorOutput =
  source :: "StringOutput list"
  header :: "StringOutput list"
  functions' :: "string list"
  imports' :: "string list"

text \<open>
  What the evaluator prints: errors and notes at a token, plain messages, and the dump of a
  token array by \<^verbatim>\<open>prettyPrintTokens\<close>.
\<close>

datatype Diagnostic =
  ErrorAtToken Token string | NoteAtToken Token string | Printed string
  | PrettyPrintedTokens "Token list"

text \<open>
  The state that the evaluator's functions pass around by reference: the environment, the store
  of heap-allocated outputs (\<open>nextOutput\<close> is the next fresh address of
  \<^verbatim>\<open>new GeneratorOutput\<close>), the diagnostics printed so far, and the table of the
  process runner: the children spawned and not yet waited for (each with the index of the build
  object whose \<^verbatim>\<open>status\<close> it will write, and its argument list) and the log of every
  spawn and every wait.
\<close>

datatype ProcessEvent = ProcessSpawned nat "string list" | WaitedForAllProcessesClosed

record EvalState =
  environment :: EvaluatorEnvironment
  outputs :: "nat \<Rightarrow> GeneratorOutput"
  nextOutput :: nat
  diagnostics :: "Diagnostic list"
  runningProcesses :: "(nat \<times> string list) list"
  processLog :: "ProcessEvent list"

definition globalDefinitionName :: string where
  "globalDefinitionName = ''<global>''"

definition cakelispWorkingDir :: string where
  "cakelispWorkingDir = ''cakelisp_cache''"

definition report :: "Diagnostic \<Rightarrow> EvalState \<Rightarrow> EvalState" where
  "report d S = S\<lparr>diagnostics := diagnostics S @ [d]\<rparr>"

text \<open>The conversion \<^verbatim>\<open>%d\<close> of \<^verbatim>\<open>printf\<close>.\<close>

fun showNat :: "nat \<Rightarrow> string" where
  "showNat n =
     (if n < 10 then [''0123456789'' ! n]
      else showNat (n div 10) @ [''0123456789'' ! (n mod 10)])"

definition showInt :: "int \<Rightarrow> string" where
  "showInt i = (if i < 0 then ''-'' @ showNat (nat (- i)) else showNat (nat i))"

subsection \<open>Environment\<close>

definition findGenerator :: "EvaluatorEnvironment \<Rightarrow> string \<Rightarrow> GeneratorFunc option" where
  "findGenerator env functionName = generators env functionName"

definition findMacro :: "EvaluatorEnvironment \<Rightarrow> string \<Rightarrow> MacroFunc option" where
  "findMacro env functionName = macros env functionName"

definition findModuleStateVariable :: "ModuleEnvironment \<Rightarrow> string \<Rightarrow> bool" where
  "findModuleStateVariable moduleEnv stateVariableName =
     (stateVariableName \<in> set (stateVariables moduleEnv))"

definition isCompileTimeObject :: "ObjectType \<Rightarrow> bool" where
  "isCompileTimeObject t =
     (t = ObjectType_CompileTimeMacro \<or> t = ObjectType_CompileTimeGenerator)"

definition isCompileTimeCodeLoaded :: "EvaluatorEnvironment \<Rightarrow> ObjectDefinition \<Rightarrow> bool" where
  "isCompileTimeCodeLoaded env d =
     (if ObjectDefinition.type d = ObjectType_CompileTimeMacro
      then findMacro env (contents (ObjectDefinition.name d)) \<noteq> None
      else findGenerator env (contents (ObjectDefinition.name d)) \<noteq> None)"

definition addObjectDefinition :: "EvalState \<Rightarrow> ObjectDefinition \<Rightarrow> bool \<times> EvalState" where
  "addObjectDefinition S d =
     (let env = environment S; key = contents (ObjectDefinition.name d) in
      case map_of (definitions env) key of
        None \<Rightarrow>
          if findGenerator env key \<noteq> None \<or> findMacro env key \<noteq> None
          then (False, report (ErrorAtToken (ObjectDefinition.name d)
                  (''multiple definitions of '' @ key
                   @ ''. Name may be conflicting with built-in macro or generator'')) S)
          else (True, S\<lparr>environment := env\<lparr>definitions := definitions env @ [(key, d)]\<rparr>\<rparr>)
      | Some first \<Rightarrow>
          (False, report (NoteAtToken (ObjectDefinition.name first) ''first defined here'')
                    (report (ErrorAtToken (ObjectDefinition.name d)
                       (''multiple definitions of '' @ key)) S)))"

text \<open>
  \<^verbatim>\<open>addObjectReference\<close>: the name of the enclosing definition, the record in that
  definition's status map (when the definition exists), then the record in the reference pool
  (always).  The result is the status the returned pointer points at, or \<open>None\<close> for the
  null pointer.
\<close>

definition enclosingDefinitionName :: "ObjectReference \<Rightarrow> string" where
  "enclosingDefinitionName reference =
     (case definitionName (context' reference) of
        None \<Rightarrow> globalDefinitionName
      | Some t \<Rightarrow> contents t)"

definition addReferenceToStatus ::
  "Token \<Rightarrow> ObjectReference \<Rightarrow> ObjectDefinition \<Rightarrow> ObjectDefinition" where
  "addReferenceToStatus referenceNameToken reference d =
     (case map_of (ObjectDefinition.references d) (contents referenceNameToken) of
        None \<Rightarrow>
          d\<lparr>ObjectDefinition.references := ObjectDefinition.references d @
              [(contents referenceNameToken,
                \<lparr>ObjectReferenceStatus.name = referenceNameToken,
                 guessState = GuessState_None,
                 ObjectReferenceStatus.references = [reference]\<rparr>)]\<rparr>
      | Some st \<Rightarrow>
          d\<lparr>ObjectDefinition.references :=
              AList.update (contents referenceNameToken)
                (st\<lparr>ObjectReferenceStatus.references :=
                      ObjectReferenceStatus.references st @ [reference]\<rparr>)
                (ObjectDefinition.references d)\<rparr>)"

definition addReferenceToPool ::
  "Token \<Rightarrow> ObjectReference \<Rightarrow> EvaluatorEnvironment \<Rightarrow> EvaluatorEnvironment" where
  "addReferenceToPool referenceNameToken reference env =
     (case referencePools env (contents referenceNameToken) of
        None \<Rightarrow>
          env\<lparr>referencePools := (referencePools env)(contents referenceNameToken \<mapsto> [reference])\<rparr>
      | Some pool \<Rightarrow>
          env\<lparr>referencePools :=
                (referencePools env)(contents referenceNameToken \<mapsto> pool @ [reference])\<rparr>)"

definition addObjectReference ::
  "EvalState \<Rightarrow> Token \<Rightarrow> ObjectReference \<Rightarrow> ObjectReferenceStatus option \<times> EvalState" where
  "addObjectReference S referenceNameToken reference =
     (let defName = enclosingDefinitionName reference;
          S1 = (if definitionName (context' reference) = None
                   \<and> scope (context' reference) \<noteq> EvaluatorScope_Module
                then report (Printed ''error: addObjectReference() expects a definitionName\<newline>'') S
                else S);
          env = environment S1 in
      case map_of (definitions env) defName of
        None \<Rightarrow>
          (None,
           (if defName \<noteq> globalDefinitionName
            then report (Printed (''error: expected definition '' @ defName
                           @ '' to already exist. Things will break\<newline>''))
            else report (ErrorAtToken referenceNameToken
                           (''error: expected '' @ globalDefinitionName
                            @ '' definition to exist as a top-level catch-all'')))
             (S1\<lparr>environment := addReferenceToPool referenceNameToken reference env\<rparr>))
      | Some d \<Rightarrow>
          (let d' = addReferenceToStatus referenceNameToken reference d;
               env' = env\<lparr>definitions := AList.update defName d' (definitions env)\<rparr> in
           (map_of (ObjectDefinition.references d') (contents referenceNameToken),
            S1\<lparr>environment := addReferenceToPool referenceNameToken reference env'\<rparr>)))"

text \<open>
  \<^verbatim>\<open>++environment.nextFreeBuildId\<close> on a 32-bit \<^verbatim>\<open>int\<close>, written as the wrap-around
  in two's complement.
\<close>

definition wrapInt :: "int \<Rightarrow> int" where
  "wrapInt i = (i + 2147483648) mod 4294967296 - 2147483648"

definition getNextFreeBuildId :: "EvaluatorEnvironment \<Rightarrow> int \<times> EvaluatorEnvironment" where
  "getNextFreeBuildId env =
     (wrapInt (nextFreeBuildId env + 1),
      env\<lparr>nextFreeBuildId := wrapInt (nextFreeBuildId env + 1)\<rparr>)"

subsection \<open>Requirement propagation\<close>

text \<open>
  One iteration of the inner loop of \<^verbatim>\<open>PropagateRequiredToReferences\<close>: the definition
  under \<open>defKey\<close> is read live (an earlier iteration of the same pass may have marked it),
  and the definition that the status names is marked when it exists and is not yet required.
\<close>

definition setRequired ::
  "string \<Rightarrow> (string \<times> ObjectDefinition) list \<Rightarrow> (string \<times> ObjectDefinition) list" where
  "setRequired k ds = AList.map_entry k (\<lambda>d. d\<lparr>isRequired := True\<rparr>) ds"

definition propagateToReference ::
  "string \<Rightarrow> ObjectReferenceStatus \<Rightarrow> EvaluatorEnvironment \<times> nat \<Rightarrow> EvaluatorEnvironment \<times> nat"
  where
  "propagateToReference defKey referenceStatus acc =
     (case acc of (env, numRequiresStatusChanged) \<Rightarrow>
        (case map_of (definitions env) defKey of
           None \<Rightarrow> acc
         | Some d \<Rightarrow>
             if isRequired d
             then (case map_of (definitions env)
                          (contents (ObjectReferenceStatus.name referenceStatus)) of
                     None \<Rightarrow> acc
                   | Some found \<Rightarrow>
                       if \<not> isRequired found
                       then (env\<lparr>definitions :=
                                  setRequired (contents (ObjectReferenceStatus.name referenceStatus))
                                    (definitions env)\<rparr>,
                             numRequiresStatusChanged + 1)
                       else acc)
             else acc))"

definition propagateDefinition ::
  "string \<Rightarrow> EvaluatorEnvironment \<times> nat \<Rightarrow> EvaluatorEnvironment \<times> nat" where
  "propagateDefinition defKey acc =
     (case map_of (definitions (fst acc)) defKey of
        None \<Rightarrow> acc
      | Some d \<Rightarrow>
          fold (propagateToReference defKey) (map snd (ObjectDefinition.references d)) acc)"

definition propagatePass :: "EvaluatorEnvironment \<Rightarrow> EvaluatorEnvironment \<times> nat" where
  "propagatePass env = fold propagateDefinition (map fst (definitions env)) (env, 0)"

function PropagateRequiredToReferences :: "EvaluatorEnvironment \<Rightarrow> EvaluatorEnvironment" where
  "PropagateRequiredToReferences env =
     (case propagatePass env of
        (env', numRequiresStatusChanged) \<Rightarrow>
          if numRequiresStatusChanged \<noteq> 0 then PropagateRequiredToReferences env' else env')"
  by pat_completeness auto


section \<open>Collaborators outside Evaluator.cpp\<close>

text \<open>
  The evaluator calls functions whose code lives in other files (the tokenizer, the generator
  helpers, the built-in generators, the writer, the process runner and the dynamic loader) and
  the compile-time functions it has loaded.  They are parameters of the model: a record of
  functions that every operation below takes as its argument \<open>X\<close>.  A macro, a generator
  and \<^verbatim>\<open>FunctionInvocationGenerator\<close> receive the environment by reference, so each
  returns the state it leaves behind; a macro also returns the tokens it appended to the fresh
  output vector.  \<^verbatim>\<open>ExpectTokenType\<close> and \<^verbatim>\<open>ExpectEvaluatorScope\<close> stand for their
  verdicts only (what they print themselves is not recorded).  \<^verbatim>\<open>writeGeneratorOutput\<close>
  is given the output store, the address of the output to write, the type of the definition
  (which selects the heading and the footer) and the file name, and tells whether the file was
  written.  \<^verbatim>\<open>runProcess\<close> tells whether a child was started (0) and
  \<^verbatim>\<open>processExitStatus\<close> the status that a child with these arguments ends with.
\<close>

datatype NameStyleMode = NameStyleMode_Underscores | NameStyleMode_Other string

type_synonym DynamicLibHandle = nat

record Collaborators =
  invokeMacro ::
    "MacroFunc \<Rightarrow> EvalState \<Rightarrow> EvaluatorContext \<Rightarrow> Token list \<Rightarrow> nat
       \<Rightarrow> bool \<times> Token list \<times> EvalState"
  invokeGenerator ::
    "GeneratorFunc \<Rightarrow> EvalState \<Rightarrow> EvaluatorContext \<Rightarrow> Token list \<Rightarrow> nat \<Rightarrow> nat
       \<Rightarrow> bool \<times> EvalState"
  FunctionInvocationGenerator ::
    "EvalState \<Rightarrow> EvaluatorContext \<Rightarrow> Token list \<Rightarrow> nat \<Rightarrow> nat \<Rightarrow> bool \<times> EvalState"
  ExpectTokenType :: "string \<Rightarrow> Token \<Rightarrow> TokenType \<Rightarrow> bool"
  ExpectEvaluatorScope :: "string \<Rightarrow> Token \<Rightarrow> EvaluatorContext \<Rightarrow> EvaluatorScope \<Rightarrow> bool"
  validateParentheses :: "Token list \<Rightarrow> bool"
  FindCloseParenTokenIndex :: "Token list \<Rightarrow> nat \<Rightarrow> nat"
  lispNameStyleToCNameStyle :: "NameStyleMode \<Rightarrow> string \<Rightarrow> string"
  functionNameMode :: NameStyleMode
  writeGeneratorOutput :: "(nat \<Rightarrow> GeneratorOutput) \<Rightarrow> nat \<Rightarrow> ObjectType \<Rightarrow> string \<Rightarrow> bool"
  fileIsMoreRecentlyModified :: "string \<Rightarrow> string \<Rightarrow> bool"
  runProcess :: "string list \<Rightarrow> int"
  processExitStatus :: "string list \<Rightarrow> int"
  loadDynamicLibrary :: "string \<Rightarrow> DynamicLibHandle option"
  getSymbolFromDynamicLibrary :: "DynamicLibHandle \<Rightarrow> string \<Rightarrow> nat option"

section \<open>Evaluator\<close>

subsection \<open>Output fragments\<close>

text \<open>
  Modelled from the spec: the helpers \<^verbatim>\<open>addStringOutput\<close>, \<^verbatim>\<open>addLangTokenOutput\<close> and
  \<^verbatim>\<open>addSpliceOutput\<close> of the generator helpers are not in the sources; each appends one
  output fragment (payload, modifier, originating token, and for a splice the child output) to
  the stream it is given, here the source stream of the output at an address.
\<close>

definition pushSource :: "nat \<Rightarrow> StringOutput \<Rightarrow> EvalState \<Rightarrow> EvalState" where
  "pushSource out fragment S =
     S\<lparr>outputs := (outputs S)(out := (outputs S out)\<lparr>source := source (outputs S out) @ [fragment]\<rparr>)\<rparr>"

definition addStringOutput ::
  "nat \<Rightarrow> string \<Rightarrow> StringOutputModifierFlags \<Rightarrow> Token \<Rightarrow> EvalState \<Rightarrow> EvalState" where
  "addStringOutput out symbol mods t S =
     pushSource out
       \<lparr>outputString = symbol, modifiers = mods, startToken = t, spliceTarget = None\<rparr> S"

definition addLangTokenOutput ::
  "nat \<Rightarrow> StringOutputModifierFlags \<Rightarrow> Token \<Rightarrow> EvalState \<Rightarrow> EvalState" where
  "addLangTokenOutput out mods t S =
     pushSource out \<lparr>outputString = [], modifiers = mods, startToken = t, spliceTarget = None\<rparr> S"

definition addSpliceOutput :: "nat \<Rightarrow> nat \<Rightarrow> Token \<Rightarrow> EvalState \<Rightarrow> EvalState" where
  "addSpliceOutput out spliceAddr t S =
     pushSource out
       \<lparr>outputString = [], modifiers = StringOutMod_Splice, startToken = t,
        spliceTarget = Some spliceAddr\<rparr> S"

definition emptyGeneratorOutput :: GeneratorOutput where
  "emptyGeneratorOutput = \<lparr>source = [], header = [], functions' = [], imports' = []\<rparr>"

text \<open>\<^verbatim>\<open>new GeneratorOutput\<close>: a fresh address holding an empty output.\<close>

definition newGeneratorOutput :: "EvalState \<Rightarrow> nat \<times> EvalState" where
  "newGeneratorOutput S =
     (nextOutput S,
      S\<lparr>outputs := (outputs S)(nextOutput S := emptyGeneratorOutput),
        nextOutput := nextOutput S + 1\<rparr>)"

definition resetGeneratorOutput :: "nat \<Rightarrow> EvalState \<Rightarrow> EvalState" where
  "resetGeneratorOutput out S = S\<lparr>outputs := (outputs S)(out := emptyGeneratorOutput)\<rparr>"

definition isdigit :: "char \<Rightarrow> bool" where
  "isdigit c = (c \<in> set ''0123456789'')"

text \<open>
  \<^verbatim>\<open>token.contents[0]\<close> and the guarded \<^verbatim>\<open>token.contents[1]\<close>: reading a
  \<^verbatim>\<open>std::string\<close> at its length yields the null character.
\<close>

definition charAt :: "string \<Rightarrow> nat \<Rightarrow> char" where
  "charAt str i = (if i < length str then str ! i else CHR 0x00)"

definition pushMacroExpansion :: "Token list \<Rightarrow> EvalState \<Rightarrow> EvalState" where
  "pushMacroExpansion macroOutputTokens S =
     S\<lparr>environment := (environment S)
         \<lparr>macroExpansions := macroExpansions (environment S) @ [macroOutputTokens]\<rparr>\<rparr>"


subsection \<open>Dispatch and recursive evaluation\<close>

text \<open>
  \<^verbatim>\<open>HandleInvocation_Recursive\<close>, \<^verbatim>\<open>EvaluateGenerate_Recursive\<close> and
  \<^verbatim>\<open>EvaluateGenerateAll_Recursive\<close> call each other, and a macro may expand into an
  invocation of itself, so the recursion need not end.  The first argument bounds the depth of
  calls and the number of loop iterations; \<open>None\<close> is the result of a run that exceeds the
  bound or reads a token array out of range (which the C++ leaves undefined).  The error
  counts are naturals: the code only ever adds to them.  The \<^verbatim>\<open>default\<close> branch of the
  switch on the token type is unreachable for the four token types and has no counterpart.
\<close>

definition unknownReference ::
  "Collaborators \<Rightarrow> EvalState \<Rightarrow> EvaluatorContext \<Rightarrow> Token list \<Rightarrow> nat \<Rightarrow> nat
     \<Rightarrow> bool \<times> EvalState" where
  "unknownReference X S ctx toks invocationStartIndex out =
     (let invocationStart = toks ! invocationStartIndex;
          invocationName = toks ! (invocationStartIndex + 1);
          (spliceAddr, S1) = newGeneratorOutput S;
          newReference = \<lparr>tokens = toks, startIndex = invocationStartIndex, context' = ctx,
                          spliceOutput = spliceAddr, isResolved = False\<rparr>;
          S2 = addSpliceOutput out spliceAddr invocationStart S1;
          (referenceStatus, S3) = addObjectReference S2 invocationName newReference
      in case referenceStatus of
           None \<Rightarrow>
             (False, report (ErrorAtToken (toks ! invocationStartIndex)
                               ''failed to create reference status (internal error)'') S3)
         | Some st \<Rightarrow>
             if guessState st = GuessState_Guessed
             then (case FunctionInvocationGenerator X S3 (context' newReference)
                          (tokens newReference) (startIndex newReference)
                          (spliceOutput newReference) of
                     (result, S4) \<Rightarrow> if \<not> result then (False, S4) else (True, S4))
             else (True, S3))"

definition evaluateConstantOrSymbol ::
  "Collaborators \<Rightarrow> EvalState \<Rightarrow> EvaluatorContext \<Rightarrow> Token \<Rightarrow> nat \<Rightarrow> nat \<times> EvalState" where
  "evaluateConstantOrSymbol X S ctx t out =
     (if ExpectEvaluatorScope X ''evaluated constant or symbol'' t ctx
           EvaluatorScope_ExpressionsOnly
      then (if Token.type t = TokenType_Symbol
            then (let firstChar = charAt (contents t) 0;
                      secondChar = (if length (contents t) > 1 then charAt (contents t) 1
                                    else CHR 0x00) in
                  if firstChar = CHR 0x27 \<or> isdigit firstChar
                     \<or> (firstChar = CHR ''-'' \<and> (secondChar = CHR ''.'' \<or> isdigit secondChar))
                  then (0, addStringOutput out (contents t) StringOutMod_None t S)
                  else if enableHotReloading (environment S)
                          \<and> (case moduleEnvironment ctx of
                                None \<Rightarrow> False
                              | Some m \<Rightarrow> findModuleStateVariable m (contents t))
                  then (0, addLangTokenOutput out StringOutMod_CloseParen t
                             (addStringOutput out (contents t) StringOutMod_ConvertVariableName t
                               (addStringOutput out ''*'' StringOutMod_None t
                                 (addLangTokenOutput out StringOutMod_OpenParen t S))))
                  else (0, addStringOutput out (contents t) StringOutMod_ConvertVariableName t S))
            else (0, addStringOutput out (contents t) StringOutMod_SurroundWithQuotes t S))
      else (1, S))"

text \<open>
  The part of \<^verbatim>\<open>HandleInvocation_Recursive\<close> before its one recursive call: either the
  invocation is finished with a result, or a macro has produced a non-empty, balanced
  expansion that is to be evaluated, or the read of the invocation's name is out of range.
\<close>

datatype Dispatch =
  Dispatch_OutOfRange
  | Dispatch_Done bool EvalState
  | Dispatch_Expansion Token "Token list" EvalState

definition dispatchMacro ::
  "Collaborators \<Rightarrow> MacroFunc \<Rightarrow> EvalState \<Rightarrow> EvaluatorContext \<Rightarrow> Token list \<Rightarrow> nat
     \<Rightarrow> Dispatch" where
  "dispatchMacro X invokedMacro S ctx toks invocationStartIndex =
     (let invocationStart = toks ! invocationStartIndex;
          invocationName = toks ! (invocationStartIndex + 1) in
      case invokeMacro X invokedMacro S ctx toks invocationStartIndex of
        (macroSucceeded, macroOutputTokens, S1) \<Rightarrow>
          if \<not> macroSucceeded
          then Dispatch_Done False
                 (report (ErrorAtToken invocationName ''macro returned failure'') S1)
          else if macroOutputTokens = []
          then Dispatch_Done True S1
          else if \<not> validateParentheses X macroOutputTokens
          then Dispatch_Done False
                 (report (Printed ''\<newline>'')
                   (report (PrettyPrintedTokens macroOutputTokens)
                     (report (NoteAtToken invocationStart
                        ''code was generated from macro. See erroneous macro expansion below:'')
                        S1)))
          else Dispatch_Expansion invocationStart macroOutputTokens
                 (pushMacroExpansion macroOutputTokens S1))"

definition dispatchInvocation ::
  "Collaborators \<Rightarrow> EvalState \<Rightarrow> EvaluatorContext \<Rightarrow> Token list \<Rightarrow> nat \<Rightarrow> nat \<Rightarrow> Dispatch"
  where
  "dispatchInvocation X S ctx toks invocationStartIndex out =
     (if \<not> invocationStartIndex + 1 < length toks then Dispatch_OutOfRange
      else
        let invocationName = toks ! (invocationStartIndex + 1) in
        if \<not> ExpectTokenType X ''evaluator'' invocationName TokenType_Symbol
        then Dispatch_Done False S
        else
          case findMacro (environment S) (contents invocationName) of
            Some invokedMacro \<Rightarrow> dispatchMacro X invokedMacro S ctx toks invocationStartIndex
          | None \<Rightarrow>
              (case findGenerator (environment S) (contents invocationName) of
                 Some invokedGenerator \<Rightarrow>
                   (case invokeGenerator X invokedGenerator S ctx toks invocationStartIndex out of
                      (ok, S1) \<Rightarrow> Dispatch_Done ok S1)
               | None \<Rightarrow>
                   (case (case map_of (definitions (environment S)) (contents invocationName) of
                            None \<Rightarrow> unknownReference X S ctx toks invocationStartIndex out
                          | Some d \<Rightarrow>
                              if \<not> isCompileTimeObject (ObjectDefinition.type d)
                              then FunctionInvocationGenerator X S ctx toks
                                     invocationStartIndex out
                              else unknownReference X S ctx toks invocationStartIndex out) of
                      (ok, S1) \<Rightarrow> Dispatch_Done ok S1)))"

text \<open>What \<^verbatim>\<open>HandleInvocation_Recursive\<close> returns once the expansion is evaluated.\<close>

definition expansionEvaluated :: "Token \<Rightarrow> Token list \<Rightarrow> nat \<Rightarrow> EvalState \<Rightarrow> bool \<times> EvalState"
  where
  "expansionEvaluated invocationStart macroOutputTokens result S =
     (if result \<noteq> 0
      then (False,
            report (Printed ''\<newline>'')
              (report (PrettyPrintedTokens macroOutputTokens)
                (report (NoteAtToken invocationStart
                   ''code was generated from macro. See macro expansion below:'') S)))
      else (True, S))"

definition pushDelimiter ::
  "StringOutput option \<Rightarrow> Token list \<Rightarrow> nat \<Rightarrow> nat \<Rightarrow> nat \<Rightarrow> EvalState \<Rightarrow> EvalState" where
  "pushDelimiter delimiterTemplate toks startTokenIndex currentTokenIndex out S =
     (case delimiterTemplate of
        None \<Rightarrow> S
      | Some delimiter \<Rightarrow>
          if currentTokenIndex \<noteq> startTokenIndex
          then pushSource out (delimiter\<lparr>startToken := toks ! currentTokenIndex\<rparr>) S
          else S)"

definition nextTokenIndex :: "Collaborators \<Rightarrow> Token list \<Rightarrow> nat \<Rightarrow> nat" where
  "nextTokenIndex X toks currentTokenIndex =
     (if Token.type (toks ! currentTokenIndex) = TokenType_OpenParen
      then FindCloseParenTokenIndex X toks currentTokenIndex
      else currentTokenIndex) + 1"

function (sequential) HandleInvocation_Recursive ::
    "nat \<Rightarrow> Collaborators \<Rightarrow> EvalState \<Rightarrow> EvaluatorContext \<Rightarrow> Token list \<Rightarrow> nat \<Rightarrow> nat
       \<Rightarrow> (bool \<times> EvalState) option"
  and EvaluateGenerate_Recursive ::
    "nat \<Rightarrow> Collaborators \<Rightarrow> EvalState \<Rightarrow> EvaluatorContext \<Rightarrow> Token list \<Rightarrow> nat \<Rightarrow> nat
       \<Rightarrow> (nat \<times> EvalState) option"
  and EvaluateGenerateAll_loop ::
    "nat \<Rightarrow> Collaborators \<Rightarrow> EvalState \<Rightarrow> EvaluatorContext \<Rightarrow> Token list \<Rightarrow> nat
       \<Rightarrow> StringOutput option \<Rightarrow> nat \<Rightarrow> nat \<Rightarrow> nat \<Rightarrow> (nat \<times> EvalState) option"
  and EvaluateGenerateAll_Recursive ::
    "nat \<Rightarrow> Collaborators \<Rightarrow> EvalState \<Rightarrow> EvaluatorContext \<Rightarrow> Token list \<Rightarrow> nat
       \<Rightarrow> StringOutput option \<Rightarrow> nat \<Rightarrow> (nat \<times> EvalState) option"
  where
  "HandleInvocation_Recursive 0 X S ctx toks invocationStartIndex out = None"
| "HandleInvocation_Recursive (Suc fuel) X S ctx toks invocationStartIndex out =
     (case dispatchInvocation X S ctx toks invocationStartIndex out of
        Dispatch_OutOfRange \<Rightarrow> None
      | Dispatch_Done ok S1 \<Rightarrow> Some (ok, S1)
      | Dispatch_Expansion invocationStart macroOutputTokens S1 \<Rightarrow>
          (case EvaluateGenerateAll_Recursive fuel X S1 ctx macroOutputTokens 0 None out of
             None \<Rightarrow> None
           | Some (result, S2) \<Rightarrow>
               Some (expansionEvaluated invocationStart macroOutputTokens result S2)))"
| "EvaluateGenerate_Recursive 0 X S ctx toks startTokenIndex out = None"
| "EvaluateGenerate_Recursive (Suc fuel) X S ctx toks startTokenIndex out =
     (if \<not> startTokenIndex < length toks then None
      else if Token.type (toks ! startTokenIndex) = TokenType_OpenParen
      then (case HandleInvocation_Recursive fuel X S ctx toks startTokenIndex out of
              None \<Rightarrow> None
            | Some (invocationSucceeded, S1) \<Rightarrow>
                Some (if \<not> invocationSucceeded then 1 else 0, S1))
      else if Token.type (toks ! startTokenIndex) = TokenType_CloseParen
      then Some (0, S)
      else Some (evaluateConstantOrSymbol X S ctx (toks ! startTokenIndex) out))"
| "EvaluateGenerateAll_loop 0 X S ctx toks startTokenIndex delimiterTemplate out
     currentTokenIndex numErrors = None"
| "EvaluateGenerateAll_loop (Suc fuel) X S ctx toks startTokenIndex delimiterTemplate out
     currentTokenIndex numErrors =
     (if \<not> currentTokenIndex < length toks then Some (numErrors, S)
      else if Token.type (toks ! currentTokenIndex) = TokenType_CloseParen
      then Some (numErrors, S)
      else
        case EvaluateGenerate_Recursive fuel X
               (pushDelimiter delimiterTemplate toks startTokenIndex currentTokenIndex out S)
               ctx toks currentTokenIndex out of
          None \<Rightarrow> None
        | Some (n, S2) \<Rightarrow>
            EvaluateGenerateAll_loop fuel X S2 ctx toks startTokenIndex delimiterTemplate out
              (nextTokenIndex X toks currentTokenIndex) (numErrors + n))"
| "EvaluateGenerateAll_Recursive 0 X S ctx toks startTokenIndex delimiterTemplate out = None"
| "EvaluateGenerateAll_Recursive (Suc fuel) X S ctx toks startTokenIndex delimiterTemplate out =
     EvaluateGenerateAll_loop fuel X S ctx toks startTokenIndex delimiterTemplate out
       startTokenIndex 0"
  by pat_completeness auto

termination
  by (relation "measure (\<lambda>x. case x of
        Inl (Inl (fuel, _)) \<Rightarrow> fuel | Inl (Inr (fuel, _)) \<Rightarrow> fuel
      | Inr (Inl (fuel, _)) \<Rightarrow> fuel | Inr (Inr (fuel, _)) \<Rightarrow> fuel)") auto


section \<open>Build driver: \<^verbatim>\<open>BuildEvaluateReferences\<close>\<close>

datatype BuildStage =
  BuildStage_None | BuildStage_Compiling | BuildStage_Linking | BuildStage_Loading
  | BuildStage_ResolvingReferences | BuildStage_Finished

text \<open>
  A \<^verbatim>\<open>BuildObject\<close>; its pointer to the definition is the definition's key in
  \<^verbatim>\<open>environment.definitions\<close>.  A fresh object has the member initialisers
  \<^verbatim>\<open>buildId = -1\<close>, \<^verbatim>\<open>status = -1\<close> and \<^verbatim>\<open>stage = BuildStage_None\<close>.
\<close>

record BuildObject =
  buildId :: int
  status :: int
  stage :: BuildStage
  artifactsName :: string
  dynamicLibraryPath :: string
  buildObjectName :: string
  definition' :: string

subsection \<open>Readiness check\<close>

text \<open>
  The pointers that the readiness check keeps to a definition and to the statuses of its
  references are keys here, read live: \<^verbatim>\<open>FunctionInvocationGenerator\<close> may add
  references while the check runs.  A key that no longer leads anywhere stands for a dangling
  pointer and ends the run with \<open>None\<close>.
\<close>

definition lookupStatus :: "EvalState \<Rightarrow> string \<Rightarrow> string \<Rightarrow> ObjectReferenceStatus option" where
  "lookupStatus S defKey refKey =
     (case map_of (definitions (environment S)) defKey of
        None \<Rightarrow> None
      | Some d \<Rightarrow> map_of (ObjectDefinition.references d) refKey)"

definition setGuessState ::
  "string \<Rightarrow> string \<Rightarrow> ObjectReferenceGuessState \<Rightarrow> EvalState \<Rightarrow> EvalState" where
  "setGuessState defKey refKey g S =
     S\<lparr>environment := (environment S)
         \<lparr>definitions :=
            AList.map_entry defKey
              (\<lambda>d. d\<lparr>ObjectDefinition.references :=
                       AList.map_entry refKey (\<lambda>st. st\<lparr>guessState := g\<rparr>)
                         (ObjectDefinition.references d)\<rparr>)
              (definitions (environment S))\<rparr>\<rparr>"

record ReadinessFlags =
  canBuild :: bool
  hasRelevantChangeOccurred :: bool
  hasGuessedRefs :: bool
  guessMaybeDirtiedReferences :: bool

text \<open>
  The loop \<^verbatim>\<open>for (int i = 0; i < (int)referenceStatus.references.size(); ++i)\<close> that runs
  \<^verbatim>\<open>FunctionInvocationGenerator\<close> on every occurrence; the size is read anew in every
  iteration, and a failed invocation clears \<^verbatim>\<open>canBuild\<close>.
\<close>

primrec invokeOnOccurrences ::
  "nat \<Rightarrow> Collaborators \<Rightarrow> string \<Rightarrow> string \<Rightarrow> nat \<Rightarrow> EvalState \<times> bool
     \<Rightarrow> (EvalState \<times> bool) option" where
  "invokeOnOccurrences 0 X defKey refKey i acc = None"
| "invokeOnOccurrences (Suc fuel) X defKey refKey i acc =
     (case lookupStatus (fst acc) defKey refKey of
        None \<Rightarrow> None
      | Some referenceStatus \<Rightarrow>
          if i < length (ObjectReferenceStatus.references referenceStatus)
          then (let reference = ObjectReferenceStatus.references referenceStatus ! i in
                case FunctionInvocationGenerator X (fst acc) (context' reference)
                       (tokens reference) (startIndex reference) (spliceOutput reference) of
                  (result, S') \<Rightarrow>
                    invokeOnOccurrences fuel X defKey refKey (i + 1)
                      (S', if \<not> result then False else snd acc))
          else Some acc)"

text \<open>The body of the loop over \<^verbatim>\<open>referencesToCheck\<close>, for the status under \<open>refKey\<close>.\<close>

definition checkReference ::
  "nat \<Rightarrow> Collaborators \<Rightarrow> string \<Rightarrow> string \<Rightarrow> EvalState \<times> ReadinessFlags
     \<Rightarrow> (EvalState \<times> ReadinessFlags) option" where
  "checkReference fuel X defKey refKey acc =
     (case acc of (S, flags) \<Rightarrow>
      case lookupStatus S defKey refKey of
        None \<Rightarrow> None
      | Some referenceStatus \<Rightarrow>
          (case map_of (definitions (environment S))
                  (contents (ObjectReferenceStatus.name referenceStatus)) of
             Some found \<Rightarrow>
               if isCompileTimeObject (ObjectDefinition.type found)
               then (if isLoaded found
                     then Some (setGuessState defKey refKey GuessState_Resolved S,
                                if guessState referenceStatus \<noteq> GuessState_Resolved
                                then flags\<lparr>hasRelevantChangeOccurred := True\<rparr>
                                else flags)
                     else Some (setGuessState defKey refKey GuessState_WaitingForLoad S,
                                flags\<lparr>canBuild := False\<rparr>))
               else if ObjectDefinition.type found = ObjectType_Function
                       \<and> guessState referenceStatus \<noteq> GuessState_Resolved
               then (case invokeOnOccurrences fuel X defKey refKey 0 (S, canBuild flags) of
                       None \<Rightarrow> None
                     | Some (S', cb) \<Rightarrow>
                         Some (setGuessState defKey refKey GuessState_Resolved S',
                               flags\<lparr>canBuild := cb\<rparr>))
               else Some acc
           | None \<Rightarrow>
               if guessState referenceStatus = GuessState_None
               then (case invokeOnOccurrences fuel X defKey refKey 0 (S, canBuild flags) of
                       None \<Rightarrow> None
                     | Some (S', cb) \<Rightarrow>
                         Some (setGuessState defKey refKey GuessState_Guessed S',
                               flags\<lparr>canBuild := cb, hasRelevantChangeOccurred := True,
                                     hasGuessedRefs := True,
                                     guessMaybeDirtiedReferences := True\<rparr>))
               else if guessState referenceStatus = GuessState_Guessed
               then Some (S, flags\<lparr>hasGuessedRefs := True\<rparr>)
               else Some acc))"

primrec checkReferences ::
  "nat \<Rightarrow> Collaborators \<Rightarrow> string \<Rightarrow> string list \<Rightarrow> EvalState \<times> ReadinessFlags
     \<Rightarrow> (EvalState \<times> ReadinessFlags) option" where
  "checkReferences fuel X defKey [] acc = Some acc"
| "checkReferences fuel X defKey (refKey # referencesToCheck) acc =
     (case checkReference fuel X defKey refKey acc of
        None \<Rightarrow> None
      | Some acc' \<Rightarrow> checkReferences fuel X defKey referencesToCheck acc')"

text \<open>
  The \<^verbatim>\<open>do ... while (guessMaybeDirtiedReferences)\<close> loop: each round copies the pointers
  to the statuses the definition has at that moment and checks them in order.
\<close>

primrec checkDefinitionReferences ::
  "nat \<Rightarrow> Collaborators \<Rightarrow> string \<Rightarrow> EvalState \<times> ReadinessFlags
     \<Rightarrow> (EvalState \<times> ReadinessFlags) option" where
  "checkDefinitionReferences 0 X defKey acc = None"
| "checkDefinitionReferences (Suc fuel) X defKey acc =
     (case map_of (definitions (environment (fst acc))) defKey of
        None \<Rightarrow> None
      | Some d \<Rightarrow>
          (case checkReferences fuel X defKey (map fst (ObjectDefinition.references d))
                  (fst acc, (snd acc)\<lparr>guessMaybeDirtiedReferences := False\<rparr>) of
             None \<Rightarrow> None
           | Some acc' \<Rightarrow>
               if guessMaybeDirtiedReferences (snd acc')
               then checkDefinitionReferences fuel X defKey acc'
               else Some acc'))"

definition initialFlags :: ReadinessFlags where
  "initialFlags = \<lparr>canBuild = True, hasRelevantChangeOccurred = False, hasGuessedRefs = False,
                    guessMaybeDirtiedReferences = False\<rparr>"

definition newBuildObject :: "int \<Rightarrow> string \<Rightarrow> BuildObject" where
  "newBuildObject freeId defKey =
     \<lparr>buildId = freeId, status = - 1, stage = BuildStage_None, artifactsName = [],
      dynamicLibraryPath = [], buildObjectName = [], definition' = defKey\<rparr>"

text \<open>
  The body of the loop over \<^verbatim>\<open>definitionsToCheck\<close>: the readiness check of one definition
  and the decision to put it on \<^verbatim>\<open>definitionsToBuild\<close>.
\<close>

definition shouldBuild :: "ReadinessFlags \<Rightarrow> ObjectDefinition \<Rightarrow> bool" where
  "shouldBuild flags d =
     (canBuild flags \<and> (\<not> hasGuessedRefs flags \<or> hasRelevantChangeOccurred flags)
      \<and> isCompileTimeObject (ObjectDefinition.type d))"

definition checkToBuild ::
  "nat \<Rightarrow> Collaborators \<Rightarrow> string \<Rightarrow> EvalState \<times> BuildObject list
     \<Rightarrow> (EvalState \<times> BuildObject list) option" where
  "checkToBuild fuel X defKey acc =
     (case acc of (S, definitionsToBuild) \<Rightarrow>
      case checkDefinitionReferences fuel X defKey (S, initialFlags) of
        None \<Rightarrow> None
      | Some (S', flags) \<Rightarrow>
          (case map_of (definitions (environment S')) defKey of
             None \<Rightarrow> None
           | Some d \<Rightarrow>
               if shouldBuild flags d
               then (case getNextFreeBuildId (environment S') of
                       (freeId, env') \<Rightarrow>
                         Some (S'\<lparr>environment := env'\<rparr>,
                               definitionsToBuild @ [newBuildObject freeId defKey]))
               else Some (S', definitionsToBuild)))"

primrec checkAllToBuild ::
  "nat \<Rightarrow> Collaborators \<Rightarrow> string list \<Rightarrow> EvalState \<times> BuildObject list
     \<Rightarrow> (EvalState \<times> BuildObject list) option" where
  "checkAllToBuild fuel X [] acc = Some acc"
| "checkAllToBuild fuel X (defKey # definitionsToCheck) acc =
     (case checkToBuild fuel X defKey acc of
        None \<Rightarrow> None
      | Some acc' \<Rightarrow> checkAllToBuild fuel X definitionsToCheck acc')"

definition definitionsToCheck :: "EvaluatorEnvironment \<Rightarrow> string list" where
  "definitionsToCheck env =
     map fst (filter (\<lambda>(k, d). isRequired d \<and> \<not> isLoaded d) (definitions env))"


subsection \<open>Processes\<close>

text \<open>
  \<^verbatim>\<open>runProcess(arguments, &buildObject.status)\<close> starts a child when it returns 0; the
  child writes the status of its build object when \<^verbatim>\<open>waitForAllProcessesClosed\<close> has seen
  it close.  The strings are kept whole: the buffers of \<^verbatim>\<open>MAX_PATH_LENGTH\<close> and
  \<^verbatim>\<open>MAX_NAME_LENGTH\<close> characters are taken to be long enough.
\<close>

definition spawnProcess :: "Collaborators \<Rightarrow> nat \<Rightarrow> string list \<Rightarrow> EvalState \<Rightarrow> EvalState" where
  "spawnProcess X objectIndex arguments S =
     (if runProcess X arguments = 0
      then S\<lparr>runningProcesses := runningProcesses S @ [(objectIndex, arguments)],
             processLog := processLog S @ [ProcessSpawned objectIndex arguments]\<rparr>
      else S)"

definition closeProcess ::
  "Collaborators \<Rightarrow> nat \<times> string list \<Rightarrow> BuildObject list \<Rightarrow> BuildObject list" where
  "closeProcess X process objects =
     (if fst process < length objects
      then objects[fst process :=
             (objects ! fst process)\<lparr>status := processExitStatus X (snd process)\<rparr>]
      else objects)"

definition waitForAllProcessesClosed ::
  "Collaborators \<Rightarrow> EvalState \<times> BuildObject list \<Rightarrow> EvalState \<times> BuildObject list" where
  "waitForAllProcessesClosed X acc =
     (case acc of (S, objects) \<Rightarrow>
        (S\<lparr>runningProcesses := [],
           processLog := processLog S @ [WaitedForAllProcessesClosed]\<rparr>,
         fold (closeProcess X) (runningProcesses S) objects))"

definition maxProcessesSpawned :: nat where
  "maxProcessesSpawned = 8"

subsection \<open>Compile, link, load\<close>

definition artifactsNameOf :: "Collaborators \<Rightarrow> ObjectDefinition \<Rightarrow> string" where
  "artifactsNameOf X d =
     ''comptime_'' @ lispNameStyleToCNameStyle X NameStyleMode_Underscores
                      (contents (ObjectDefinition.name d))"

definition sourceOutputNameOf :: "string \<Rightarrow> string" where
  "sourceOutputNameOf artifacts = cakelispWorkingDir @ ''/'' @ artifacts @ ''.cpp''"

definition buildObjectNameOf :: "string \<Rightarrow> string" where
  "buildObjectNameOf artifacts = cakelispWorkingDir @ ''/'' @ artifacts @ ''.o''"

definition dynamicLibraryOutOf :: "string \<Rightarrow> string" where
  "dynamicLibraryOutOf artifacts = cakelispWorkingDir @ ''/lib'' @ artifacts @ ''.so''"

definition compileArguments :: "string \<Rightarrow> string list" where
  "compileArguments artifacts =
     [''/usr/bin/clang++'', ''-g'', ''-c'', sourceOutputNameOf artifacts, ''-o'',
      buildObjectNameOf artifacts, ''-Isrc/'', ''-fPIC'']"

definition linkArguments :: "BuildObject \<Rightarrow> string list" where
  "linkArguments buildObject =
     [''/usr/bin/clang++'', ''-shared'', ''-o'', dynamicLibraryPath buildObject,
      buildObjectName buildObject]"

text \<open>
  The body of the compile loop for the build object at \<open>i\<close>; the accumulator is the state,
  the vector of build objects and \<^verbatim>\<open>currentNumProcessesSpawned\<close>.
\<close>

definition compileBuildObject ::
  "Collaborators \<Rightarrow> nat \<Rightarrow> (EvalState \<times> BuildObject list) \<times> nat
     \<Rightarrow> (EvalState \<times> BuildObject list) \<times> nat" where
  "compileBuildObject X i acc =
     (case acc of ((S, objects), currentNumProcessesSpawned) \<Rightarrow>
      case map_of (definitions (environment S)) (definition' (objects ! i)) of
        None \<Rightarrow> acc
      | Some d \<Rightarrow>
          (let artifacts = artifactsNameOf X d;
               named = (objects ! i)\<lparr>artifactsName := artifacts\<rparr> in
           if \<not> writeGeneratorOutput X (outputs S) (output' d) (ObjectDefinition.type d)
                  (cakelispWorkingDir @ ''/'' @ artifacts)
           then ((report (ErrorAtToken (ObjectDefinition.name d)
                            ''Failed to write to compile-time source file'') S,
                  objects[i := named]), currentNumProcessesSpawned)
           else
             (let compiling = named\<lparr>stage := BuildStage_Compiling,
                                     buildObjectName := buildObjectNameOf artifacts,
                                     dynamicLibraryPath := dynamicLibraryOutOf artifacts\<rparr> in
              if \<not> fileIsMoreRecentlyModified X (sourceOutputNameOf artifacts)
                     (dynamicLibraryPath compiling)
              then ((S, objects[i := compiling\<lparr>stage := BuildStage_Linking, status := 0\<rparr>]),
                    currentNumProcessesSpawned)
              else
                (let S1 = spawnProcess X i (compileArguments artifacts) S in
                 if currentNumProcessesSpawned + 1 \<ge> maxProcessesSpawned
                 then (waitForAllProcessesClosed X (S1, objects[i := compiling]), 0)
                 else ((S1, objects[i := compiling]), currentNumProcessesSpawned + 1)))))"

definition compilePhase ::
  "Collaborators \<Rightarrow> EvalState \<times> BuildObject list \<Rightarrow> EvalState \<times> BuildObject list" where
  "compilePhase X acc =
     waitForAllProcessesClosed X
       (fst (fold (compileBuildObject X) [0..<length (snd acc)] (acc, 0)))"

definition linkBuildObject ::
  "Collaborators \<Rightarrow> nat \<Rightarrow> EvalState \<times> BuildObject list \<Rightarrow> EvalState \<times> BuildObject list"
  where
  "linkBuildObject X i acc =
     (case acc of (S, objects) \<Rightarrow>
      if stage (objects ! i) \<noteq> BuildStage_Compiling then acc
      else if status (objects ! i) \<noteq> 0
      then (case map_of (definitions (environment S)) (definition' (objects ! i)) of
              None \<Rightarrow> acc
            | Some d \<Rightarrow>
                (report (ErrorAtToken (ObjectDefinition.name d)
                           (''Failed to compile definition '' @ [CHR 0x27]
                            @ contents (ObjectDefinition.name d) @ [CHR 0x27]
                            @ '' with status '' @ showInt (status (objects ! i))))
                   S, objects))
      else (spawnProcess X i (linkArguments (objects ! i)) S,
            objects[i := (objects ! i)\<lparr>stage := BuildStage_Linking\<rparr>]))"

definition linkPhase ::
  "Collaborators \<Rightarrow> EvalState \<times> BuildObject list \<Rightarrow> EvalState \<times> BuildObject list" where
  "linkPhase X acc =
     waitForAllProcessesClosed X (fold (linkBuildObject X) [0..<length (snd acc)] acc)"


text \<open>
  Loading.  The loop over the references of the pool visits the indices the pool has when the
  loop starts and reads each reference live; \<^verbatim>\<open>reference.isResolved = true\<close> marks the
  copy in the pool.
\<close>

definition installCompileTimeFunction ::
  "ObjectDefinition \<Rightarrow> nat \<Rightarrow> EvalState \<Rightarrow> EvalState" where
  "installCompileTimeFunction d compileTimeFunction S =
     (if ObjectDefinition.type d = ObjectType_CompileTimeMacro
      then S\<lparr>environment := (environment S)
               \<lparr>macros := (macros (environment S))
                    (contents (ObjectDefinition.name d) \<mapsto> compileTimeFunction)\<rparr>\<rparr>
      else if ObjectDefinition.type d = ObjectType_CompileTimeGenerator
      then S\<lparr>environment := (environment S)
               \<lparr>generators := (generators (environment S))
                    (contents (ObjectDefinition.name d) \<mapsto> compileTimeFunction)\<rparr>\<rparr>
      else S)"

definition markResolved :: "string \<Rightarrow> nat \<Rightarrow> EvalState \<Rightarrow> EvalState" where
  "markResolved poolName j S =
     (case referencePools (environment S) poolName of
        None \<Rightarrow> S
      | Some pool \<Rightarrow>
          S\<lparr>environment := (environment S)
              \<lparr>referencePools := (referencePools (environment S))
                   (poolName \<mapsto> pool[j := (pool ! j)\<lparr>isResolved := True\<rparr>])\<rparr>\<rparr>)"

definition setLoaded :: "string \<Rightarrow> EvalState \<Rightarrow> EvalState" where
  "setLoaded defKey S =
     S\<lparr>environment := (environment S)
         \<lparr>definitions := AList.map_entry defKey (\<lambda>d. d\<lparr>isLoaded := True\<rparr>)
                            (definitions (environment S))\<rparr>\<rparr>"

definition resolveReference ::
  "nat \<Rightarrow> Collaborators \<Rightarrow> string \<Rightarrow> nat \<Rightarrow> EvalState \<times> nat \<times> nat
     \<Rightarrow> (EvalState \<times> nat \<times> nat) option" where
  "resolveReference fuel X poolName j acc =
     (case acc of (S, numErrorsOut, numReferencesResolved) \<Rightarrow>
      case referencePools (environment S) poolName of
        None \<Rightarrow> None
      | Some pool \<Rightarrow>
          if \<not> j < length pool then None
          else if isResolved (pool ! j) then Some acc
          else
            (case EvaluateGenerate_Recursive fuel X
                    (resetGeneratorOutput (spliceOutput (pool ! j)) S)
                    (context' (pool ! j)) (tokens (pool ! j)) (startIndex (pool ! j))
                    (spliceOutput (pool ! j)) of
               None \<Rightarrow> None
             | Some (result, S1) \<Rightarrow>
                 Some (markResolved poolName j S1, numErrorsOut + result,
                       numReferencesResolved + 1)))"

primrec resolveReferences ::
  "nat \<Rightarrow> Collaborators \<Rightarrow> string \<Rightarrow> nat list \<Rightarrow> EvalState \<times> nat \<times> nat
     \<Rightarrow> (EvalState \<times> nat \<times> nat) option" where
  "resolveReferences fuel X poolName [] acc = Some acc"
| "resolveReferences fuel X poolName (j # js) acc =
     (case resolveReference fuel X poolName j acc of
        None \<Rightarrow> None
      | Some acc' \<Rightarrow> resolveReferences fuel X poolName js acc')"

text \<open>
  The body of the load loop for the build object at \<open>i\<close>; the accumulator carries
  \<^verbatim>\<open>numErrorsOut\<close> and \<^verbatim>\<open>numReferencesResolved\<close>.
\<close>

definition loadBuildObject ::
  "nat \<Rightarrow> Collaborators \<Rightarrow> nat \<Rightarrow> (EvalState \<times> BuildObject list) \<times> nat \<times> nat
     \<Rightarrow> ((EvalState \<times> BuildObject list) \<times> nat \<times> nat) option" where
  "loadBuildObject fuel X i acc =
     (case acc of ((S, objects), numErrorsOut, numReferencesResolved) \<Rightarrow>
      if stage (objects ! i) \<noteq> BuildStage_Linking then Some acc
      else
        case map_of (definitions (environment S)) (definition' (objects ! i)) of
          None \<Rightarrow> None
        | Some d \<Rightarrow>
            if status (objects ! i) \<noteq> 0
            then Some ((report (ErrorAtToken (ObjectDefinition.name d)
                                  ''Failed to link definition'') S, objects),
                       numErrorsOut, numReferencesResolved)
            else
              (case loadDynamicLibrary X (dynamicLibraryPath (objects ! i)) of
                 None \<Rightarrow>
                   Some ((report (ErrorAtToken (ObjectDefinition.name d)
                                    ''Failed to load compile-time library'') S,
                          objects[i := (objects ! i)\<lparr>stage := BuildStage_Loading\<rparr>]),
                         numErrorsOut, numReferencesResolved)
               | Some builtLib \<Rightarrow>
                   (case getSymbolFromDynamicLibrary X builtLib
                           (lispNameStyleToCNameStyle X (functionNameMode X)
                              (contents (ObjectDefinition.name d))) of
                      None \<Rightarrow>
                        Some ((report (ErrorAtToken (ObjectDefinition.name d)
                                         ''Failed to find symbol in loaded library'') S,
                               objects[i := (objects ! i)\<lparr>stage := BuildStage_Loading\<rparr>]),
                              numErrorsOut, numReferencesResolved)
                    | Some compileTimeFunction \<Rightarrow>
                        (let S1 = installCompileTimeFunction d compileTimeFunction S;
                             poolName = contents (ObjectDefinition.name d) in
                         case referencePools (environment S1) poolName of
                           None \<Rightarrow>
                             Some ((report (Printed
                                      (''Error: built an object which had no references. It ''
                                       @ ''should not have been required. There must be a ''
                                       @ ''problem with Cakelisp internally\<newline>'')) S1,
                                    objects[i := (objects ! i)
                                                   \<lparr>stage := BuildStage_ResolvingReferences\<rparr>]),
                                   numErrorsOut, numReferencesResolved)
                         | Some pool \<Rightarrow>
                             (case resolveReferences fuel X poolName [0..<length pool]
                                     (S1, numErrorsOut, numReferencesResolved) of
                                None \<Rightarrow> None
                              | Some (S2, numErrorsOut', numReferencesResolved') \<Rightarrow>
                                  Some ((setLoaded (definition' (objects ! i)) S2,
                                         objects[i := (objects ! i)
                                                        \<lparr>stage := BuildStage_Finished\<rparr>]),
                                        numErrorsOut', numReferencesResolved'))))))"

primrec loadPhase ::
  "nat \<Rightarrow> Collaborators \<Rightarrow> nat list \<Rightarrow> (EvalState \<times> BuildObject list) \<times> nat \<times> nat
     \<Rightarrow> ((EvalState \<times> BuildObject list) \<times> nat \<times> nat) option" where
  "loadPhase fuel X [] acc = Some acc"
| "loadPhase fuel X (i # is) acc =
     (case loadBuildObject fuel X i acc of
        None \<Rightarrow> None
      | Some acc' \<Rightarrow> loadPhase fuel X is acc')"

text \<open>
  \<^verbatim>\<open>BuildEvaluateReferences\<close>: the result is \<^verbatim>\<open>numReferencesResolved\<close>, the new value of
  \<^verbatim>\<open>numErrorsOut\<close> and the state.
\<close>

definition BuildEvaluateReferences ::
  "nat \<Rightarrow> Collaborators \<Rightarrow> EvalState \<Rightarrow> nat \<Rightarrow> (nat \<times> nat \<times> EvalState) option" where
  "BuildEvaluateReferences fuel X S numErrorsOut =
     (case checkAllToBuild fuel X (definitionsToCheck (environment S)) (S, []) of
        None \<Rightarrow> None
      | Some queued \<Rightarrow>
          (let linked = linkPhase X (compilePhase X queued) in
           case loadPhase fuel X [0..<length (snd linked)] (linked, numErrorsOut, 0) of
             None \<Rightarrow> None
           | Some ((S', objects), numErrorsOut', numReferencesResolved) \<Rightarrow>
               Some (numReferencesResolved, numErrorsOut', S')))"


section \<open>Fixed-point loop: \<^verbatim>\<open>EvaluateResolveReferences\<close>\<close>

text \<open>
  The loop \<^verbatim>\<open>do { propagate; build; if (numBuildResolveErrors) break; }
  while (numReferencesResolved)\<close>; the tracing under \<^verbatim>\<open>log.references\<close> is off.
\<close>

primrec resolveLoop ::
  "nat \<Rightarrow> Collaborators \<Rightarrow> EvalState \<times> nat \<Rightarrow> (EvalState \<times> nat) option" where
  "resolveLoop 0 X acc = None"
| "resolveLoop (Suc fuel) X acc =
     (case BuildEvaluateReferences fuel X
             ((fst acc)\<lparr>environment := PropagateRequiredToReferences (environment (fst acc))\<rparr>)
             (snd acc) of
        None \<Rightarrow> None
      | Some (numReferencesResolved, numBuildResolveErrors, S') \<Rightarrow>
          if numBuildResolveErrors \<noteq> 0 then Some (S', numBuildResolveErrors)
          else if numReferencesResolved \<noteq> 0 then resolveLoop fuel X (S', numBuildResolveErrors)
          else Some (S', numBuildResolveErrors))"

text \<open>
  The check after the loop.  For one reference of a required definition that is not a
  compile-time object: the accumulator is the state, \<^verbatim>\<open>errors\<close> and
  \<^verbatim>\<open>missingDefinitionNames\<close>.
\<close>

definition checkReferenceResolved ::
  "ObjectReferenceStatus \<Rightarrow> EvalState \<times> nat \<times> Token list \<Rightarrow> EvalState \<times> nat \<times> Token list"
  where
  "checkReferenceResolved referenceStatus acc =
     (case acc of (S, errors, missingDefinitionNames) \<Rightarrow>
      let (errors', missing') =
            (case map_of (definitions (environment S))
                    (contents (ObjectReferenceStatus.name referenceStatus)) of
               None \<Rightarrow> (errors, missingDefinitionNames)
             | Some found \<Rightarrow>
                 if isCompileTimeObject (ObjectDefinition.type found)
                    \<and> \<not> isCompileTimeCodeLoaded (environment S) found
                 then (errors + 1, missingDefinitionNames @ [ObjectDefinition.name found])
                 else (errors, missingDefinitionNames))
      in (if guessState referenceStatus = GuessState_None
          then report (ErrorAtToken (ObjectReferenceStatus.name referenceStatus)
                         ''reference has not been resolved'') S
          else S,
          errors', missing'))"

definition checkDefinitionResolved ::
  "ObjectDefinition \<Rightarrow> EvalState \<times> nat \<Rightarrow> EvalState \<times> nat" where
  "checkDefinitionResolved d acc =
     (case acc of (S, errors) \<Rightarrow>
      if isRequired d
      then (if isCompileTimeObject (ObjectDefinition.type d)
            then (if findMacro (environment S) (contents (ObjectDefinition.name d)) = None
                     \<and> findGenerator (environment S) (contents (ObjectDefinition.name d)) = None
                  then (report (ErrorAtToken (ObjectDefinition.name d)
                                  ''Failed to build required object'') S,
                        errors + 1)
                  else acc)
            else (case fold checkReferenceResolved (map snd (ObjectDefinition.references d))
                         (S, errors, []) of
                    (S1, errors1, missingDefinitionNames) \<Rightarrow>
                      if missingDefinitionNames \<noteq> []
                      then (fold (\<lambda>missingDefinitionName.
                                    report (NoteAtToken missingDefinitionName
                                              ''missing compile-time function defined here''))
                              missingDefinitionNames
                              (report (ErrorAtToken (ObjectDefinition.name d)
                                         (''failed to generate ''
                                          @ contents (ObjectDefinition.name d))) S1),
                            errors1)
                      else (S1, errors1)))
      else (report (NoteAtToken (ObjectDefinition.name d) ''omitted (not required by module)'') S,
            errors))"

definition reportResult :: "EvalState \<Rightarrow> nat \<Rightarrow> bool \<times> EvalState" where
  "reportResult S numBuildResolveErrors =
     (case fold checkDefinitionResolved (map snd (definitions (environment S)))
             (report (Printed ''\<newline>Result:\<newline>'') S, 0) of
        (S', errors) \<Rightarrow> (errors = 0 \<and> numBuildResolveErrors = 0, S'))"

definition EvaluateResolveReferences ::
  "nat \<Rightarrow> Collaborators \<Rightarrow> EvalState \<Rightarrow> (bool \<times> EvalState) option" where
  "EvaluateResolveReferences fuel X S =
     (case resolveLoop fuel X (S, 0) of
        None \<Rightarrow> None
      | Some (S', numBuildResolveErrors) \<Rightarrow> Some (reportResult S' numBuildResolveErrors))"


section \<open>Vocabulary of the properties\<close>

subsection \<open>Requirement propagation\<close>

text \<open>
  The names of the definitions whose \<^verbatim>\<open>isRequired\<close> flag is set, and the edges from a
  definition to every definition that is named by a status of its reference map.
\<close>

definition requiredNames :: "EvaluatorEnvironment \<Rightarrow> string set" where
  "requiredNames env = {k. \<exists>d. map_of (definitions env) k = Some d \<and> isRequired d}"

definition referenceEdges :: "EvaluatorEnvironment \<Rightarrow> (string \<times> string) set" where
  "referenceEdges env =
     {(a, b). \<exists>d st. map_of (definitions env) a = Some d
        \<and> st \<in> snd ` set (ObjectDefinition.references d)
        \<and> b = contents (ObjectReferenceStatus.name st)
        \<and> map_of (definitions env) b \<noteq> None}"

definition sameReferences :: "EvaluatorEnvironment \<Rightarrow> EvaluatorEnvironment \<Rightarrow> bool" where
  "sameReferences env env' =
     (map fst (definitions env') = map fst (definitions env)
      \<and> (\<forall>a. map_option ObjectDefinition.references (map_of (definitions env') a)
             = map_option ObjectDefinition.references (map_of (definitions env) a)))"

definition propagateStepOK ::
  "string set \<Rightarrow> EvaluatorEnvironment \<times> nat \<Rightarrow> EvaluatorEnvironment \<times> nat \<Rightarrow> bool" where
  "propagateStepOK C acc acc' =
     (sameReferences (fst acc) (fst acc')
      \<and> requiredNames (fst acc) \<subseteq> requiredNames (fst acc')
      \<and> (requiredNames (fst acc) \<subseteq> C \<longrightarrow> requiredNames (fst acc') \<subseteq> C)
      \<and> snd acc \<le> snd acc'
      \<and> (snd acc' = snd acc \<longrightarrow> fst acc' = fst acc)
      \<and> (snd acc' \<noteq> snd acc \<longrightarrow> requiredNames (fst acc') \<noteq> requiredNames (fst acc)))"

definition closedAt :: "EvaluatorEnvironment \<Rightarrow> string \<Rightarrow> ObjectReferenceStatus \<Rightarrow> bool" where
  "closedAt env k st =
     (\<forall>d found. map_of (definitions env) k = Some d \<and> isRequired d
        \<and> map_of (definitions env) (contents (ObjectReferenceStatus.name st)) = Some found
        \<longrightarrow> isRequired found)"

subsection \<open>Macro expansions\<close>

text \<open>
  The expansions kept by the environment are valid when each is non-empty and passes
  \<^verbatim>\<open>validateParentheses\<close>.  The collaborators keep them valid when no macro, generator
  or function-invocation generator leaves invalid expansions behind.
\<close>

definition expansionsValid :: "Collaborators \<Rightarrow> EvalState \<Rightarrow> bool" where
  "expansionsValid X S =
     (\<forall>e\<in>set (macroExpansions (environment S)). e \<noteq> [] \<and> validateParentheses X e)"

definition collaboratorsKeepExpansions :: "Collaborators \<Rightarrow> bool" where
  "collaboratorsKeepExpansions X =
     (\<forall>S ctx toks i.
        (\<forall>m. expansionsValid X S
               \<longrightarrow> expansionsValid X (snd (snd (invokeMacro X m S ctx toks i))))
        \<and> (\<forall>g out. expansionsValid X S
               \<longrightarrow> expansionsValid X (snd (invokeGenerator X g S ctx toks i out)))
        \<and> (\<forall>out. expansionsValid X S
               \<longrightarrow> expansionsValid X (snd (FunctionInvocationGenerator X S ctx toks i out))))"


subsection \<open>Diagnostics\<close>

text \<open>A step that only prints: the environment is unchanged and nothing printed is lost.\<close>

definition reportedOnly :: "EvalState \<Rightarrow> EvalState \<Rightarrow> bool" where
  "reportedOnly S S' =
     (environment S' = environment S \<and> set (diagnostics S) \<subseteq> set (diagnostics S'))"


subsection \<open>Build processes\<close>

text \<open>
  The processes spawned for a build object, read off the process log.
\<close>

definition spawnedFor :: "nat \<Rightarrow> ProcessEvent \<Rightarrow> bool" where
  "spawnedFor i e = (case e of ProcessSpawned j arguments \<Rightarrow> j = i | WaitedForAllProcessesClosed \<Rightarrow> False)"

definition spawnsFor :: "nat \<Rightarrow> EvalState \<Rightarrow> ProcessEvent list" where
  "spawnsFor i S = filter (spawnedFor i) (processLog S)"

text \<open>
  What a step of the compile or link loop on another object leaves of the object at \<open>i\<close>:
  the environment and the output store are the same, no object is added or removed, and as
  long as no running child writes to \<open>i\<close>, the object at \<open>i\<close> and the spawns recorded for
  it are the same.
\<close>

definition leavesObject ::
  "nat \<Rightarrow> EvalState \<times> BuildObject list \<Rightarrow> EvalState \<times> BuildObject list \<Rightarrow> bool" where
  "leavesObject i acc acc' =
     (environment (fst acc') = environment (fst acc)
      \<and> outputs (fst acc') = outputs (fst acc)
      \<and> length (snd acc') = length (snd acc)
      \<and> (i \<notin> fst ` set (runningProcesses (fst acc))
           \<longrightarrow> i \<notin> fst ` set (runningProcesses (fst acc'))
               \<and> snd acc' ! i = snd acc ! i
               \<and> spawnsFor i (fst acc') = spawnsFor i (fst acc)))"

definition cachedBuildObject :: "Collaborators \<Rightarrow> ObjectDefinition \<Rightarrow> BuildObject \<Rightarrow> BuildObject"
  where
  "cachedBuildObject X d obj =
     obj\<lparr>artifactsName := artifactsNameOf X d,
         buildObjectName := buildObjectNameOf (artifactsNameOf X d),
         dynamicLibraryPath := dynamicLibraryOutOf (artifactsNameOf X d),
         stage := BuildStage_Linking,
         status := 0\<rparr>"


text \<open>
  The waves of a process log: how many children were spawned before each wait, and how many
  since the last wait (the children that are live when the log ends).
\<close>

definition waveStep :: "ProcessEvent \<Rightarrow> nat list \<times> nat \<Rightarrow> nat list \<times> nat" where
  "waveStep e acc =
     (case e of
        ProcessSpawned objectIndex arguments \<Rightarrow> (fst acc, snd acc + 1)
      | WaitedForAllProcessesClosed \<Rightarrow> (fst acc @ [snd acc], 0))"

definition waveState :: "ProcessEvent list \<Rightarrow> nat list \<times> nat" where
  "waveState events = fold waveStep events ([], 0)"

definition waves :: "ProcessEvent list \<Rightarrow> nat list" where
  "waves events = fst (waveState events) @ [snd (waveState events)]"

text \<open>
  Collaborators with which every build object is compiled and linked: the source is written,
  it is newer than the library, every process starts and exits with status 0.
\<close>

definition alwaysBuilds :: "Collaborators \<Rightarrow> bool" where
  "alwaysBuilds X =
     ((\<forall>outs out t path. writeGeneratorOutput X outs out t path)
      \<and> (\<forall>fileName reference. fileIsMoreRecentlyModified X fileName reference)
      \<and> (\<forall>arguments. runProcess X arguments = 0)
      \<and> (\<forall>arguments. processExitStatus X arguments = 0))"

text \<open>
  The state of the compile loop after the first \<open>k\<close> build objects, when it started from
  \<open>S\<close> and \<open>objs\<close> with the waves \<open>closed\<close> behind it.
\<close>

definition compiledUpTo ::
  "EvalState \<Rightarrow> BuildObject list \<Rightarrow> nat list \<Rightarrow> nat
     \<Rightarrow> (EvalState \<times> BuildObject list) \<times> nat \<Rightarrow> bool" where
  "compiledUpTo S objs closed k acc =
     (case acc of ((S', objs'), currentNumProcessesSpawned) \<Rightarrow>
        currentNumProcessesSpawned = k mod maxProcessesSpawned
        \<and> environment S' = environment S
        \<and> length objs' = length objs
        \<and> map definition' objs' = map definition' objs
        \<and> waveState (processLog S')
            = (closed @ replicate (k div maxProcessesSpawned) maxProcessesSpawned,
               k mod maxProcessesSpawned)
        \<and> fst ` set (runningProcesses S') \<subseteq> {..<k}
        \<and> list_all (\<lambda>i. stage (objs' ! i) = BuildStage_Compiling
                         \<and> (status (objs' ! i) = 0 \<or> i \<in> fst ` set (runningProcesses S')))
             [0..<k])"


subsection \<open>Readiness\<close>










subsection \<open>Reference pools\<close>

text \<open>
  A reference apart from its resolution flag: the load loop sets \<^verbatim>\<open>isResolved\<close> on the copy
  in the pool only.  A reference is recorded for a name when the status under that name, in the
  reference map of the definition that encloses the reference, lists it up to that flag.
\<close>

definition occurrenceOf :: "ObjectReference \<Rightarrow> ObjectReference" where
  "occurrenceOf reference = reference\<lparr>isResolved := False\<rparr>"

definition recordedIn :: "EvaluatorEnvironment \<Rightarrow> string \<Rightarrow> ObjectReference \<Rightarrow> bool" where
  "recordedIn env referenceName reference =
     (\<exists>d st. map_of (definitions env) (enclosingDefinitionName reference) = Some d
        \<and> map_of (ObjectDefinition.references d) referenceName = Some st
        \<and> occurrenceOf reference \<in> occurrenceOf ` set (ObjectReferenceStatus.references st))"

definition poolsRecorded :: "EvaluatorEnvironment \<Rightarrow> bool" where
  "poolsRecorded env =
     (\<forall>referenceName pool reference.
        referencePools env referenceName = Some pool \<and> reference \<in> set pool
        \<longrightarrow> recordedIn env referenceName reference)"

definition inPool :: "EvaluatorEnvironment \<Rightarrow> string \<Rightarrow> ObjectReference \<Rightarrow> bool" where
  "inPool env referenceName reference =
     (case referencePools env referenceName of
        None \<Rightarrow> False
      | Some pool \<Rightarrow> reference \<in> set pool)"


subsection \<open>Guess states\<close>

text \<open>
  The transitions of a guess state that the evaluator performs: none, the five of the
  specification, and from \<^verbatim>\<open>Guessed\<close> to \<^verbatim>\<open>WaitingForLoad\<close>.
\<close>

definition allowedTransition ::
  "ObjectReferenceGuessState \<Rightarrow> ObjectReferenceGuessState \<Rightarrow> bool" where
  "allowedTransition g g' =
     (g' = g
      \<or> (g = GuessState_None \<and> g' = GuessState_Guessed)
      \<or> (g = GuessState_None \<and> g' = GuessState_WaitingForLoad)
      \<or> (g = GuessState_None \<and> g' = GuessState_Resolved)
      \<or> (g = GuessState_Guessed \<and> g' = GuessState_Resolved)
      \<or> (g = GuessState_WaitingForLoad \<and> g' = GuessState_Resolved)
      \<or> (g = GuessState_Guessed \<and> g' = GuessState_WaitingForLoad))"

text \<open>
  Every status of \<open>S\<close> is still there in \<open>S'\<close>, under the same keys and with the same name,
  and its guess state has made an allowed transition.
\<close>

definition statusesAdvance :: "EvalState \<Rightarrow> EvalState \<Rightarrow> bool" where
  "statusesAdvance S S' =
     (\<forall>defKey refKey st. lookupStatus S defKey refKey = Some st
        \<longrightarrow> (\<exists>st'. lookupStatus S' defKey refKey = Some st'
               \<and> ObjectReferenceStatus.name st' = ObjectReferenceStatus.name st
               \<and> allowedTransition (guessState st) (guessState st')))"

text \<open>
  Every definition of \<open>S\<close> is still there in \<open>S'\<close> with its type, and loaded if it was.
\<close>

definition definitionsPersist :: "EvalState \<Rightarrow> EvalState \<Rightarrow> bool" where
  "definitionsPersist S S' =
     (\<forall>k d. map_of (definitions (environment S)) k = Some d
        \<longrightarrow> (\<exists>d'. map_of (definitions (environment S')) k = Some d'
               \<and> ObjectDefinition.type d' = ObjectDefinition.type d
               \<and> (isLoaded d \<longrightarrow> isLoaded d')))"

text \<open>
  What the code has established wherever it wrote \<^verbatim>\<open>Resolved\<close>: the name of the status
  is defined, and if the definition is compile-time code, it is loaded.
\<close>

definition resolvedSound :: "EvalState \<Rightarrow> bool" where
  "resolvedSound S =
     (\<forall>defKey refKey st. lookupStatus S defKey refKey = Some st
          \<and> guessState st = GuessState_Resolved
        \<longrightarrow> (\<exists>found. map_of (definitions (environment S))
                         (contents (ObjectReferenceStatus.name st)) = Some found
               \<and> (isCompileTimeObject (ObjectDefinition.type found) \<longrightarrow> isLoaded found)))"

text \<open>
  Every status of \<open>S\<close> is still there in \<open>S'\<close>, with the same name and the same guess state.
\<close>

definition statusesKept :: "EvalState \<Rightarrow> EvalState \<Rightarrow> bool" where
  "statusesKept S S' =
     (\<forall>defKey refKey st. lookupStatus S defKey refKey = Some st
        \<longrightarrow> (\<exists>st'. lookupStatus S' defKey refKey = Some st'
               \<and> ObjectReferenceStatus.name st' = ObjectReferenceStatus.name st
               \<and> guessState st' = guessState st))"

text \<open>
  A step from \<open>S\<close> to \<open>S'\<close> advances when, from a state whose resolved statuses are sound,
  the definitions persist, the statuses advance and the resolved statuses are sound again; it
  keeps the statuses when moreover no guess state changes.  The collaborators keep the
  statuses when every macro, generator and function-invocation generator does: the guess
  states are written by \<^verbatim>\<open>BuildEvaluateReferences\<close> only, which no collaborator calls.
\<close>

definition advances :: "EvalState \<Rightarrow> EvalState \<Rightarrow> bool" where
  "advances S S' =
     (resolvedSound S
      \<longrightarrow> definitionsPersist S S' \<and> statusesAdvance S S' \<and> resolvedSound S')"

definition keeps :: "EvalState \<Rightarrow> EvalState \<Rightarrow> bool" where
  "keeps S S' =
     (resolvedSound S
      \<longrightarrow> definitionsPersist S S' \<and> statusesKept S S' \<and> resolvedSound S')"

definition collaboratorsKeep :: "Collaborators \<Rightarrow> bool" where
  "collaboratorsKeep X =
     (\<forall>S ctx toks i.
        (\<forall>m. keeps S (snd (snd (invokeMacro X m S ctx toks i))))
        \<and> (\<forall>g out. keeps S (snd (invokeGenerator X g S ctx toks i out)))
        \<and> (\<forall>out. keeps S (snd (FunctionInvocationGenerator X S ctx toks i out))))"


subsection \<open>Sequences of calls\<close>

text \<open>
  A sequence of calls into the evaluator, each with its own bound on the depth of the
  recursion: \<^verbatim>\<open>HandleInvocation_Recursive\<close> on an invocation,
  \<^verbatim>\<open>PropagateRequiredToReferences\<close>, and \<^verbatim>\<open>BuildEvaluateReferences\<close> with the error count
  it is given.  A call that does not return ends the sequence with \<open>None\<close>.
\<close>

datatype EvaluatorCall =
  Call_HandleInvocation nat EvaluatorContext "Token list" nat nat
  | Call_Propagate
  | Call_BuildEvaluateReferences nat nat

primrec runCall :: "Collaborators \<Rightarrow> EvaluatorCall \<Rightarrow> EvalState \<Rightarrow> EvalState option" where
  "runCall X (Call_HandleInvocation fuel ctx toks invocationStartIndex out) S =
     map_option snd (HandleInvocation_Recursive fuel X S ctx toks invocationStartIndex out)"
| "runCall X Call_Propagate S =
     Some (S\<lparr>environment := PropagateRequiredToReferences (environment S)\<rparr>)"
| "runCall X (Call_BuildEvaluateReferences fuel numErrorsOut) S =
     map_option (snd \<circ> snd) (BuildEvaluateReferences fuel X S numErrorsOut)"

primrec runCalls :: "Collaborators \<Rightarrow> EvaluatorCall list \<Rightarrow> EvalState \<Rightarrow> EvalState option" where
  "runCalls X [] S = Some S"
| "runCalls X (call # calls) S =
     (case runCall X call S of
        None \<Rightarrow> None
      | Some S' \<Rightarrow> runCalls X calls S')"

text \<open>Two environments with the same definitions up to \<^verbatim>\<open>isRequired\<close>.\<close>

definition sameButRequired :: "EvaluatorEnvironment \<Rightarrow> EvaluatorEnvironment \<Rightarrow> bool" where
  "sameButRequired env env' =
     (\<forall>k. map_option (\<lambda>d. d\<lparr>isRequired := False\<rparr>) (map_of (definitions env') k)
          = map_option (\<lambda>d. d\<lparr>isRequired := False\<rparr>) (map_of (definitions env) k))"


subsection \<open>Calls of known functions\<close>





subsection \<open>Example data\<close>

definition symbolToken :: "string \<Rightarrow> Token" where
  "symbolToken n =
     \<lparr>Token.type = TokenType_Symbol, contents = n, sourceFile = ''Example.cake'',
      lineNumber = 1, columnStart = 0, columnEnd = 0\<rparr>"

definition statusOf :: "ObjectReferenceGuessState \<Rightarrow> string \<Rightarrow> string \<times> ObjectReferenceStatus" where
  "statusOf g n =
     (n, \<lparr>ObjectReferenceStatus.name = symbolToken n, guessState = g,
          ObjectReferenceStatus.references = []\<rparr>)"

definition definitionOf ::
  "string \<Rightarrow> ObjectType \<Rightarrow> bool \<Rightarrow> (string \<times> ObjectReferenceStatus) list
     \<Rightarrow> string \<times> ObjectDefinition" where
  "definitionOf n t required refs =
     (n, \<lparr>ObjectDefinition.name = symbolToken n, ObjectDefinition.type = t, output' = 0,
          isRequired = required, isLoaded = False, ObjectDefinition.references = refs\<rparr>)"

definition environmentOf :: "(string \<times> ObjectDefinition) list \<Rightarrow> EvaluatorEnvironment" where
  "environmentOf ds =
     \<lparr>definitions = ds, referencePools = Map.empty, macros = Map.empty,
      generators = Map.empty, macroExpansions = [], nextFreeBuildId = 0,
      enableHotReloading = False\<rparr>"

definition stateOf :: "EvaluatorEnvironment \<Rightarrow> EvalState" where
  "stateOf env =
     \<lparr>environment = env, outputs = (\<lambda>_. emptyGeneratorOutput), nextOutput = 1,
      diagnostics = [], runningProcesses = [], processLog = []\<rparr>"

definition propagateExample :: EvaluatorEnvironment where
  "propagateExample =
     environmentOf
       [definitionOf ''g'' ObjectType_Function False [statusOf GuessState_None ''printf''],
        definitionOf ''f'' ObjectType_Function False
          [statusOf GuessState_None ''g'', statusOf GuessState_None ''f''],
        definitionOf ''<global>'' ObjectType_Function True [statusOf GuessState_None ''f''],
        definitionOf ''h'' ObjectType_CompileTimeMacro False [statusOf GuessState_None ''f'']]"

definition globalOnlyState :: EvalState where
  "globalOnlyState = stateOf (environmentOf [definitionOf ''<global>'' ObjectType_Function True []])"

definition moduleReference :: ObjectReference where
  "moduleReference =
     \<lparr>tokens = [symbolToken ''('', symbolToken ''foo'', symbolToken '')''], startIndex = 0,
      context' = \<lparr>scope = EvaluatorScope_Module, definitionName = None,
                  moduleEnvironment = None\<rparr>,
      spliceOutput = 0, isResolved = False\<rparr>"


definition stringToken :: "string \<Rightarrow> Token" where
  "stringToken n = (symbolToken n)\<lparr>Token.type := TokenType_String\<rparr>"

definition openParenToken :: Token where
  "openParenToken = (symbolToken ''('')\<lparr>Token.type := TokenType_OpenParen\<rparr>"

definition closeParenToken :: Token where
  "closeParenToken = (symbolToken '')'')\<lparr>Token.type := TokenType_CloseParen\<rparr>"

definition invocationOf :: "string \<Rightarrow> Token list" where
  "invocationOf n = [openParenToken, symbolToken n, closeParenToken]"

text \<open>
  Collaborators for the examples: macro 0 fails, macro 1 succeeds without output, macro 2
  produces a lone closing parenthesis, every other macro produces one string token;
  \<^verbatim>\<open>FunctionInvocationGenerator\<close> fails on an invocation of \<^verbatim>\<open>bad\<close>; every source file is
  newer than its library; no library can be loaded.
\<close>

definition exampleCollaborators :: Collaborators where
  "exampleCollaborators =
     \<lparr>invokeMacro = (\<lambda>m S ctx toks i.
         if m = 0 then (False, [stringToken ''partial''], S)
         else if m = 1 then (True, [], S)
         else if m = 2 then (True, [closeParenToken], S)
         else (True, [stringToken ''expanded''], S)),
      invokeGenerator = (\<lambda>g S ctx toks i out. (True, S)),
      FunctionInvocationGenerator = (\<lambda>S ctx toks i out. (contents (toks ! (i + 1)) \<noteq> ''bad'', S)),
      ExpectTokenType = (\<lambda>generatorName t expected. Token.type t = expected),
      ExpectEvaluatorScope = (\<lambda>generatorName t ctx expected. scope ctx = expected),
      validateParentheses = (\<lambda>toks.
         length (filter (\<lambda>t. Token.type t = TokenType_OpenParen) toks)
           = length (filter (\<lambda>t. Token.type t = TokenType_CloseParen) toks)),
      FindCloseParenTokenIndex = (\<lambda>toks i. i + 2),
      lispNameStyleToCNameStyle = (\<lambda>mode n. n),
      functionNameMode = NameStyleMode_Underscores,
      writeGeneratorOutput = (\<lambda>store out t fileName. True),
      fileIsMoreRecentlyModified = (\<lambda>fileName reference. True),
      runProcess = (\<lambda>arguments. 0),
      processExitStatus = (\<lambda>arguments. 0),
      loadDynamicLibrary = (\<lambda>path. None),
      getSymbolFromDynamicLibrary = (\<lambda>handle symbolName. None)\<rparr>"

definition expressionContext :: EvaluatorContext where
  "expressionContext =
     \<lparr>scope = EvaluatorScope_ExpressionsOnly, definitionName = None, moduleEnvironment = None\<rparr>"

definition macroState :: EvalState where
  "macroState =
     stateOf ((environmentOf [definitionOf ''<global>'' ObjectType_Function True []])
       \<lparr>macros := [''fail'' \<mapsto> 0, ''empty'' \<mapsto> 1, ''unbalanced'' \<mapsto> 2, ''ok'' \<mapsto> 3]\<rparr>)"


definition unbuiltState :: EvalState where
  "unbuiltState =
     stateOf (environmentOf
       [definitionOf ''<global>'' ObjectType_Function True [statusOf GuessState_None ''m''],
        definitionOf ''m'' ObjectType_CompileTimeMacro False []])"

definition nestedCallTokens :: "Token list" where
  "nestedCallTokens =
     [openParenToken, symbolToken ''foo'', openParenToken, symbolToken ''bar'',
      closeParenToken, closeParenToken]"

definition nestedCallReference :: ObjectReference where
  "nestedCallReference =
     \<lparr>tokens = nestedCallTokens, startIndex = 0,
      context' = \<lparr>scope = EvaluatorScope_Module, definitionName = None,
                  moduleEnvironment = None\<rparr>,
      spliceOutput = 1, isResolved = False\<rparr>"

text \<open>
  Collaborators whose \<^verbatim>\<open>FunctionInvocationGenerator\<close>, on an invocation of \<^verbatim>\<open>foo\<close>,
  evaluates the nested invocation two tokens further as the dispatcher does for an unknown
  name, so that a new reference is added while the readiness check runs.
\<close>

definition nestedCallCollaborators :: Collaborators where
  "nestedCallCollaborators =
     exampleCollaborators
       \<lparr>FunctionInvocationGenerator := (\<lambda>S ctx toks i out.
          if contents (toks ! (i + 1)) = ''foo''
          then (True, snd (unknownReference exampleCollaborators S ctx toks (i + 2) out))
          else (True, S))\<rparr>"

definition useBeforeDefinitionState :: EvalState where
  "useBeforeDefinitionState =
     (stateOf ((environmentOf
        [(''<global>'',
          \<lparr>ObjectDefinition.name = symbolToken ''<global>'',
           ObjectDefinition.type = ObjectType_Function, output' = 0, isRequired = True,
           isLoaded = False,
           ObjectDefinition.references =
             [(''foo'', \<lparr>ObjectReferenceStatus.name = symbolToken ''foo'',
                         guessState = GuessState_None,
                         ObjectReferenceStatus.references = [nestedCallReference]\<rparr>)]\<rparr>),
         definitionOf ''foo'' ObjectType_Function False []])
        \<lparr>referencePools := [''foo'' \<mapsto> [nestedCallReference]]\<rparr>))
     \<lparr>nextOutput := 2\<rparr>"

definition loadedMacroState :: EvalState where
  "loadedMacroState =
     stateOf ((environmentOf
        [definitionOf ''<global>'' ObjectType_Function True [statusOf GuessState_Resolved ''m''],
         (''m'', (snd (definitionOf ''m'' ObjectType_CompileTimeMacro True
                        [statusOf GuessState_None ''baz'']))\<lparr>isLoaded := True\<rparr>)])
        \<lparr>macros := [''m'' \<mapsto> 5]\<rparr>)"


definition callReference :: "string \<Rightarrow> nat \<Rightarrow> ObjectReference" where
  "callReference n spliceAddr =
     \<lparr>tokens = invocationOf n, startIndex = 0,
      context' = \<lparr>scope = EvaluatorScope_Module, definitionName = None,
                  moduleEnvironment = None\<rparr>,
      spliceOutput = spliceAddr, isResolved = False\<rparr>"

definition callStatus :: "string \<Rightarrow> nat \<Rightarrow> string \<times> ObjectReferenceStatus" where
  "callStatus n spliceAddr =
     (n, \<lparr>ObjectReferenceStatus.name = symbolToken n, guessState = GuessState_None,
          ObjectReferenceStatus.references = [callReference n spliceAddr]\<rparr>)"

text \<open>
  Collaborators for a definition that appears late: the library of the macro \<^verbatim>\<open>mk\<close> loads,
  and the macro it holds defines the macro \<^verbatim>\<open>foo\<close> and produces no tokens.
\<close>

definition lateDefinitionCollaborators :: Collaborators where
  "lateDefinitionCollaborators =
     exampleCollaborators
       \<lparr>invokeMacro := (\<lambda>m S ctx toks i.
          (True, [],
           snd (addObjectDefinition S (snd (definitionOf ''foo'' ObjectType_CompileTimeMacro False []))))),
        loadDynamicLibrary := (\<lambda>path.
          if path = ''cakelisp_cache/libcomptime_mk.so'' then Some 0 else None),
        getSymbolFromDynamicLibrary := (\<lambda>handle symbolName. Some 7)\<rparr>"

definition lateDefinitionState :: EvalState where
  "lateDefinitionState =
     (stateOf ((environmentOf
        [definitionOf ''<global>'' ObjectType_Function True
           [callStatus ''foo'' 1, callStatus ''mk'' 2],
         definitionOf ''mk'' ObjectType_CompileTimeMacro False []])
        \<lparr>referencePools := [''foo'' \<mapsto> [callReference ''foo'' 1],
                             ''mk'' \<mapsto> [callReference ''mk'' 2]]\<rparr>))
     \<lparr>nextOutput := 3\<rparr>"

definition propagated :: "EvalState \<Rightarrow> EvalState" where
  "propagated S = S\<lparr>environment := PropagateRequiredToReferences (environment S)\<rparr>"

definition guessedState :: EvalState where
  "guessedState =
     stateOf (environmentOf
       [definitionOf ''<global>'' ObjectType_Function True [statusOf GuessState_Guessed ''foo''],
        definitionOf ''foo'' ObjectType_CompileTimeMacro False []])"

definition afterFirstPass :: EvalState where
  "afterFirstPass =
     (case BuildEvaluateReferences 5 lateDefinitionCollaborators
             (propagated lateDefinitionState) 0 of
        None \<Rightarrow> lateDefinitionState
      | Some (numReferencesResolved, numErrors, S) \<Rightarrow> S)"

definition afterSecondPass :: EvalState where
  "afterSecondPass =
     (case BuildEvaluateReferences 5 lateDefinitionCollaborators (propagated afterFirstPass) 0 of
        None \<Rightarrow> afterFirstPass
      | Some (numReferencesResolved, numErrors, S) \<Rightarrow> S)"


text \<open>
  One required macro \<^verbatim>\<open>m\<close> with no reference.
\<close>

definition macroOnlyState :: EvalState where
  "macroOnlyState = stateOf (environmentOf [definitionOf ''m'' ObjectType_CompileTimeMacro True []])"

text \<open>
  Collaborators for which the source of \<^verbatim>\<open>m\<close> is not newer than
  \<^verbatim>\<open>cakelisp_cache/libm.so\<close> and is newer than every other file.
\<close>

definition libNameCollaborators :: Collaborators where
  "libNameCollaborators =
     exampleCollaborators
       \<lparr>fileIsMoreRecentlyModified :=
          (\<lambda>fileName reference. reference \<noteq> ''cakelisp_cache/libm.so'')\<rparr>"


text \<open>
  Nine required macros, none loaded, none with a reference.
\<close>

definition nineMacros :: "string list" where
  "nineMacros = [''m1'', ''m2'', ''m3'', ''m4'', ''m5'', ''m6'', ''m7'', ''m8'', ''m9'']"

definition nineMacrosState :: EvalState where
  "nineMacrosState =
     stateOf (environmentOf
       (map (\<lambda>n. definitionOf n ObjectType_CompileTimeMacro True []) nineMacros))"





text \<open>
  The \<^verbatim>\<open><global>\<close> definition with one reference to \<^verbatim>\<open>foo\<close> that the load loop has
  resolved: the copy in the pool carries the flag, the copy in the status does not.
\<close>

definition resolvedPoolState :: EvalState where
  "resolvedPoolState =
     stateOf ((environmentOf
        [(''<global>'',
          \<lparr>ObjectDefinition.name = symbolToken ''<global>'',
           ObjectDefinition.type = ObjectType_Function, output' = 0, isRequired = True,
           isLoaded = False,
           ObjectDefinition.references =
             [(''foo'', \<lparr>ObjectReferenceStatus.name = symbolToken ''foo'',
                         guessState = GuessState_Resolved,
                         ObjectReferenceStatus.references = [callReference ''foo'' 1]\<rparr>)]\<rparr>)])
        \<lparr>referencePools := [''foo'' \<mapsto> [(callReference ''foo'' 1)\<lparr>isResolved := True\<rparr>]]\<rparr>)"


text \<open>
  The macro \<^verbatim>\<open>m\<close>, required by one module-scope invocation that waits in the pool, and
  collaborators for which the source of \<^verbatim>\<open>m\<close> is not newer than
  \<^verbatim>\<open>cakelisp_cache/libcomptime_m.so\<close>, that library loads, and the function found in it is
  the macro that succeeds without output.
\<close>

definition cachedMacroState :: EvalState where
  "cachedMacroState =
     (stateOf ((environmentOf
        [definitionOf ''<global>'' ObjectType_Function True [callStatus ''m'' 1],
         definitionOf ''m'' ObjectType_CompileTimeMacro True []])
        \<lparr>referencePools := [''m'' \<mapsto> [callReference ''m'' 1]]\<rparr>))
     \<lparr>nextOutput := 2\<rparr>"

definition loadingCollaborators :: Collaborators where
  "loadingCollaborators =
     exampleCollaborators
       \<lparr>fileIsMoreRecentlyModified :=
          (\<lambda>fileName reference. reference \<noteq> ''cakelisp_cache/libcomptime_m.so''),
        loadDynamicLibrary := (\<lambda>path.
          if path = ''cakelisp_cache/libcomptime_m.so'' then Some 0 else None),
        getSymbolFromDynamicLibrary := (\<lambda>handle symbolName. Some 1)\<rparr>"










text \<open>
  A module whose top level invokes \<^verbatim>\<open>foo\<close>, which nothing defines yet, and the macro
  \<^verbatim>\<open>mk\<close>, which is defined and not loaded: the two invocations are handled, then the
  requirement is propagated and one pass of \<^verbatim>\<open>BuildEvaluateReferences\<close> runs.
\<close>

definition moduleContext :: EvaluatorContext where
  "moduleContext = \<lparr>scope = EvaluatorScope_Module, definitionName = None,
                     moduleEnvironment = None\<rparr>"

definition freshModuleState :: EvalState where
  "freshModuleState =
     stateOf (environmentOf
       [definitionOf ''<global>'' ObjectType_Function True [],
        definitionOf ''mk'' ObjectType_CompileTimeMacro False []])"

definition moduleCalls :: "EvaluatorCall list" where
  "moduleCalls =
     [Call_HandleInvocation 2 moduleContext (invocationOf ''foo'') 0 0,
      Call_HandleInvocation 2 moduleContext (invocationOf ''mk'') 0 0,
      Call_Propagate,
      Call_BuildEvaluateReferences 5 0]"
section \<open>Requirement propagation reaches the closure\<close>

lemma map_of_setRequired:
  "map_of (setRequired k ds) a =
     (if a = k then map_option (\<lambda>d. d\<lparr>isRequired := True\<rparr>) (map_of ds k) else map_of ds a)"
  by (auto simp: setRequired_def AList.map_of_map_entry split: option.splits)

lemma map_fst_setRequired: "map fst (setRequired k ds) = map fst ds"
  unfolding setRequired_def by (induction ds) auto

lemma sameReferences_refl: "sameReferences env env"
  by (simp add: sameReferences_def)

lemma sameReferences_trans:
  "sameReferences a b \<Longrightarrow> sameReferences b c \<Longrightarrow> sameReferences a c"
  by (simp add: sameReferences_def)

lemma sameReferences_setRequired:
  "sameReferences env (env\<lparr>definitions := setRequired k (definitions env)\<rparr>)"
  by (auto simp: sameReferences_def map_of_setRequired map_fst_setRequired option.map_comp comp_def
      split: option.splits)

lemma sameReferences_lookup:
  assumes "sameReferences env env'" and "map_of (definitions env) a = Some d"
  shows "\<exists>e. map_of (definitions env') a = Some e
           \<and> ObjectDefinition.references e = ObjectDefinition.references d"
proof -
  have "map_option ObjectDefinition.references (map_of (definitions env') a)
        = Some (ObjectDefinition.references d)"
    using assms by (simp add: sameReferences_def)
  then show ?thesis by (cases "map_of (definitions env') a") auto
qed

lemma sameReferences_sym: "sameReferences a b \<Longrightarrow> sameReferences b a"
  by (simp add: sameReferences_def)

lemma sameReferences_None:
  assumes "sameReferences env env'"
  shows "(map_of (definitions env') a = None) = (map_of (definitions env) a = None)"
proof -
  have "map_option ObjectDefinition.references (map_of (definitions env') a)
        = map_option ObjectDefinition.references (map_of (definitions env) a)"
    using assms by (simp add: sameReferences_def)
  then show ?thesis by (metis option.map_disc_iff)
qed

lemma sameReferences_edges_subset:
  assumes "sameReferences env env'"
  shows "referenceEdges env \<subseteq> referenceEdges env'"
proof
  fix e assume "e \<in> referenceEdges env"
  then obtain a b d st where e: "e = (a, b)" and d: "map_of (definitions env) a = Some d"
    and st: "st \<in> snd ` set (ObjectDefinition.references d)"
    and b: "b = contents (ObjectReferenceStatus.name st)"
    and ex: "map_of (definitions env) b \<noteq> None"
    unfolding referenceEdges_def by blast
  from sameReferences_lookup[OF assms d] obtain d' where
    d': "map_of (definitions env') a = Some d'"
    and r: "ObjectDefinition.references d' = ObjectDefinition.references d" by blast
  from ex sameReferences_None[OF assms, of b] have "map_of (definitions env') b \<noteq> None" by simp
  with d' r st b e show "e \<in> referenceEdges env'"
    unfolding referenceEdges_def by auto
qed

lemma sameReferences_edges:
  assumes "sameReferences env env'"
  shows "referenceEdges env' = referenceEdges env"
  using sameReferences_edges_subset[OF assms]
    sameReferences_edges_subset[OF sameReferences_sym[OF assms]] by blast

lemma propagateStepOK_refl: "propagateStepOK C acc acc"
  by (simp add: propagateStepOK_def sameReferences_refl)

lemma propagateStepOK_trans:
  assumes "propagateStepOK C a b" and "propagateStepOK C b c"
  shows "propagateStepOK C a c"
proof -
  have 1: "sameReferences (fst a) (fst c)"
    using assms sameReferences_trans unfolding propagateStepOK_def by blast
  have 2: "requiredNames (fst a) \<subseteq> requiredNames (fst b)"
    "requiredNames (fst b) \<subseteq> requiredNames (fst c)"
    using assms unfolding propagateStepOK_def by blast+
  have 3: "requiredNames (fst a) \<subseteq> C \<longrightarrow> requiredNames (fst c) \<subseteq> C"
    using assms unfolding propagateStepOK_def by blast
  have 4: "snd a \<le> snd b" "snd b \<le> snd c"
    using assms unfolding propagateStepOK_def by blast+
  have 5: "snd c = snd a \<longrightarrow> fst c = fst a"
  proof
    assume "snd c = snd a"
    with 4 have "snd b = snd a" "snd c = snd b" by auto
    with assms show "fst c = fst a" unfolding propagateStepOK_def by metis
  qed
  have 6: "snd c \<noteq> snd a \<longrightarrow> requiredNames (fst c) \<noteq> requiredNames (fst a)"
  proof
    assume "snd c \<noteq> snd a"
    then have "snd b \<noteq> snd a \<or> snd c \<noteq> snd b" by auto
    then have "requiredNames (fst b) \<noteq> requiredNames (fst a)
               \<or> requiredNames (fst c) \<noteq> requiredNames (fst b)"
      using assms unfolding propagateStepOK_def by blast
    with 2 show "requiredNames (fst c) \<noteq> requiredNames (fst a)" by blast
  qed
  from 1 2 3 4 5 6 show ?thesis unfolding propagateStepOK_def by auto
qed

lemma requiredNames_setRequired:
  "requiredNames (env\<lparr>definitions := setRequired k (definitions env)\<rparr>)
     = requiredNames env \<union> {a. a = k \<and> map_of (definitions env) k \<noteq> None}"
  by (auto simp: requiredNames_def map_of_setRequired split: if_splits)

lemma propagateToReference_step:
  assumes closed: "referenceEdges env `` C \<subseteq> C"
    and member: "\<And>d. map_of (definitions env) k = Some d
                   \<Longrightarrow> st \<in> snd ` set (ObjectDefinition.references d)"
  shows "propagateStepOK C (env, n) (propagateToReference k st (env, n))"
proof (cases "map_of (definitions env) k")
  case None
  then show ?thesis by (simp add: propagateToReference_def propagateStepOK_refl)
next
  case (Some d)
  note d = this
  let ?b = "contents (ObjectReferenceStatus.name st)"
  show ?thesis
  proof (cases "isRequired d \<and> (\<exists>found. map_of (definitions env) ?b = Some found \<and> \<not> isRequired found)")
    case False
    then have "propagateToReference k st (env, n) = (env, n)"
      using d by (auto simp: propagateToReference_def split: option.splits)
    then show ?thesis by (simp add: propagateStepOK_refl)
  next
    case True
    then obtain found where f: "map_of (definitions env) ?b = Some found" "\<not> isRequired found"
      and req: "isRequired d" by blast
    let ?env' = "env\<lparr>definitions := setRequired ?b (definitions env)\<rparr>"
    have eq: "propagateToReference k st (env, n) = (?env', n + 1)"
      using d f req by (simp add: propagateToReference_def)
    have rn: "requiredNames ?env' = requiredNames env \<union> {?b}"
      using f by (auto simp: requiredNames_setRequired)
    have notin: "?b \<notin> requiredNames env"
      using f by (simp add: requiredNames_def)
    have edge: "(k, ?b) \<in> referenceEdges env"
      using d member[OF d] f unfolding referenceEdges_def by auto
    have kreq: "k \<in> requiredNames env"
      using d req by (simp add: requiredNames_def)
    have inC: "requiredNames env \<subseteq> C \<longrightarrow> ?b \<in> C"
      using edge kreq closed by blast
    show ?thesis
      unfolding eq propagateStepOK_def
      using rn notin inC sameReferences_setRequired[of env ?b] by auto
  qed
qed

lemma propagateToReference_fixed:
  assumes "snd (propagateToReference k st (env, n)) = n"
  shows "closedAt env k st"
  using assms
  by (auto simp: propagateToReference_def closedAt_def split: option.splits if_splits)

lemma sameReferences_member:
  assumes same: "sameReferences env env1"
    and member: "\<And>d. map_of (definitions env) k = Some d
                   \<Longrightarrow> set sts \<subseteq> snd ` set (ObjectDefinition.references d)"
    and d1: "map_of (definitions env1) k = Some d1"
  shows "set sts \<subseteq> snd ` set (ObjectDefinition.references d1)"
proof -
  from sameReferences_lookup[OF sameReferences_sym[OF same] d1] obtain d where
    "map_of (definitions env) k = Some d"
    "ObjectDefinition.references d = ObjectDefinition.references d1" by blast
  with member show ?thesis by metis
qed

lemma fold_propagateToReference_step:
  assumes "referenceEdges env `` C \<subseteq> C"
    and "\<And>d. map_of (definitions env) k = Some d
           \<Longrightarrow> set sts \<subseteq> snd ` set (ObjectDefinition.references d)"
  shows "propagateStepOK C (env, n) (fold (propagateToReference k) sts (env, n))"
  using assms
proof (induction sts arbitrary: env n)
  case Nil
  then show ?case by (simp add: propagateStepOK_refl)
next
  case (Cons st sts)
  obtain env1 n1 where acc1: "propagateToReference k st (env, n) = (env1, n1)"
    by (cases "propagateToReference k st (env, n)")
  have first: "propagateStepOK C (env, n) (env1, n1)"
    using propagateToReference_step[of env C k st n] Cons.prems acc1 by auto
  then have same: "sameReferences env env1" by (simp add: propagateStepOK_def)
  have closed1: "referenceEdges env1 `` C \<subseteq> C"
    using Cons.prems(1) sameReferences_edges[OF same] by simp
  have member1: "\<And>d1. map_of (definitions env1) k = Some d1
           \<Longrightarrow> set sts \<subseteq> snd ` set (ObjectDefinition.references d1)"
  proof -
    fix d1 assume d1: "map_of (definitions env1) k = Some d1"
    have "set (st # sts) \<subseteq> snd ` set (ObjectDefinition.references d1)"
      by (rule sameReferences_member[OF same _ d1]) (rule Cons.prems(2))
    then show "set sts \<subseteq> snd ` set (ObjectDefinition.references d1)" by simp
  qed
  have rest: "propagateStepOK C (env1, n1) (fold (propagateToReference k) sts (env1, n1))"
    by (rule Cons.IH[OF closed1 member1])
  show ?case
    using propagateStepOK_trans[OF first rest] acc1 by simp
qed

lemma fold_propagateToReference_fixed:
  assumes "referenceEdges env `` C \<subseteq> C"
    and "\<And>d. map_of (definitions env) k = Some d
           \<Longrightarrow> set sts \<subseteq> snd ` set (ObjectDefinition.references d)"
    and "snd (fold (propagateToReference k) sts (env, n)) = n"
  shows "\<forall>st\<in>set sts. closedAt env k st"
  using assms
proof (induction sts arbitrary: n)
  case Nil
  then show ?case by simp
next
  case (Cons st sts)
  obtain env1 n1 where acc1: "propagateToReference k st (env, n) = (env1, n1)"
    by (cases "propagateToReference k st (env, n)")
  have first: "propagateStepOK C (env, n) (env1, n1)"
    using propagateToReference_step[of env C k st n] Cons.prems acc1 by auto
  then have same: "sameReferences env env1" by (simp add: propagateStepOK_def)
  have closed1: "referenceEdges env1 `` C \<subseteq> C"
    using Cons.prems(1) sameReferences_edges[OF same] by simp
  have member1: "\<And>d1. map_of (definitions env1) k = Some d1
           \<Longrightarrow> set sts \<subseteq> snd ` set (ObjectDefinition.references d1)"
  proof -
    fix d1 assume d1: "map_of (definitions env1) k = Some d1"
    have "set (st # sts) \<subseteq> snd ` set (ObjectDefinition.references d1)"
      by (rule sameReferences_member[OF same _ d1]) (rule Cons.prems(2))
    then show "set sts \<subseteq> snd ` set (ObjectDefinition.references d1)" by simp
  qed
  have rest: "propagateStepOK C (env1, n1) (fold (propagateToReference k) sts (env1, n1))"
    by (rule fold_propagateToReference_step[OF closed1 member1])
  have fin: "snd (fold (propagateToReference k) sts (env1, n1)) = n"
    using Cons.prems(3) acc1 by simp
  have le: "n \<le> n1" "n1 \<le> n"
    using first rest fin by (auto simp: propagateStepOK_def)
  then have n1: "n1 = n" by simp
  with first have env1: "env1 = env" by (simp add: propagateStepOK_def)
  have here: "closedAt env k st"
    using propagateToReference_fixed[of k st env n] acc1 n1 by simp
  have member: "\<And>d. map_of (definitions env) k = Some d
           \<Longrightarrow> set sts \<subseteq> snd ` set (ObjectDefinition.references d)"
    using Cons.prems(2) by auto
  have "\<forall>st\<in>set sts. closedAt env k st"
    using Cons.IH[OF Cons.prems(1) member, of n] fin n1 env1 by simp
  with here show ?case by simp
qed

lemma propagateDefinition_step:
  assumes "referenceEdges env `` C \<subseteq> C"
  shows "propagateStepOK C (env, n) (propagateDefinition k (env, n))"
proof (cases "map_of (definitions env) k")
  case None
  then show ?thesis by (simp add: propagateDefinition_def propagateStepOK_refl)
next
  case (Some d)
  have "propagateStepOK C (env, n)
          (fold (propagateToReference k) (map snd (ObjectDefinition.references d)) (env, n))"
    by (rule fold_propagateToReference_step[OF assms]) (simp add: Some)
  then show ?thesis by (simp add: propagateDefinition_def Some)
qed

lemma propagateDefinition_fixed:
  assumes "referenceEdges env `` C \<subseteq> C"
    and "snd (propagateDefinition k (env, n)) = n"
    and "map_of (definitions env) k = Some d"
  shows "\<forall>st\<in>snd ` set (ObjectDefinition.references d). closedAt env k st"
proof -
  have "\<forall>st\<in>set (map snd (ObjectDefinition.references d)). closedAt env k st"
    by (rule fold_propagateToReference_fixed[OF assms(1), where n = n])
       (use assms in \<open>simp_all add: propagateDefinition_def\<close>)
  then show ?thesis by simp
qed

lemma fold_propagateDefinition_step:
  assumes "referenceEdges env `` C \<subseteq> C"
  shows "propagateStepOK C (env, n) (fold propagateDefinition ks (env, n))"
  using assms
proof (induction ks arbitrary: env n)
  case Nil
  then show ?case by (simp add: propagateStepOK_refl)
next
  case (Cons k ks)
  obtain env1 n1 where acc1: "propagateDefinition k (env, n) = (env1, n1)"
    by (cases "propagateDefinition k (env, n)")
  have first: "propagateStepOK C (env, n) (env1, n1)"
    using propagateDefinition_step[OF Cons.prems, of n k] acc1 by simp
  then have same: "sameReferences env env1" by (simp add: propagateStepOK_def)
  have closed1: "referenceEdges env1 `` C \<subseteq> C"
    using Cons.prems sameReferences_edges[OF same] by simp
  show ?case
    using propagateStepOK_trans[OF first Cons.IH[OF closed1, of n1]] acc1 by simp
qed

lemma fold_propagateDefinition_fixed:
  assumes "referenceEdges env `` C \<subseteq> C"
    and "snd (fold propagateDefinition ks (env, n)) = n"
    and "k \<in> set ks" and "map_of (definitions env) k = Some d"
  shows "\<forall>st\<in>snd ` set (ObjectDefinition.references d). closedAt env k st"
  using assms(2,3)
proof (induction ks arbitrary: n)
  case Nil
  then show ?case by simp
next
  case (Cons a ks)
  obtain env1 n1 where acc1: "propagateDefinition a (env, n) = (env1, n1)"
    by (cases "propagateDefinition a (env, n)")
  have first: "propagateStepOK C (env, n) (env1, n1)"
    using propagateDefinition_step[OF assms(1), of n a] acc1 by simp
  then have same: "sameReferences env env1" by (simp add: propagateStepOK_def)
  have closed1: "referenceEdges env1 `` C \<subseteq> C"
    using assms(1) sameReferences_edges[OF same] by simp
  have rest: "propagateStepOK C (env1, n1) (fold propagateDefinition ks (env1, n1))"
    by (rule fold_propagateDefinition_step[OF closed1])
  have fin: "snd (fold propagateDefinition ks (env1, n1)) = n"
    using Cons.prems(1) acc1 by simp
  have "n \<le> n1" "n1 \<le> n"
    using first rest fin by (auto simp: propagateStepOK_def)
  then have n1: "n1 = n" by simp
  with first have env1: "env1 = env" by (simp add: propagateStepOK_def)
  show ?case
  proof (cases "k = a")
    case True
    show ?thesis
      by (rule propagateDefinition_fixed[OF assms(1) _ assms(4), where n = n])
         (use acc1 n1 True in simp)
  next
    case False
    then have "k \<in> set ks" using Cons.prems(2) by simp
    then show ?thesis using Cons.IH[of n] fin n1 env1 by simp
  qed
qed

lemma propagatePass_step:
  assumes "referenceEdges env `` C \<subseteq> C"
  shows "propagateStepOK C (env, 0) (propagatePass env)"
  unfolding propagatePass_def by (rule fold_propagateDefinition_step[OF assms])

lemma requiredNames_keys: "requiredNames env \<subseteq> fst ` set (definitions env)"
  by (auto simp: requiredNames_def dest: map_of_SomeD intro: rev_image_eqI)

lemma propagatePass_measure:
  assumes "propagatePass env = (env', n)" and "n \<noteq> 0"
  shows "card (fst ` set (definitions env') - requiredNames env')
           < card (fst ` set (definitions env) - requiredNames env)"
proof -
  have ok: "propagateStepOK UNIV (env, 0) (env', n)"
    using propagatePass_step[of env UNIV] assms(1) by simp
  then have keys: "map fst (definitions env') = map fst (definitions env)"
    by (simp add: propagateStepOK_def sameReferences_def)
  then have keys': "fst ` set (definitions env') = fst ` set (definitions env)"
    by (metis set_map)
  from ok assms(2) have "requiredNames env \<subset> requiredNames env'"
    by (auto simp: propagateStepOK_def)
  moreover have "requiredNames env' \<subseteq> fst ` set (definitions env)"
    using requiredNames_keys[of env'] keys' by simp
  ultimately have "fst ` set (definitions env) - requiredNames env'
                     \<subset> fst ` set (definitions env) - requiredNames env"
    by blast
  then show ?thesis
    unfolding keys' by (intro psubset_card_mono) auto
qed

termination PropagateRequiredToReferences
proof (relation "measure (\<lambda>env. card (fst ` set (definitions env) - requiredNames env))")
  show "wf (measure (\<lambda>env. card (fst ` set (definitions env) - requiredNames env)))"
    by simp
next
  fix env env' n
  assume "(env', n) = propagatePass env" and "n \<noteq> 0"
  then have "propagatePass env = (env', n)" by simp
  from propagatePass_measure[OF this \<open>n \<noteq> 0\<close>]
  show "(env', env) \<in> measure (\<lambda>env. card (fst ` set (definitions env) - requiredNames env))"
    by simp
qed

lemma propagatePass_fixed_closed:
  assumes "propagatePass env = (env', 0)"
  shows "env' = env" and "referenceEdges env `` requiredNames env \<subseteq> requiredNames env"
proof -
  have ok: "propagateStepOK UNIV (env, 0) (env', 0)"
    using propagatePass_step[of env UNIV] assms by simp
  then show "env' = env" by (simp add: propagateStepOK_def)
  show "referenceEdges env `` requiredNames env \<subseteq> requiredNames env"
  proof
    fix b assume "b \<in> referenceEdges env `` requiredNames env"
    then obtain a where a: "a \<in> requiredNames env" and e: "(a, b) \<in> referenceEdges env" by blast
    from e obtain d st where d: "map_of (definitions env) a = Some d"
      and st: "st \<in> snd ` set (ObjectDefinition.references d)"
      and b: "b = contents (ObjectReferenceStatus.name st)"
      and ex: "map_of (definitions env) b \<noteq> None"
      unfolding referenceEdges_def by blast
    from a d have req: "isRequired d" by (auto simp: requiredNames_def)
    have key: "a \<in> set (map fst (definitions env))"
      using d by (auto dest: map_of_SomeD intro: rev_image_eqI)
    have "\<forall>st\<in>snd ` set (ObjectDefinition.references d). closedAt env a st"
      by (rule fold_propagateDefinition_fixed[where C = UNIV and n = 0 and ks = "map fst (definitions env)"])
         (use assms key d in \<open>simp_all add: propagatePass_def\<close>)
    with st have "closedAt env a st" by blast
    with d req ex b show "b \<in> requiredNames env"
      by (auto simp: closedAt_def requiredNames_def)
  qed
qed

lemma closed_rtrancl_Image:
  assumes "E `` R \<subseteq> R"
  shows "E\<^sup>* `` R = R"
proof
  show "R \<subseteq> E\<^sup>* `` R" by blast
  show "E\<^sup>* `` R \<subseteq> R"
  proof
    fix b assume "b \<in> E\<^sup>* `` R"
    then obtain a where "a \<in> R" and "(a, b) \<in> E\<^sup>*" by blast
    from this(2) this(1) show "b \<in> R"
      by (induction rule: rtrancl_induct) (use assms in blast)+
  qed
qed

lemma PropagateRequiredToReferences_result:
  "requiredNames (PropagateRequiredToReferences env) = (referenceEdges env)\<^sup>* `` requiredNames env
   \<and> referenceEdges (PropagateRequiredToReferences env) = referenceEdges env
   \<and> propagatePass (PropagateRequiredToReferences env) = (PropagateRequiredToReferences env, 0)"
proof (induction env rule: PropagateRequiredToReferences.induct)
  case (1 env)
  obtain env' n where pass: "propagatePass env = (env', n)"
    by (cases "propagatePass env")
  let ?E = "referenceEdges env"
  let ?C = "?E\<^sup>* `` requiredNames env"
  show ?case
  proof (cases "n = 0")
    case True
    with pass have p0: "propagatePass env = (env', 0)" by simp
    note fx = propagatePass_fixed_closed[OF p0]
    have res: "PropagateRequiredToReferences env = env"
      using p0 fx(1) by (subst PropagateRequiredToReferences.simps) simp
    show ?thesis
      unfolding res using closed_rtrancl_Image[OF fx(2)] p0 fx(1) by simp
  next
    case False
    have res: "PropagateRequiredToReferences env = PropagateRequiredToReferences env'"
      using pass False by (subst PropagateRequiredToReferences.simps) simp
    have closed: "?E `` ?C \<subseteq> ?C"
      by (auto intro: rtrancl_into_rtrancl)
    have ok: "propagateStepOK ?C (env, 0) (env', n)"
      using propagatePass_step[OF closed] pass by simp
    then have same: "sameReferences env env'" by (simp add: propagateStepOK_def)
    have edges: "referenceEdges env' = ?E" by (rule sameReferences_edges[OF same])
    have lower: "requiredNames env \<subseteq> requiredNames env'"
      using ok by (simp add: propagateStepOK_def)
    have upper: "requiredNames env' \<subseteq> ?C"
      using ok by (auto simp: propagateStepOK_def)
    have "?E\<^sup>* `` requiredNames env' = ?C"
    proof
      show "?E\<^sup>* `` requiredNames env' \<subseteq> ?C"
      proof
        fix b assume "b \<in> ?E\<^sup>* `` requiredNames env'"
        then obtain a where "a \<in> requiredNames env'" "(a, b) \<in> ?E\<^sup>*" by blast
        moreover from this(1) upper obtain r where "r \<in> requiredNames env" "(r, a) \<in> ?E\<^sup>*"
          by blast
        ultimately show "b \<in> ?C" by (meson Image_iff rtrancl_trans)
      qed
      show "?C \<subseteq> ?E\<^sup>* `` requiredNames env'" using lower by blast
    qed
    with "1.IH"[OF pass[symmetric] False] edges show ?thesis
      unfolding res by simp
  qed
qed

declare PropagateRequiredToReferences.simps [simp del]

text \<open>
  C5. When \<^verbatim>\<open>PropagateRequiredToReferences\<close> returns, the required definitions are exactly
  those reachable, along the edges from a definition to the definitions named in its reference
  map, from the definitions that were required on entry; when only \<^verbatim>\<open><global>\<close> was
  required, they are the definitions reachable from \<^verbatim>\<open><global>\<close>.  The result is a fixed
  point: one more pass changes nothing and counts no transition.  The function is total, so the
  loop ends for every definitions map.
\<close>

theorem PropagateRequiredToReferences_closure:
  "requiredNames (PropagateRequiredToReferences env)
     = (referenceEdges env)\<^sup>* `` requiredNames env
   \<and> (requiredNames env = {globalDefinitionName}
        \<longrightarrow> requiredNames (PropagateRequiredToReferences env)
              = {n. (globalDefinitionName, n) \<in> (referenceEdges env)\<^sup>*})
   \<and> propagatePass (PropagateRequiredToReferences env)
       = (PropagateRequiredToReferences env, 0)"
proof -
  note r = PropagateRequiredToReferences_result[of env]
  have "requiredNames env = {globalDefinitionName}
        \<longrightarrow> requiredNames (PropagateRequiredToReferences env)
              = {n. (globalDefinitionName, n) \<in> (referenceEdges env)\<^sup>*}"
    using r by auto
  with r show ?thesis by blast
qed

lemma propagateExample_required: "requiredNames propagateExample = {globalDefinitionName}"
  by (auto simp: requiredNames_def propagateExample_def environmentOf_def definitionOf_def
      globalDefinitionName_def split: if_splits)

lemma propagateExample_result:
  "map (\<lambda>(k, d). (k, isRequired d)) (definitions (PropagateRequiredToReferences propagateExample))
     = [(''g'', True), (''f'', True), (''<global>'', True), (''h'', False)]"
  by (simp add: PropagateRequiredToReferences.simps propagatePass_def propagateDefinition_def
      propagateToReference_def setRequired_def propagateExample_def environmentOf_def
      definitionOf_def statusOf_def symbolToken_def)

theorem PropagateRequiredToReferences_closure_witness:
  "requiredNames propagateExample = {globalDefinitionName}
   \<and> requiredNames (PropagateRequiredToReferences propagateExample)
       = {n. (globalDefinitionName, n) \<in> (referenceEdges propagateExample)\<^sup>*}
   \<and> map (\<lambda>(k, d). (k, isRequired d))
         (definitions (PropagateRequiredToReferences propagateExample))
       = [(''g'', True), (''f'', True), (''<global>'', True), (''h'', False)]"
proof -
  have "requiredNames propagateExample = {globalDefinitionName}
        \<longrightarrow> requiredNames (PropagateRequiredToReferences propagateExample)
              = {n. (globalDefinitionName, n) \<in> (referenceEdges propagateExample)\<^sup>*}"
    using PropagateRequiredToReferences_closure[of propagateExample] by (rule conjunct1[OF conjunct2])
  with propagateExample_required propagateExample_result show ?thesis by blast
qed

section \<open>Unfolding the model on the examples\<close>

lemmas example_defs =
  exampleCollaborators_def expressionContext_def macroState_def stateOf_def environmentOf_def
  definitionOf_def statusOf_def symbolToken_def stringToken_def openParenToken_def
  closeParenToken_def invocationOf_def findMacro_def findGenerator_def

lemmas run_defs =
  PropagateRequiredToReferences.simps propagatePass_def propagateDefinition_def
  propagateToReference_def setRequired_def
  BuildEvaluateReferences_def definitionsToCheck_def checkToBuild_def checkReference_def
  lookupStatus_def setGuessState_def initialFlags_def shouldBuild_def isCompileTimeObject_def
  getNextFreeBuildId_def wrapInt_def newBuildObject_def compilePhase_def compileBuildObject_def
  linkPhase_def linkBuildObject_def waitForAllProcessesClosed_def closeProcess_def
  spawnProcess_def maxProcessesSpawned_def loadBuildObject_def compileArguments_def
  linkArguments_def artifactsNameOf_def sourceOutputNameOf_def buildObjectNameOf_def dynamicLibraryOutOf_def
  report_def cakelispWorkingDir_def Let_def

section \<open>References added to a pool are recorded in the enclosing definition\<close>

lemma map_of_addReferenceToStatus:
  "map_of (ObjectDefinition.references (addReferenceToStatus tok reference d)) n =
     (if n = contents tok
      then Some (case map_of (ObjectDefinition.references d) n of
                   None \<Rightarrow> \<lparr>ObjectReferenceStatus.name = tok, guessState = GuessState_None,
                             ObjectReferenceStatus.references = [reference]\<rparr>
                 | Some st \<Rightarrow> st\<lparr>ObjectReferenceStatus.references :=
                                   ObjectReferenceStatus.references st @ [reference]\<rparr>)
      else map_of (ObjectDefinition.references d) n)"
  by (auto simp: addReferenceToStatus_def AList.update_conv' map_add_def
      split: option.splits)

lemma referencePools_addReferenceToPool:
  "referencePools (addReferenceToPool tok reference env) n =
     (if n = contents tok
      then Some ((case referencePools env n of None \<Rightarrow> [] | Some pool \<Rightarrow> pool) @ [reference])
      else referencePools env n)"
  by (auto simp: addReferenceToPool_def split: option.splits)

lemma definitions_addReferenceToPool:
  "definitions (addReferenceToPool tok reference env) = definitions env"
  by (auto simp: addReferenceToPool_def split: option.splits)

lemma environment_report: "environment (report d S) = environment S"
  by (simp add: report_def)

lemma addObjectReference_found:
  assumes "map_of (definitions (environment S)) (enclosingDefinitionName reference) = Some d"
  shows "environment (snd (addObjectReference S tok reference)) =
           addReferenceToPool tok reference
             ((environment S)\<lparr>definitions :=
                AList.update (enclosingDefinitionName reference)
                  (addReferenceToStatus tok reference d) (definitions (environment S))\<rparr>)"
    and "fst (addObjectReference S tok reference) =
           map_of (ObjectDefinition.references (addReferenceToStatus tok reference d)) (contents tok)"
    and "diagnostics (snd (addObjectReference S tok reference)) =
           diagnostics S @
           (if definitionName (context' reference) = None
               \<and> scope (context' reference) \<noteq> EvaluatorScope_Module
            then [Printed ''error: addObjectReference() expects a definitionName\<newline>'']
            else [])"
  using assms by (auto simp: addObjectReference_def Let_def environment_report report_def)

lemma addObjectReference_missing:
  assumes "map_of (definitions (environment S)) (enclosingDefinitionName reference) = None"
  shows "environment (snd (addObjectReference S tok reference)) =
           addReferenceToPool tok reference (environment S)"
    and "fst (addObjectReference S tok reference) = None"
    and "diagnostics (snd (addObjectReference S tok reference)) =
           diagnostics S @
           (if definitionName (context' reference) = None
               \<and> scope (context' reference) \<noteq> EvaluatorScope_Module
            then [Printed ''error: addObjectReference() expects a definitionName\<newline>'']
            else []) @
           [if enclosingDefinitionName reference \<noteq> globalDefinitionName
            then Printed (''error: expected definition '' @ enclosingDefinitionName reference
                          @ '' to already exist. Things will break\<newline>'')
            else ErrorAtToken tok (''error: expected '' @ globalDefinitionName
                                   @ '' definition to exist as a top-level catch-all'')]"
  using assms by (auto simp: addObjectReference_def Let_def environment_report report_def)

lemma enclosingDefinitionName_flag:
  "enclosingDefinitionName (r\<lparr>isResolved := b\<rparr>) = enclosingDefinitionName r"
  by (simp add: enclosingDefinitionName_def)

lemma recordedIn_after:
  assumes d: "map_of (definitions env) (enclosingDefinitionName reference) = Some d"
    and rec: "recordedIn env n r"
  shows "recordedIn
           (addReferenceToPool tok reference
              (env\<lparr>definitions :=
                 AList.update (enclosingDefinitionName reference)
                   (addReferenceToStatus tok reference d) (definitions env)\<rparr>)) n r"
proof -
  from rec obtain e st where e: "map_of (definitions env) (enclosingDefinitionName r) = Some e"
    and st: "map_of (ObjectDefinition.references e) n = Some st"
    and r: "occurrenceOf r \<in> occurrenceOf ` set (ObjectReferenceStatus.references st)"
    unfolding recordedIn_def by blast
  show ?thesis
  proof (cases "enclosingDefinitionName r = enclosingDefinitionName reference")
    case False
    with e st r show ?thesis
      by (auto simp: recordedIn_def definitions_addReferenceToPool AList.update_conv')
  next
    case True
    with e d have ed: "e = d" by simp
    show ?thesis
      using True ed st r
      by (auto simp: recordedIn_def definitions_addReferenceToPool AList.update_conv'
          map_of_addReferenceToStatus)
  qed
qed

lemma addObjectReference_records_found:
  assumes "map_of (definitions (environment S)) (enclosingDefinitionName reference) \<noteq> None"
  shows "inPool (environment (snd (addObjectReference S tok reference))) (contents tok) reference
       \<and> (\<exists>d' st. map_of (definitions (environment (snd (addObjectReference S tok reference))))
                     (enclosingDefinitionName reference) = Some d'
              \<and> map_of (ObjectDefinition.references d') (contents tok) = Some st
              \<and> reference \<in> set (ObjectReferenceStatus.references st)
              \<and> fst (addObjectReference S tok reference) = Some st)
       \<and> (poolsRecorded (environment S)
            \<longrightarrow> poolsRecorded (environment (snd (addObjectReference S tok reference))))"
proof -
  from assms obtain d where
    d: "map_of (definitions (environment S)) (enclosingDefinitionName reference) = Some d"
    by blast
  note eq = addObjectReference_found(1,2)[OF d, of tok]
  let ?env' = "environment (snd (addObjectReference S tok reference))"
  have pool: "inPool ?env' (contents tok) reference"
    by (simp add: eq inPool_def referencePools_addReferenceToPool)
  have listed: "\<exists>d' st. map_of (definitions ?env') (enclosingDefinitionName reference) = Some d'
              \<and> map_of (ObjectDefinition.references d') (contents tok) = Some st
              \<and> reference \<in> set (ObjectReferenceStatus.references st)
              \<and> fst (addObjectReference S tok reference) = Some st"
    unfolding eq
    by (auto simp: definitions_addReferenceToPool AList.update_conv'
        map_of_addReferenceToStatus split: option.splits)
  then have rec: "recordedIn ?env' (contents tok) reference"
    unfolding recordedIn_def by blast
  have inv: "poolsRecorded ?env'" if old: "poolsRecorded (environment S)"
    unfolding poolsRecorded_def
  proof (intro allI impI, elim conjE)
    fix n pool r
    assume p: "referencePools ?env' n = Some pool" and r: "r \<in> set pool"
    show "recordedIn ?env' n r"
    proof (cases "n = contents tok \<and> r = reference")
      case True
      with rec show ?thesis by simp
    next
      case False
      have "\<exists>pool0. referencePools (environment S) n = Some pool0 \<and> r \<in> set pool0"
        using p r False unfolding eq
        by (auto simp: referencePools_addReferenceToPool split: if_splits option.splits)
      with old have "recordedIn (environment S) n r"
        unfolding poolsRecorded_def by blast
      from recordedIn_after[OF d this] show ?thesis unfolding eq .
    qed
  qed
  from pool listed inv show ?thesis by blast
qed

lemma addObjectReference_records_missing:
  assumes "map_of (definitions (environment S)) (enclosingDefinitionName reference) = None"
  shows "inPool (environment (snd (addObjectReference S tok reference))) (contents tok) reference
       \<and> fst (addObjectReference S tok reference) = None
       \<and> definitions (environment (snd (addObjectReference S tok reference)))
           = definitions (environment S)"
  by (simp add: addObjectReference_missing(1,2)[OF assms] inPool_def
      referencePools_addReferenceToPool definitions_addReferenceToPool)

text \<open>
  The load loop keeps the invariant: \<^verbatim>\<open>reference.isResolved = true\<close> changes the flag only.
\<close>

lemma poolsRecorded_markResolved:
  assumes "poolsRecorded (environment S)"
  shows "poolsRecorded (environment (markResolved poolName j S))"
proof (cases "referencePools (environment S) poolName")
  case None
  with assms show ?thesis by (simp add: markResolved_def)
next
  case (Some pool)
  show ?thesis
    unfolding poolsRecorded_def
  proof (intro allI impI, elim conjE)
    fix n pool' r
    assume p: "referencePools (environment (markResolved poolName j S)) n = Some pool'"
      and r: "r \<in> set pool'"
    have "\<exists>r0 pool0. referencePools (environment S) n = Some pool0 \<and> r0 \<in> set pool0
            \<and> occurrenceOf r = occurrenceOf r0
            \<and> enclosingDefinitionName r = enclosingDefinitionName r0"
    proof (cases "n = poolName")
      case False
      with p r Some show ?thesis by (auto simp: markResolved_def)
    next
      case True
      with p Some have pool': "pool' = pool[j := (pool ! j)\<lparr>isResolved := True\<rparr>]"
        by (simp add: markResolved_def)
      show ?thesis
      proof (cases "j < length pool \<and> r = (pool ! j)\<lparr>isResolved := True\<rparr>")
        case True
        then have "pool ! j \<in> set pool" by simp
        moreover have "occurrenceOf r = occurrenceOf (pool ! j)"
          "enclosingDefinitionName r = enclosingDefinitionName (pool ! j)"
          using True by (simp_all add: occurrenceOf_def enclosingDefinitionName_def)
        ultimately show ?thesis using \<open>n = poolName\<close> Some by blast
      next
        case False
        have "set pool' \<subseteq> insert ((pool ! j)\<lparr>isResolved := True\<rparr>) (set pool)"
          unfolding pool' by (rule set_update_subset_insert)
        moreover have "pool' = pool" if "\<not> j < length pool"
          using that by (simp add: pool' list_update_beyond)
        ultimately have "r \<in> set pool"
          using r False by (cases "j < length pool") auto
        with \<open>n = poolName\<close> Some show ?thesis by auto
      qed
    qed
    then obtain r0 pool0 where "referencePools (environment S) n = Some pool0" "r0 \<in> set pool0"
      and same: "occurrenceOf r = occurrenceOf r0"
        "enclosingDefinitionName r = enclosingDefinitionName r0"
      by blast
    with assms have "recordedIn (environment S) n r0"
      unfolding poolsRecorded_def by blast
    then have "recordedIn (environment S) n r"
      using same by (simp add: recordedIn_def)
    moreover have "definitions (environment (markResolved poolName j S))
                     = definitions (environment S)"
      using Some by (simp add: markResolved_def)
    ultimately show "recordedIn (environment (markResolved poolName j S)) n r"
      by (simp add: recordedIn_def)
  qed
qed

text \<open>
  C6, as the code has it.  \<^verbatim>\<open>addObjectReference\<close> always puts the reference into the pool of
  its name.  When the definition that encloses the reference (the one the context names, or
  \<^verbatim>\<open><global>\<close>) exists, the reference is also appended to the status under the same name in
  that definition's reference map, that status is returned, the invariant that every reference
  of a pool is recorded in its enclosing definition is kept, and nothing is printed except the
  complaint about a missing definition name.  When the enclosing definition does not exist, an
  error is printed, no definition is changed, and the null pointer is returned.
\<close>

theorem addObjectReference_records:
  "(map_of (definitions (environment S)) (enclosingDefinitionName reference) \<noteq> None
      \<longrightarrow> inPool (environment (snd (addObjectReference S tok reference))) (contents tok) reference
        \<and> (\<exists>d' st. map_of (definitions (environment (snd (addObjectReference S tok reference))))
                     (enclosingDefinitionName reference) = Some d'
              \<and> map_of (ObjectDefinition.references d') (contents tok) = Some st
              \<and> reference \<in> set (ObjectReferenceStatus.references st)
              \<and> fst (addObjectReference S tok reference) = Some st)
        \<and> (poolsRecorded (environment S)
             \<longrightarrow> poolsRecorded (environment (snd (addObjectReference S tok reference))))
        \<and> diagnostics (snd (addObjectReference S tok reference)) =
            diagnostics S @
            (if definitionName (context' reference) = None
                \<and> scope (context' reference) \<noteq> EvaluatorScope_Module
             then [Printed ''error: addObjectReference() expects a definitionName\<newline>'']
             else []))
   \<and> (map_of (definitions (environment S)) (enclosingDefinitionName reference) = None
      \<longrightarrow> inPool (environment (snd (addObjectReference S tok reference))) (contents tok) reference
        \<and> fst (addObjectReference S tok reference) = None
        \<and> definitions (environment (snd (addObjectReference S tok reference)))
            = definitions (environment S)
        \<and> diagnostics (snd (addObjectReference S tok reference)) =
            diagnostics S @
            (if definitionName (context' reference) = None
                \<and> scope (context' reference) \<noteq> EvaluatorScope_Module
             then [Printed ''error: addObjectReference() expects a definitionName\<newline>'']
             else []) @
            [if enclosingDefinitionName reference \<noteq> globalDefinitionName
             then Printed (''error: expected definition '' @ enclosingDefinitionName reference
                           @ '' to already exist. Things will break\<newline>'')
             else ErrorAtToken tok (''error: expected '' @ globalDefinitionName
                                    @ '' definition to exist as a top-level catch-all'')])"
proof (intro conjI impI)
  assume found: "map_of (definitions (environment S)) (enclosingDefinitionName reference) \<noteq> None"
  note r = addObjectReference_records_found[OF found, of tok]
  show "inPool (environment (snd (addObjectReference S tok reference))) (contents tok) reference"
    using r by blast
  show "\<exists>d' st. map_of (definitions (environment (snd (addObjectReference S tok reference))))
                     (enclosingDefinitionName reference) = Some d'
              \<and> map_of (ObjectDefinition.references d') (contents tok) = Some st
              \<and> reference \<in> set (ObjectReferenceStatus.references st)
              \<and> fst (addObjectReference S tok reference) = Some st"
    using r by blast
  show "poolsRecorded (environment (snd (addObjectReference S tok reference)))"
    if "poolsRecorded (environment S)"
    using r that by blast
  from found obtain d where
    "map_of (definitions (environment S)) (enclosingDefinitionName reference) = Some d"
    by blast
  from addObjectReference_found(3)[OF this, of tok]
  show "diagnostics (snd (addObjectReference S tok reference)) =
            diagnostics S @
            (if definitionName (context' reference) = None
                \<and> scope (context' reference) \<noteq> EvaluatorScope_Module
             then [Printed ''error: addObjectReference() expects a definitionName\<newline>'']
             else [])" .
next
  assume missing: "map_of (definitions (environment S)) (enclosingDefinitionName reference) = None"
  note r = addObjectReference_records_missing[OF missing, of tok]
  show "inPool (environment (snd (addObjectReference S tok reference))) (contents tok) reference"
    using r by blast
  show "fst (addObjectReference S tok reference) = None" using r by blast
  show "definitions (environment (snd (addObjectReference S tok reference)))
            = definitions (environment S)" using r by blast
  from addObjectReference_missing(3)[OF missing, of tok]
  show "diagnostics (snd (addObjectReference S tok reference)) =
            diagnostics S @
            (if definitionName (context' reference) = None
                \<and> scope (context' reference) \<noteq> EvaluatorScope_Module
             then [Printed ''error: addObjectReference() expects a definitionName\<newline>'']
             else []) @
            [if enclosingDefinitionName reference \<noteq> globalDefinitionName
             then Printed (''error: expected definition '' @ enclosingDefinitionName reference
                           @ '' to already exist. Things will break\<newline>'')
             else ErrorAtToken tok (''error: expected '' @ globalDefinitionName
                                    @ '' definition to exist as a top-level catch-all'')]" .
qed

lemma resolvedPoolState_facts:
  "map_of (definitions (environment resolvedPoolState))
     (enclosingDefinitionName (callReference ''foo'' 2)) \<noteq> None"
  "poolsRecorded (environment resolvedPoolState)"
  "inPool (environment resolvedPoolState) ''foo'' ((callReference ''foo'' 1)\<lparr>isResolved := True\<rparr>)"
  "contents (symbolToken ''foo'') = ''foo''"
  "definitionName (context' (callReference ''foo'' 2)) = None"
  "scope (context' (callReference ''foo'' 2)) = EvaluatorScope_Module"
  "diagnostics resolvedPoolState = []"
  by (auto simp: resolvedPoolState_def stateOf_def environmentOf_def
      enclosingDefinitionName_def callReference_def globalDefinitionName_def
      poolsRecorded_def recordedIn_def occurrenceOf_def inPool_def symbolToken_def
      split: if_splits)

lemma emptyState_facts:
  "map_of (definitions (environment (stateOf (environmentOf []))))
     (enclosingDefinitionName moduleReference) = None"
  "enclosingDefinitionName moduleReference = globalDefinitionName"
  "definitionName (context' moduleReference) = None"
  "scope (context' moduleReference) = EvaluatorScope_Module"
  "diagnostics (stateOf (environmentOf [])) = []"
  by (simp_all add: stateOf_def environmentOf_def enclosingDefinitionName_def
      moduleReference_def)

theorem addObjectReference_records_witness:
  "map_of (definitions (environment resolvedPoolState))
     (enclosingDefinitionName (callReference ''foo'' 2)) \<noteq> None
   \<and> poolsRecorded (environment resolvedPoolState)
   \<and> inPool (environment resolvedPoolState) ''foo'' ((callReference ''foo'' 1)\<lparr>isResolved := True\<rparr>)
   \<and> inPool (environment (snd (addObjectReference resolvedPoolState (symbolToken ''foo'')
         (callReference ''foo'' 2)))) ''foo'' (callReference ''foo'' 2)
   \<and> recordedIn (environment (snd (addObjectReference resolvedPoolState (symbolToken ''foo'')
         (callReference ''foo'' 2)))) ''foo'' (callReference ''foo'' 2)
   \<and> poolsRecorded (environment (snd (addObjectReference resolvedPoolState (symbolToken ''foo'')
         (callReference ''foo'' 2))))
   \<and> diagnostics (snd (addObjectReference resolvedPoolState (symbolToken ''foo'')
         (callReference ''foo'' 2))) = []
   \<and> map_of (definitions (environment (stateOf (environmentOf []))))
        (enclosingDefinitionName moduleReference) = None
   \<and> fst (addObjectReference (stateOf (environmentOf [])) (symbolToken ''foo'') moduleReference)
        = None
   \<and> diagnostics (snd (addObjectReference (stateOf (environmentOf [])) (symbolToken ''foo'')
        moduleReference))
        = [ErrorAtToken (symbolToken ''foo'')
             ''error: expected <global> definition to exist as a top-level catch-all'']"
proof -
  note t1 = addObjectReference_records[of resolvedPoolState "callReference ''foo'' 2"
              "symbolToken ''foo''", THEN conjunct1, rule_format, OF resolvedPoolState_facts(1)]
  note t2 = addObjectReference_records[of "stateOf (environmentOf [])" moduleReference
              "symbolToken ''foo''", THEN conjunct2, rule_format, OF emptyState_facts(1)]
  have rec: "recordedIn (environment (snd (addObjectReference resolvedPoolState
               (symbolToken ''foo'') (callReference ''foo'' 2)))) ''foo'' (callReference ''foo'' 2)"
    using t1 resolvedPoolState_facts(4) unfolding recordedIn_def by auto
  have pools: "poolsRecorded (environment (snd (addObjectReference resolvedPoolState
                 (symbolToken ''foo'') (callReference ''foo'' 2))))"
    using t1 resolvedPoolState_facts(2) by blast
  from t1 t2 rec pools resolvedPoolState_facts emptyState_facts show ?thesis
    by (simp add: globalDefinitionName_def)
qed

text \<open>
  The claim as it was stated, for every call, fails in an environment that has no
  \<^verbatim>\<open><global>\<close> definition: the reference of a module-scope invocation is put into the pool
  and recorded nowhere.
\<close>

theorem addObjectReference_records_counterexample:
  "inPool (environment (snd (addObjectReference (stateOf (environmentOf []))
       (symbolToken ''foo'') moduleReference))) ''foo'' moduleReference
   \<and> \<not> recordedIn (environment (snd (addObjectReference (stateOf (environmentOf []))
       (symbolToken ''foo'') moduleReference))) ''foo'' moduleReference
   \<and> fst (addObjectReference (stateOf (environmentOf [])) (symbolToken ''foo'')
       moduleReference) = None"
proof -
  have missing: "map_of (definitions (environment (stateOf (environmentOf []))))
                   (enclosingDefinitionName moduleReference) = None"
    by (simp add: stateOf_def environmentOf_def)
  have name: "contents (symbolToken ''foo'') = ''foo''"
    by (simp add: symbolToken_def)
  have defs: "definitions (environment (snd (addObjectReference (stateOf (environmentOf []))
                 (symbolToken ''foo'') moduleReference))) = []"
    using addObjectReference_records_missing[OF missing, of "symbolToken ''foo''"]
    by (simp add: stateOf_def environmentOf_def)
  have "\<not> recordedIn (environment (snd (addObjectReference (stateOf (environmentOf []))
       (symbolToken ''foo'') moduleReference))) ''foo'' moduleReference"
    by (simp add: recordedIn_def defs)
  with addObjectReference_records_missing[OF missing, of "symbolToken ''foo''"] name
  show ?thesis by simp
qed

section \<open>Macro invocations\<close>

declare HandleInvocation_Recursive.simps [simp del]

lemma HandleInvocation_macro:
  assumes range: "invocationStartIndex + 1 < length toks"
    and symbol: "ExpectTokenType X ''evaluator'' (toks ! (invocationStartIndex + 1)) TokenType_Symbol"
    and found: "findMacro (environment S) (contents (toks ! (invocationStartIndex + 1)))
                  = Some invokedMacro"
  shows "HandleInvocation_Recursive (Suc fuel) X S ctx toks invocationStartIndex out =
           (case dispatchMacro X invokedMacro S ctx toks invocationStartIndex of
              Dispatch_OutOfRange \<Rightarrow> None
            | Dispatch_Done ok S1 \<Rightarrow> Some (ok, S1)
            | Dispatch_Expansion invocationStart macroOutputTokens S1 \<Rightarrow>
                (case EvaluateGenerateAll_Recursive fuel X S1 ctx macroOutputTokens 0 None out of
                   None \<Rightarrow> None
                 | Some (result, S2) \<Rightarrow>
                     Some (expansionEvaluated invocationStart macroOutputTokens result S2)))"
  using assms by (simp add: HandleInvocation_Recursive.simps(2) dispatchInvocation_def Let_def)

lemma environment_report': "environment (report d S) = environment S"
  and outputs_report: "outputs (report d S) = outputs S"
  by (simp_all add: report_def)

text \<open>
  C8. For an invocation whose head names a macro: when the macro returns failure, or its
  non-empty output fails \<^verbatim>\<open>validateParentheses\<close>, the call returns false and leaves the
  environment and the outputs as the macro left them, so the output tokens are not among the
  macro expansions; when the macro succeeds with non-empty, balanced output, the tokens are
  appended to \<^verbatim>\<open>environment.macroExpansions\<close> first, and the call is the evaluation of the
  expansion by \<^verbatim>\<open>EvaluateGenerateAll_Recursive\<close> from index 0, with no delimiter, into the
  caller's output and in the caller's context, returning true exactly when that evaluation
  counts no error.
\<close>

theorem HandleInvocation_macro_outcomes:
  assumes range: "invocationStartIndex + 1 < length toks"
    and symbol: "ExpectTokenType X ''evaluator'' (toks ! (invocationStartIndex + 1)) TokenType_Symbol"
    and found: "findMacro (environment S) (contents (toks ! (invocationStartIndex + 1)))
                  = Some invokedMacro"
    and macro: "invokeMacro X invokedMacro S ctx toks invocationStartIndex
                  = (macroSucceeded, macroOutputTokens, S1)"
  shows "(\<not> macroSucceeded \<or> (macroOutputTokens \<noteq> [] \<and> \<not> validateParentheses X macroOutputTokens)
            \<longrightarrow> (\<exists>S'. HandleInvocation_Recursive (Suc fuel) X S ctx toks invocationStartIndex out
                         = Some (False, S')
                       \<and> environment S' = environment S1 \<and> outputs S' = outputs S1))
       \<and> (macroSucceeded \<and> macroOutputTokens \<noteq> [] \<and> validateParentheses X macroOutputTokens
            \<longrightarrow> HandleInvocation_Recursive (Suc fuel) X S ctx toks invocationStartIndex out
                  = (case EvaluateGenerateAll_Recursive fuel X
                            (pushMacroExpansion macroOutputTokens S1) ctx macroOutputTokens 0
                            None out of
                       None \<Rightarrow> None
                     | Some (result, S2) \<Rightarrow>
                         Some (expansionEvaluated (toks ! invocationStartIndex)
                                 macroOutputTokens result S2))
                \<and> macroExpansions (environment (pushMacroExpansion macroOutputTokens S1))
                    = macroExpansions (environment S1) @ [macroOutputTokens]
                \<and> (\<forall>result S2. fst (expansionEvaluated (toks ! invocationStartIndex)
                                        macroOutputTokens result S2) = (result = 0)))"
proof (intro conjI impI)
  assume bad: "\<not> macroSucceeded
               \<or> (macroOutputTokens \<noteq> [] \<and> \<not> validateParentheses X macroOutputTokens)"
  show "\<exists>S'. HandleInvocation_Recursive (Suc fuel) X S ctx toks invocationStartIndex out
               = Some (False, S')
             \<and> environment S' = environment S1 \<and> outputs S' = outputs S1"
    using bad macro
    by (auto simp: HandleInvocation_macro[OF range symbol found] dispatchMacro_def Let_def
        environment_report' outputs_report)
next
  assume good: "macroSucceeded \<and> macroOutputTokens \<noteq> [] \<and> validateParentheses X macroOutputTokens"
  show "HandleInvocation_Recursive (Suc fuel) X S ctx toks invocationStartIndex out
          = (case EvaluateGenerateAll_Recursive fuel X
                    (pushMacroExpansion macroOutputTokens S1) ctx macroOutputTokens 0 None out of
               None \<Rightarrow> None
             | Some (result, S2) \<Rightarrow>
                 Some (expansionEvaluated (toks ! invocationStartIndex)
                         macroOutputTokens result S2))"
    using good macro
    by (simp add: HandleInvocation_macro[OF range symbol found] dispatchMacro_def Let_def)
  show "macroExpansions (environment (pushMacroExpansion macroOutputTokens S1))
          = macroExpansions (environment S1) @ [macroOutputTokens]"
    by (simp add: pushMacroExpansion_def)
  show "\<forall>result S2. fst (expansionEvaluated (toks ! invocationStartIndex)
                          macroOutputTokens result S2) = (result = 0)"
    by (simp add: expansionEvaluated_def)
qed

lemma macro_fail_run:
  "HandleInvocation_Recursive 3 exampleCollaborators macroState expressionContext
     (invocationOf ''fail'') 0 0
   = Some (False, report (ErrorAtToken (symbolToken ''fail'') ''macro returned failure'') macroState)"
  by (simp add: eval_nat_numeral HandleInvocation_Recursive.simps dispatchInvocation_def
      dispatchMacro_def example_defs)

lemma macro_ok_run:
  "HandleInvocation_Recursive 4 exampleCollaborators macroState expressionContext
     (invocationOf ''ok'') 0 0
   = Some (True, addStringOutput 0 ''expanded'' StringOutMod_SurroundWithQuotes
                   (stringToken ''expanded'')
                   (pushMacroExpansion [stringToken ''expanded''] macroState))"
  by (simp add: eval_nat_numeral HandleInvocation_Recursive.simps
      EvaluateGenerate_Recursive.simps EvaluateGenerateAll_loop.simps
      EvaluateGenerateAll_Recursive.simps dispatchInvocation_def
      dispatchMacro_def expansionEvaluated_def pushDelimiter_def nextTokenIndex_def
      evaluateConstantOrSymbol_def pushMacroExpansion_def example_defs)

lemma macro_call_facts:
  "0 + 1 < length (invocationOf n)"
  "ExpectTokenType exampleCollaborators ''evaluator'' (invocationOf n ! (0 + 1)) TokenType_Symbol"
  "contents (invocationOf n ! (0 + 1)) = n"
  by (simp_all add: example_defs)

lemma macro_table:
  "findMacro (environment macroState) ''fail'' = Some 0"
  "findMacro (environment macroState) ''ok'' = Some 3"
  "invokeMacro exampleCollaborators 0 macroState expressionContext (invocationOf ''fail'') 0
     = (False, [stringToken ''partial''], macroState)"
  "invokeMacro exampleCollaborators 3 macroState expressionContext (invocationOf ''ok'') 0
     = (True, [stringToken ''expanded''], macroState)"
  "validateParentheses exampleCollaborators [stringToken ''expanded'']"
  by (simp_all add: example_defs)

theorem HandleInvocation_macro_outcomes_witness:
  "invokeMacro exampleCollaborators 0 macroState expressionContext (invocationOf ''fail'') 0
     = (False, [stringToken ''partial''], macroState)
   \<and> (\<exists>S'. HandleInvocation_Recursive (Suc 0) exampleCollaborators macroState expressionContext
               (invocationOf ''fail'') 0 0 = Some (False, S')
            \<and> environment S' = environment macroState \<and> outputs S' = outputs macroState)
   \<and> invokeMacro exampleCollaborators 3 macroState expressionContext (invocationOf ''ok'') 0
     = (True, [stringToken ''expanded''], macroState)
   \<and> HandleInvocation_Recursive (Suc 3) exampleCollaborators macroState expressionContext
       (invocationOf ''ok'') 0 0
     = (case EvaluateGenerateAll_Recursive 3 exampleCollaborators
               (pushMacroExpansion [stringToken ''expanded''] macroState) expressionContext
               [stringToken ''expanded''] 0 None 0 of
          None \<Rightarrow> None
        | Some (result, S2) \<Rightarrow>
            Some (expansionEvaluated (invocationOf ''ok'' ! 0) [stringToken ''expanded'']
                    result S2))
   \<and> HandleInvocation_Recursive (Suc 3) exampleCollaborators macroState expressionContext
       (invocationOf ''ok'') 0 0
     = Some (True, addStringOutput 0 ''expanded'' StringOutMod_SurroundWithQuotes
                     (stringToken ''expanded'')
                     (pushMacroExpansion [stringToken ''expanded''] macroState))"
proof -
  have 1: "\<exists>S'. HandleInvocation_Recursive (Suc 0) exampleCollaborators macroState
                   expressionContext (invocationOf ''fail'') 0 0 = Some (False, S')
            \<and> environment S' = environment macroState \<and> outputs S' = outputs macroState"
    using HandleInvocation_macro_outcomes[where invocationStartIndex = 0
        and toks = "invocationOf ''fail''" and X = exampleCollaborators and S = macroState
        and invokedMacro = 0 and ctx = expressionContext and macroSucceeded = False
        and macroOutputTokens = "[stringToken ''partial'']" and ?S1.0 = macroState
        and fuel = 0 and out = 0, THEN conjunct1]
      macro_call_facts[of "''fail''"] macro_table by simp
  have 2: "HandleInvocation_Recursive (Suc 3) exampleCollaborators macroState expressionContext
       (invocationOf ''ok'') 0 0
     = (case EvaluateGenerateAll_Recursive 3 exampleCollaborators
               (pushMacroExpansion [stringToken ''expanded''] macroState) expressionContext
               [stringToken ''expanded''] 0 None 0 of
          None \<Rightarrow> None
        | Some (result, S2) \<Rightarrow>
            Some (expansionEvaluated (invocationOf ''ok'' ! 0) [stringToken ''expanded'']
                    result S2))"
    using HandleInvocation_macro_outcomes[where invocationStartIndex = 0
        and toks = "invocationOf ''ok''" and X = exampleCollaborators and S = macroState
        and invokedMacro = 3 and ctx = expressionContext and macroSucceeded = True
        and macroOutputTokens = "[stringToken ''expanded'']" and ?S1.0 = macroState
        and fuel = 3 and out = 0, THEN conjunct2]
      macro_call_facts[of "''ok''"] macro_table by simp
  have 3: "HandleInvocation_Recursive (Suc 3) exampleCollaborators macroState expressionContext
       (invocationOf ''ok'') 0 0
     = Some (True, addStringOutput 0 ''expanded'' StringOutMod_SurroundWithQuotes
                     (stringToken ''expanded'')
                     (pushMacroExpansion [stringToken ''expanded''] macroState))"
    using macro_ok_run by (simp add: eval_nat_numeral)
  from 1 2 3 macro_table show ?thesis by blast
qed

section \<open>The macro expansions stay non-empty and balanced\<close>

lemma expansionsValid_cong:
  "macroExpansions (environment S') = macroExpansions (environment S)
     \<Longrightarrow> expansionsValid X S' = expansionsValid X S"
  by (simp add: expansionsValid_def)

lemma macroExpansions_report [simp]:
  "macroExpansions (environment (report d S)) = macroExpansions (environment S)"
  by (simp add: report_def)

lemma macroExpansions_pushSource [simp]:
  "macroExpansions (environment (pushSource out f S)) = macroExpansions (environment S)"
  by (simp add: pushSource_def)

lemma macroExpansions_addOutput [simp]:
  "macroExpansions (environment (addStringOutput out str mods t S)) = macroExpansions (environment S)"
  "macroExpansions (environment (addLangTokenOutput out mods t S)) = macroExpansions (environment S)"
  "macroExpansions (environment (addSpliceOutput out a t S)) = macroExpansions (environment S)"
  by (simp_all add: addStringOutput_def addLangTokenOutput_def addSpliceOutput_def)

lemma macroExpansions_newGeneratorOutput [simp]:
  "macroExpansions (environment (snd (newGeneratorOutput S))) = macroExpansions (environment S)"
  by (simp add: newGeneratorOutput_def)

lemma macroExpansions_addReferenceToPool [simp]:
  "macroExpansions (addReferenceToPool tok r env) = macroExpansions env"
  by (simp add: addReferenceToPool_def split: option.splits)

lemma macroExpansions_addObjectReference [simp]:
  "macroExpansions (environment (snd (addObjectReference S tok r))) = macroExpansions (environment S)"
  by (cases "map_of (definitions (environment S)) (enclosingDefinitionName r)")
     (simp_all add: addObjectReference_found addObjectReference_missing)

lemma macroExpansions_evaluateConstantOrSymbol [simp]:
  "macroExpansions (environment (snd (evaluateConstantOrSymbol X S ctx t out)))
     = macroExpansions (environment S)"
  by (simp add: evaluateConstantOrSymbol_def Let_def)

lemma macroExpansions_pushDelimiter [simp]:
  "macroExpansions (environment (pushDelimiter d toks s c out S)) = macroExpansions (environment S)"
  by (simp add: pushDelimiter_def split: option.splits)

lemma macroExpansions_expansionEvaluated [simp]:
  "macroExpansions (environment (snd (expansionEvaluated t mo r S))) = macroExpansions (environment S)"
  by (simp add: expansionEvaluated_def)

lemma unknownReference_valid:
  assumes "collaboratorsKeepExpansions X" and "expansionsValid X S"
  shows "expansionsValid X (snd (unknownReference X S ctx toks i out))"
proof -
  obtain a S1 where n: "newGeneratorOutput S = (a, S1)" by (cases "newGeneratorOutput S")
  let ?r = "\<lparr>tokens = toks, startIndex = i, context' = ctx, spliceOutput = a, isResolved = False\<rparr>"
  obtain st S3 where ar: "addObjectReference (addSpliceOutput out a (toks ! i) S1) (toks ! (i + 1)) ?r
                           = (st, S3)"
    by (cases "addObjectReference (addSpliceOutput out a (toks ! i) S1) (toks ! (i + 1)) ?r")
  have "S1 = snd (newGeneratorOutput S)" by (simp only: n snd_conv)
  then have "macroExpansions (environment S1) = macroExpansions (environment S)"
    by (simp only: macroExpansions_newGeneratorOutput)
  moreover have "S3 = snd (addObjectReference (addSpliceOutput out a (toks ! i) S1)
                             (toks ! (i + 1)) ?r)"
    by (simp only: ar snd_conv)
  then have "macroExpansions (environment S3) = macroExpansions (environment S1)"
    by (simp only: macroExpansions_addObjectReference macroExpansions_addOutput)
  ultimately have v3: "expansionsValid X S3"
    using assms(2) by (simp add: expansionsValid_def)
  have fig: "expansionsValid X (snd (FunctionInvocationGenerator X S3 ctx toks i a))"
    using assms(1) v3 unfolding collaboratorsKeepExpansions_def by blast
  show ?thesis
    using n ar v3 fig
    by (auto simp: unknownReference_def Let_def expansionsValid_cong[OF macroExpansions_report]
        split: option.splits prod.splits)
qed

lemma expansionsValid_report [simp]: "expansionsValid X (report d S) = expansionsValid X S"
  by (simp add: expansionsValid_def)

lemma expansionsValid_push:
  "expansionsValid X S \<Longrightarrow> e \<noteq> [] \<Longrightarrow> validateParentheses X e
     \<Longrightarrow> expansionsValid X (pushMacroExpansion e S)"
  by (simp add: expansionsValid_def pushMacroExpansion_def)

lemma dispatchMacro_valid:
  assumes keep: "collaboratorsKeepExpansions X" and valid: "expansionsValid X S"
  shows "case dispatchMacro X m S ctx toks i of
           Dispatch_OutOfRange \<Rightarrow> True
         | Dispatch_Done ok S1 \<Rightarrow> expansionsValid X S1
         | Dispatch_Expansion t mo S1 \<Rightarrow> expansionsValid X S1"
proof -
  obtain ok mo S1 where m: "invokeMacro X m S ctx toks i = (ok, mo, S1)"
    by (cases "invokeMacro X m S ctx toks i")
  have "expansionsValid X (snd (snd (invokeMacro X m S ctx toks i)))"
    using keep valid unfolding collaboratorsKeepExpansions_def by blast
  then have v1: "expansionsValid X S1" by (simp add: m)
  show ?thesis
    using v1 by (simp add: dispatchMacro_def Let_def m expansionsValid_push)
qed

lemma dispatchInvocation_valid:
  assumes keep: "collaboratorsKeepExpansions X" and valid: "expansionsValid X S"
  shows "case dispatchInvocation X S ctx toks i out of
           Dispatch_OutOfRange \<Rightarrow> True
         | Dispatch_Done ok S1 \<Rightarrow> expansionsValid X S1
         | Dispatch_Expansion t mo S1 \<Rightarrow> expansionsValid X S1"
proof -
  have gen: "\<And>g. expansionsValid X (snd (invokeGenerator X g S ctx toks i out))"
    using keep valid unfolding collaboratorsKeepExpansions_def by blast
  have fig: "expansionsValid X (snd (FunctionInvocationGenerator X S ctx toks i out))"
    using keep valid unfolding collaboratorsKeepExpansions_def by blast
  note unk = unknownReference_valid[OF keep valid, of ctx toks i out]
  note mac = dispatchMacro_valid[OF keep valid, of _ ctx toks i]
  show ?thesis
    unfolding dispatchInvocation_def Let_def
    using valid gen fig unk mac
    by (auto split: option.splits prod.splits simp: split_beta)
qed

lemma evaluator_keeps_expansions:
  assumes keep: "collaboratorsKeepExpansions X"
  shows "(\<forall>S ctx toks i out ok S'. expansionsValid X S
            \<longrightarrow> HandleInvocation_Recursive fuel X S ctx toks i out = Some (ok, S')
            \<longrightarrow> expansionsValid X S')
       \<and> (\<forall>S ctx toks i out n S'. expansionsValid X S
            \<longrightarrow> EvaluateGenerate_Recursive fuel X S ctx toks i out = Some (n, S')
            \<longrightarrow> expansionsValid X S')
       \<and> (\<forall>S ctx toks s d out c e n S'. expansionsValid X S
            \<longrightarrow> EvaluateGenerateAll_loop fuel X S ctx toks s d out c e = Some (n, S')
            \<longrightarrow> expansionsValid X S')
       \<and> (\<forall>S ctx toks s d out n S'. expansionsValid X S
            \<longrightarrow> EvaluateGenerateAll_Recursive fuel X S ctx toks s d out = Some (n, S')
            \<longrightarrow> expansionsValid X S')"
proof (induction fuel)
  case 0
  show ?case
    by (simp add: HandleInvocation_Recursive.simps EvaluateGenerate_Recursive.simps
        EvaluateGenerateAll_loop.simps EvaluateGenerateAll_Recursive.simps)
next
  case (Suc fuel)
  note ih = Suc.IH
  note ihH = ih[THEN conjunct1, rule_format]
  note ihG = ih[THEN conjunct2, THEN conjunct1, rule_format]
  note ihL = ih[THEN conjunct2, THEN conjunct2, THEN conjunct1, rule_format]
  note ihA = ih[THEN conjunct2, THEN conjunct2, THEN conjunct2, rule_format]
  have H: "expansionsValid X S'"
    if v: "expansionsValid X S"
      and r: "HandleInvocation_Recursive (Suc fuel) X S ctx toks i out = Some (ok, S')"
    for S ctx toks i out ok S'
  proof (cases "dispatchInvocation X S ctx toks i out")
    case Dispatch_OutOfRange
    with r show ?thesis by (simp add: HandleInvocation_Recursive.simps)
  next
    case (Dispatch_Done ok1 S1)
    with dispatchInvocation_valid[OF keep v, of ctx toks i out] r show ?thesis
      by (simp add: HandleInvocation_Recursive.simps)
  next
    case (Dispatch_Expansion t mo S1)
    with dispatchInvocation_valid[OF keep v, of ctx toks i out]
    have v1: "expansionsValid X S1" by simp
    from r Dispatch_Expansion obtain res S2 where
      a: "EvaluateGenerateAll_Recursive fuel X S1 ctx mo 0 None out = Some (res, S2)"
      and e: "(ok, S') = expansionEvaluated t mo res S2"
      by (auto simp: HandleInvocation_Recursive.simps split: option.splits)
    from ihA[OF v1 a] have "expansionsValid X S2" .
    moreover from e have "S' = snd (expansionEvaluated t mo res S2)" by (metis snd_conv)
    ultimately show ?thesis
      by (simp add: expansionsValid_def)
  qed
  have G: "expansionsValid X S'"
    if v: "expansionsValid X S"
      and r: "EvaluateGenerate_Recursive (Suc fuel) X S ctx toks i out = Some (n, S')"
    for S ctx toks i out n S'
  proof (cases "Token.type (toks ! i) = TokenType_OpenParen")
    case True
    with r obtain ok where "HandleInvocation_Recursive fuel X S ctx toks i out = Some (ok, S')"
      by (auto simp: EvaluateGenerate_Recursive.simps split: if_splits option.splits)
    from ihH[OF v this] show ?thesis .
  next
    case False
    with r have "S' = S \<or> S' = snd (evaluateConstantOrSymbol X S ctx (toks ! i) out)"
      by (auto simp: EvaluateGenerate_Recursive.simps split: if_splits)
    with v show ?thesis by (auto simp: expansionsValid_def)
  qed
  have L: "expansionsValid X S'"
    if v: "expansionsValid X S"
      and r: "EvaluateGenerateAll_loop (Suc fuel) X S ctx toks s d out c e = Some (n, S')"
    for S ctx toks s d out c e n S'
  proof (cases "\<not> c < length toks \<or> Token.type (toks ! c) = TokenType_CloseParen")
    case True
    with r have "S' = S" by (auto simp: EvaluateGenerateAll_loop.simps split: if_splits)
    with v show ?thesis by simp
  next
    case False
    with r obtain m S2 where
      g: "EvaluateGenerate_Recursive fuel X (pushDelimiter d toks s c out S) ctx toks c out
            = Some (m, S2)"
      and l: "EvaluateGenerateAll_loop fuel X S2 ctx toks s d out (nextTokenIndex X toks c) (e + m)
            = Some (n, S')"
      by (auto simp: EvaluateGenerateAll_loop.simps split: option.splits)
    have "expansionsValid X (pushDelimiter d toks s c out S)"
      using v by (simp add: expansionsValid_def)
    from ihL[OF ihG[OF this g] l] show ?thesis .
  qed
  have A: "expansionsValid X S'"
    if v: "expansionsValid X S"
      and r: "EvaluateGenerateAll_Recursive (Suc fuel) X S ctx toks s d out = Some (n, S')"
    for S ctx toks s d out n S'
    using ihL[OF v] r by (simp add: EvaluateGenerateAll_Recursive.simps)
  from H G L A show ?case by blast
qed

text \<open>
  C10. When an invoked macro succeeds without appending a token, the call returns true in the
  very state the macro left: nothing is added to any output and nothing to
  \<^verbatim>\<open>environment.macroExpansions\<close>.  Hence, as long as the collaborators keep the
  expansions valid, every run of \<^verbatim>\<open>HandleInvocation_Recursive\<close> that returns keeps them
  valid: each expansion of the environment is non-empty and has passed
  \<^verbatim>\<open>validateParentheses\<close>.
\<close>

theorem HandleInvocation_empty_expansion:
  "(invocationStartIndex + 1 < length toks
      \<and> ExpectTokenType X ''evaluator'' (toks ! (invocationStartIndex + 1)) TokenType_Symbol
      \<and> findMacro (environment S) (contents (toks ! (invocationStartIndex + 1)))
            = Some invokedMacro
      \<and> invokeMacro X invokedMacro S ctx toks invocationStartIndex = (True, [], S1)
      \<longrightarrow> HandleInvocation_Recursive (Suc fuel) X S ctx toks invocationStartIndex out
            = Some (True, S1))
   \<and> (collaboratorsKeepExpansions X \<and> expansionsValid X S
        \<and> HandleInvocation_Recursive fuel X S ctx toks invocationStartIndex out = Some (ok, S')
      \<longrightarrow> expansionsValid X S')"
proof (intro conjI impI)
  assume a: "invocationStartIndex + 1 < length toks
      \<and> ExpectTokenType X ''evaluator'' (toks ! (invocationStartIndex + 1)) TokenType_Symbol
      \<and> findMacro (environment S) (contents (toks ! (invocationStartIndex + 1)))
            = Some invokedMacro
      \<and> invokeMacro X invokedMacro S ctx toks invocationStartIndex = (True, [], S1)"
  then show "HandleInvocation_Recursive (Suc fuel) X S ctx toks invocationStartIndex out
               = Some (True, S1)"
    by (simp add: HandleInvocation_macro dispatchMacro_def Let_def)
next
  assume b: "collaboratorsKeepExpansions X \<and> expansionsValid X S
        \<and> HandleInvocation_Recursive fuel X S ctx toks invocationStartIndex out = Some (ok, S')"
  then show "expansionsValid X S'"
    using evaluator_keeps_expansions[of X fuel, THEN conjunct1, rule_format,
        of S ctx toks invocationStartIndex out ok S']
    by blast
qed

lemma exampleCollaborators_keep: "collaboratorsKeepExpansions exampleCollaborators"
  by (simp add: collaboratorsKeepExpansions_def exampleCollaborators_def)

lemma macroState_valid: "expansionsValid exampleCollaborators macroState"
  by (simp add: expansionsValid_def example_defs)

lemma macro_empty_facts:
  "0 + 1 < length (invocationOf ''empty'')"
  "ExpectTokenType exampleCollaborators ''evaluator'' (invocationOf ''empty'' ! (0 + 1))
     TokenType_Symbol"
  "findMacro (environment macroState) (contents (invocationOf ''empty'' ! (0 + 1))) = Some 1"
  "invokeMacro exampleCollaborators 1 macroState expressionContext (invocationOf ''empty'') 0
     = (True, [], macroState)"
  by (simp_all add: example_defs)

theorem HandleInvocation_empty_expansion_witness:
  "invokeMacro exampleCollaborators 1 macroState expressionContext (invocationOf ''empty'') 0
     = (True, [], macroState)
   \<and> HandleInvocation_Recursive (Suc 0) exampleCollaborators macroState expressionContext
       (invocationOf ''empty'') 0 0 = Some (True, macroState)
   \<and> collaboratorsKeepExpansions exampleCollaborators
   \<and> expansionsValid exampleCollaborators macroState
   \<and> expansionsValid exampleCollaborators
       (addStringOutput 0 ''expanded'' StringOutMod_SurroundWithQuotes (stringToken ''expanded'')
          (pushMacroExpansion [stringToken ''expanded''] macroState))"
proof -
  have 1: "HandleInvocation_Recursive (Suc 0) exampleCollaborators macroState expressionContext
             (invocationOf ''empty'') 0 0 = Some (True, macroState)"
    using HandleInvocation_empty_expansion[where invocationStartIndex = 0
        and toks = "invocationOf ''empty''" and X = exampleCollaborators and S = macroState
        and invokedMacro = 1 and ctx = expressionContext and ?S1.0 = macroState and fuel = 0
        and out = 0, THEN conjunct1]
      macro_empty_facts by blast
  have 2: "expansionsValid exampleCollaborators
       (addStringOutput 0 ''expanded'' StringOutMod_SurroundWithQuotes (stringToken ''expanded'')
          (pushMacroExpansion [stringToken ''expanded''] macroState))"
    using HandleInvocation_empty_expansion[where X = exampleCollaborators and S = macroState
        and fuel = 4 and ctx = expressionContext and toks = "invocationOf ''ok''"
        and invocationStartIndex = 0 and out = 0 and ok = True, THEN conjunct2]
      exampleCollaborators_keep macroState_valid macro_ok_run by blast
  from 1 2 macro_empty_facts(4) exampleCollaborators_keep macroState_valid
  show ?thesis by blast
qed

section \<open>The report after the fixed-point loop\<close>

lemma reportedOnly_refl: "reportedOnly S S"
  by (simp add: reportedOnly_def)

lemma reportedOnly_trans: "reportedOnly a b \<Longrightarrow> reportedOnly b c \<Longrightarrow> reportedOnly a c"
  by (auto simp: reportedOnly_def)

lemma reportedOnly_report: "reportedOnly S (report d S)"
  by (auto simp: reportedOnly_def report_def)

lemma reported_member: "d \<in> set (diagnostics (report d S))"
  by (simp add: report_def)

lemma checkReferenceResolved_step:
  "reportedOnly S (fst (checkReferenceResolved st (S, e, m)))
   \<and> e \<le> fst (snd (checkReferenceResolved st (S, e, m)))
   \<and> (guessState st = GuessState_None
        \<longrightarrow> ErrorAtToken (ObjectReferenceStatus.name st) ''reference has not been resolved''
              \<in> set (diagnostics (fst (checkReferenceResolved st (S, e, m)))))
   \<and> ((\<exists>found. map_of (definitions (environment S)) (contents (ObjectReferenceStatus.name st))
                   = Some found
                 \<and> isCompileTimeObject (ObjectDefinition.type found)
                 \<and> \<not> isCompileTimeCodeLoaded (environment S) found)
        \<longrightarrow> e < fst (snd (checkReferenceResolved st (S, e, m))))"
  by (auto simp: checkReferenceResolved_def Let_def reportedOnly_refl reportedOnly_report
      reported_member split: option.splits)

lemma fold_checkReferenceResolved_mono:
  "reportedOnly S (fst (fold checkReferenceResolved sts (S, e, m)))
   \<and> e \<le> fst (snd (fold checkReferenceResolved sts (S, e, m)))"
proof (induction sts arbitrary: S e m)
  case Nil
  show ?case by (simp add: reportedOnly_refl)
next
  case (Cons st sts)
  obtain S1 e1 m1 where step: "checkReferenceResolved st (S, e, m) = (S1, e1, m1)"
    by (cases "checkReferenceResolved st (S, e, m)")
  have s: "reportedOnly S S1" "e \<le> e1"
    using checkReferenceResolved_step[of S st e m] by (simp_all add: step)
  from Cons.IH[of S1 e1 m1] s show ?case
    by (auto simp: step intro: reportedOnly_trans)
qed

lemma fold_checkReferenceResolved_reports:
  assumes "st \<in> set sts" and "guessState st = GuessState_None"
  shows "ErrorAtToken (ObjectReferenceStatus.name st) ''reference has not been resolved''
           \<in> set (diagnostics (fst (fold checkReferenceResolved sts (S, e, m))))"
  using assms(1)
proof (induction sts arbitrary: S e m)
  case Nil
  then show ?case by simp
next
  case (Cons a sts)
  obtain S1 e1 m1 where step: "checkReferenceResolved a (S, e, m) = (S1, e1, m1)"
    by (cases "checkReferenceResolved a (S, e, m)")
  show ?case
  proof (cases "st = a")
    case True
    have "ErrorAtToken (ObjectReferenceStatus.name st) ''reference has not been resolved''
            \<in> set (diagnostics S1)"
      using checkReferenceResolved_step[of S a e m] assms(2) True by (simp add: step)
    moreover have "set (diagnostics S1)
                     \<subseteq> set (diagnostics (fst (fold checkReferenceResolved sts (S1, e1, m1))))"
      using fold_checkReferenceResolved_mono[of S1 sts e1 m1] by (simp add: reportedOnly_def)
    ultimately show ?thesis by (auto simp: step)
  next
    case False
    with Cons.prems have "st \<in> set sts" by simp
    from Cons.IH[OF this, of S1 e1 m1] show ?thesis by (simp add: step)
  qed
qed

lemma fold_checkReferenceResolved_counts:
  assumes "st \<in> set sts"
    and "map_of (definitions (environment S)) (contents (ObjectReferenceStatus.name st))
           = Some found"
    and "isCompileTimeObject (ObjectDefinition.type found)"
    and "\<not> isCompileTimeCodeLoaded (environment S) found"
  shows "e < fst (snd (fold checkReferenceResolved sts (S, e, m)))"
  using assms
proof (induction sts arbitrary: S e m)
  case Nil
  then show ?case by simp
next
  case (Cons a sts)
  obtain S1 e1 m1 where step: "checkReferenceResolved a (S, e, m) = (S1, e1, m1)"
    by (cases "checkReferenceResolved a (S, e, m)")
  have s: "reportedOnly S S1" "e \<le> e1"
    using checkReferenceResolved_step[of S a e m] by (simp_all add: step)
  then have env: "environment S1 = environment S" by (simp add: reportedOnly_def)
  show ?case
  proof (cases "st = a")
    case True
    have "e < e1"
      using checkReferenceResolved_step[of S a e m] Cons.prems True by (auto simp: step)
    moreover have "e1 \<le> fst (snd (fold checkReferenceResolved sts (S1, e1, m1)))"
      using fold_checkReferenceResolved_mono[of S1 sts e1 m1] by simp
    ultimately show ?thesis by (simp add: step)
  next
    case False
    with Cons.prems have "st \<in> set sts" by simp
    from Cons.IH[OF this, of S1 e1 m1] Cons.prems env s show ?thesis by (simp add: step)
  qed
qed

lemma reportedOnly_fold_report:
  "reportedOnly S (fold (\<lambda>t. report (NoteAtToken t msg)) ts S)"
proof (induction ts arbitrary: S)
  case Nil
  show ?case by (simp add: reportedOnly_refl)
next
  case (Cons t ts)
  from reportedOnly_trans[OF reportedOnly_report Cons.IH] show ?case by simp
qed

lemma checkDefinitionResolved_mono:
  "reportedOnly S (fst (checkDefinitionResolved d (S, e)))
   \<and> e \<le> snd (checkDefinitionResolved d (S, e))"
proof -
  obtain S1 e1 m1 where f: "fold checkReferenceResolved (map snd (ObjectDefinition.references d))
                              (S, e, []) = (S1, e1, m1)"
    by (cases "fold checkReferenceResolved (map snd (ObjectDefinition.references d)) (S, e, [])")
  have m: "reportedOnly S S1" "e \<le> e1"
    using fold_checkReferenceResolved_mono[of S "map snd (ObjectDefinition.references d)" e "[]"]
    by (simp_all add: f)
  have "reportedOnly S1
          (fold (\<lambda>t. report (NoteAtToken t ''missing compile-time function defined here'')) m1
             (report (ErrorAtToken (ObjectDefinition.name d)
                        (''failed to generate '' @ contents (ObjectDefinition.name d))) S1))"
    by (rule reportedOnly_trans[OF reportedOnly_report reportedOnly_fold_report])
  with m have "reportedOnly S
          (fold (\<lambda>t. report (NoteAtToken t ''missing compile-time function defined here'')) m1
             (report (ErrorAtToken (ObjectDefinition.name d)
                        (''failed to generate '' @ contents (ObjectDefinition.name d))) S1))"
    using reportedOnly_trans by blast
  with m show ?thesis
    by (auto simp: checkDefinitionResolved_def f reportedOnly_refl reportedOnly_report)
qed

lemma checkDefinitionResolved_unbuilt:
  assumes "isRequired d" and "isCompileTimeObject (ObjectDefinition.type d)"
    and "findMacro (environment S) (contents (ObjectDefinition.name d)) = None"
    and "findGenerator (environment S) (contents (ObjectDefinition.name d)) = None"
  shows "e < snd (checkDefinitionResolved d (S, e))"
    and "ErrorAtToken (ObjectDefinition.name d) ''Failed to build required object''
           \<in> set (diagnostics (fst (checkDefinitionResolved d (S, e))))"
  using assms by (simp_all add: checkDefinitionResolved_def reported_member)

lemma checkDefinitionResolved_unresolved:
  assumes "isRequired d" and "\<not> isCompileTimeObject (ObjectDefinition.type d)"
    and "st \<in> snd ` set (ObjectDefinition.references d)"
    and "guessState st = GuessState_None"
  shows "ErrorAtToken (ObjectReferenceStatus.name st) ''reference has not been resolved''
           \<in> set (diagnostics (fst (checkDefinitionResolved d (S, e))))"
proof -
  obtain S1 e1 m1 where f: "fold checkReferenceResolved (map snd (ObjectDefinition.references d))
                              (S, e, []) = (S1, e1, m1)"
    by (cases "fold checkReferenceResolved (map snd (ObjectDefinition.references d)) (S, e, [])")
  have in1: "ErrorAtToken (ObjectReferenceStatus.name st) ''reference has not been resolved''
               \<in> set (diagnostics S1)"
    using fold_checkReferenceResolved_reports[of st "map snd (ObjectDefinition.references d)" S e "[]"]
      assms(3,4) by (simp add: f)
  have "reportedOnly S1
          (fold (\<lambda>t. report (NoteAtToken t ''missing compile-time function defined here'')) m1
             (report (ErrorAtToken (ObjectDefinition.name d)
                        (''failed to generate '' @ contents (ObjectDefinition.name d))) S1))"
    by (rule reportedOnly_trans[OF reportedOnly_report reportedOnly_fold_report])
  with in1 show ?thesis
    using assms(1,2) by (auto simp: checkDefinitionResolved_def f reportedOnly_def)
qed

lemma checkDefinitionResolved_missing:
  assumes "isRequired d" and "\<not> isCompileTimeObject (ObjectDefinition.type d)"
    and "st \<in> snd ` set (ObjectDefinition.references d)"
    and "map_of (definitions (environment S)) (contents (ObjectReferenceStatus.name st))
           = Some found"
    and "isCompileTimeObject (ObjectDefinition.type found)"
    and "\<not> isCompileTimeCodeLoaded (environment S) found"
  shows "e < snd (checkDefinitionResolved d (S, e))"
proof -
  obtain S1 e1 m1 where f: "fold checkReferenceResolved (map snd (ObjectDefinition.references d))
                              (S, e, []) = (S1, e1, m1)"
    by (cases "fold checkReferenceResolved (map snd (ObjectDefinition.references d)) (S, e, [])")
  have "e < e1"
    using fold_checkReferenceResolved_counts[of st "map snd (ObjectDefinition.references d)"
        S found e "[]"] assms(3-6) by (simp add: f)
  then show ?thesis
    using assms(1,2) by (auto simp: checkDefinitionResolved_def f)
qed

lemma fold_checkDefinitionResolved_mono:
  "reportedOnly S (fst (fold checkDefinitionResolved ds (S, e)))
   \<and> e \<le> snd (fold checkDefinitionResolved ds (S, e))"
proof (induction ds arbitrary: S e)
  case Nil
  show ?case by (simp add: reportedOnly_refl)
next
  case (Cons d ds)
  obtain S1 e1 where step: "checkDefinitionResolved d (S, e) = (S1, e1)"
    by (cases "checkDefinitionResolved d (S, e)")
  have s: "reportedOnly S S1" "e \<le> e1"
    using checkDefinitionResolved_mono[of S d e] by (simp_all add: step)
  from Cons.IH[of S1 e1] s show ?case
    by (auto simp: step intro: reportedOnly_trans)
qed

text \<open>
  Whatever one definition's check establishes about the error count and the diagnostics, given
  only the environment, holds at the end of the loop over all definitions.
\<close>

lemma fold_checkDefinitionResolved_member:
  assumes "d \<in> set ds"
    and "\<And>S1 e1. environment S1 = environment S
           \<Longrightarrow> (strict \<longrightarrow> e1 < snd (checkDefinitionResolved d (S1, e1)))
               \<and> (noted \<longrightarrow> diag \<in> set (diagnostics (fst (checkDefinitionResolved d (S1, e1)))))"
  shows "(strict \<longrightarrow> e < snd (fold checkDefinitionResolved ds (S, e)))
         \<and> (noted \<longrightarrow> diag \<in> set (diagnostics (fst (fold checkDefinitionResolved ds (S, e)))))"
  using assms
proof (induction ds arbitrary: S e)
  case Nil
  then show ?case by simp
next
  case (Cons a ds)
  obtain S1 e1 where step: "checkDefinitionResolved a (S, e) = (S1, e1)"
    by (cases "checkDefinitionResolved a (S, e)")
  have s: "reportedOnly S S1" "e \<le> e1"
    using checkDefinitionResolved_mono[of S a e] by (simp_all add: step)
  then have env: "environment S1 = environment S" by (simp add: reportedOnly_def)
  note rest = fold_checkDefinitionResolved_mono[of S1 ds e1]
  show ?case
  proof (cases "d = a")
    case True
    have here: "(strict \<longrightarrow> e < e1) \<and> (noted \<longrightarrow> diag \<in> set (diagnostics S1))"
      using Cons.prems(2)[of S e] True by (simp add: step)
    with rest show ?thesis by (auto simp: step reportedOnly_def)
  next
    case False
    with Cons.prems(1) have mem: "d \<in> set ds" by simp
    have "(strict \<longrightarrow> e1 < snd (fold checkDefinitionResolved ds (S1, e1)))
          \<and> (noted \<longrightarrow> diag \<in> set (diagnostics (fst (fold checkDefinitionResolved ds (S1, e1)))))"
      by (rule Cons.IH[OF mem]) (use Cons.prems(2) env in auto)
    with s show ?thesis by (auto simp: step)
  qed
qed

lemma reportResult_environment: "environment (snd (reportResult S n)) = environment S"
proof -
  have "reportedOnly (report (Printed ''\<newline>Result:\<newline>'') S)
          (fst (fold checkDefinitionResolved (map snd (definitions (environment S)))
                  (report (Printed ''\<newline>Result:\<newline>'') S, 0)))"
    using fold_checkDefinitionResolved_mono by blast
  then show ?thesis
    by (simp add: reportResult_def reportedOnly_def split_beta report_def)
qed

lemma reportResult_member:
  assumes "d \<in> snd ` set (definitions (environment S))"
    and "\<And>S1 e1. environment S1 = environment S
           \<Longrightarrow> (strict \<longrightarrow> e1 < snd (checkDefinitionResolved d (S1, e1)))
               \<and> (noted \<longrightarrow> diag \<in> set (diagnostics (fst (checkDefinitionResolved d (S1, e1)))))"
  shows "(strict \<longrightarrow> \<not> fst (reportResult S n))
         \<and> (noted \<longrightarrow> diag \<in> set (diagnostics (snd (reportResult S n))))"
proof -
  let ?S0 = "report (Printed ''\<newline>Result:\<newline>'') S"
  have env0: "environment ?S0 = environment S" by (simp add: report_def)
  have "(strict \<longrightarrow> 0 < snd (fold checkDefinitionResolved
                                  (map snd (definitions (environment S))) (?S0, 0)))
        \<and> (noted \<longrightarrow> diag \<in> set (diagnostics (fst (fold checkDefinitionResolved
                                  (map snd (definitions (environment S))) (?S0, 0)))))"
    by (rule fold_checkDefinitionResolved_member) (use assms env0 in auto)
  then show ?thesis
    by (auto simp: reportResult_def split_beta)
qed

lemma reportResult_unbuilt:
  assumes "d \<in> snd ` set (definitions (environment S))"
    and "isRequired d" and "isCompileTimeObject (ObjectDefinition.type d)"
    and "findMacro (environment S) (contents (ObjectDefinition.name d)) = None"
    and "findGenerator (environment S) (contents (ObjectDefinition.name d)) = None"
  shows "\<not> fst (reportResult S n)
       \<and> ErrorAtToken (ObjectDefinition.name d) ''Failed to build required object''
           \<in> set (diagnostics (snd (reportResult S n)))"
  using reportResult_member[OF assms(1), where strict = True and noted = True
      and diag = "ErrorAtToken (ObjectDefinition.name d) ''Failed to build required object''"
      and n = n]
    checkDefinitionResolved_unbuilt[OF assms(2,3)] assms(4,5)
  by simp

lemma reportResult_missing:
  assumes "d \<in> snd ` set (definitions (environment S))"
    and "isRequired d" and "\<not> isCompileTimeObject (ObjectDefinition.type d)"
    and "st \<in> snd ` set (ObjectDefinition.references d)"
    and "map_of (definitions (environment S)) (contents (ObjectReferenceStatus.name st))
           = Some found"
    and "isCompileTimeObject (ObjectDefinition.type found)"
    and "\<not> isCompileTimeCodeLoaded (environment S) found"
  shows "\<not> fst (reportResult S n)"
  using reportResult_member[OF assms(1), where strict = True and noted = False and n = n]
    checkDefinitionResolved_missing[OF assms(2,3,4) _ assms(6)] assms(5,7)
  by simp

lemma reportResult_unresolved:
  assumes "d \<in> snd ` set (definitions (environment S))"
    and "isRequired d" and "\<not> isCompileTimeObject (ObjectDefinition.type d)"
    and "st \<in> snd ` set (ObjectDefinition.references d)"
    and "guessState st = GuessState_None"
  shows "ErrorAtToken (ObjectReferenceStatus.name st) ''reference has not been resolved''
           \<in> set (diagnostics (snd (reportResult S n)))"
  using reportResult_member[OF assms(1), where strict = False and noted = True and n = n
      and diag = "ErrorAtToken (ObjectReferenceStatus.name st) ''reference has not been resolved''"]
    checkDefinitionResolved_unresolved[OF assms(2-5)]
  by simp

lemma reportResult_buildErrors: "n \<noteq> 0 \<Longrightarrow> \<not> fst (reportResult S n)"
  by (simp add: reportResult_def split_beta)

text \<open>
  What the report establishes, whatever the run.  Let the fixed-point loop end in a state
  \<open>S'\<close> with error count \<open>numBuildResolveErrors\<close>; \<^verbatim>\<open>EvaluateResolveReferences\<close> then
  returns what the report over \<open>S'\<close> returns, and the report leaves the environment alone.
  The result is false when the loop counted an error; when a required compile-time definition
  is in neither the macro nor the generator table (with the error
  \<^verbatim>\<open>Failed to build required object\<close> at its name); and when a required definition that is
  not compile-time refers to a compile-time definition that is not loaded.  A reference in
  state \<^verbatim>\<open>None\<close> of a required definition that is not compile-time is reported as an error
  at the name token of the reference.
\<close>

lemma EvaluateResolveReferences_reports:
  assumes "resolveLoop fuel X (S, 0) = Some (S', numBuildResolveErrors)"
  shows "EvaluateResolveReferences fuel X S = Some (reportResult S' numBuildResolveErrors)
   \<and> environment (snd (reportResult S' numBuildResolveErrors)) = environment S'
   \<and> (numBuildResolveErrors \<noteq> 0 \<longrightarrow> \<not> fst (reportResult S' numBuildResolveErrors))
   \<and> (\<forall>d. d \<in> snd ` set (definitions (environment S')) \<and> isRequired d
          \<and> isCompileTimeObject (ObjectDefinition.type d)
          \<and> findMacro (environment S') (contents (ObjectDefinition.name d)) = None
          \<and> findGenerator (environment S') (contents (ObjectDefinition.name d)) = None
        \<longrightarrow> \<not> fst (reportResult S' numBuildResolveErrors)
            \<and> ErrorAtToken (ObjectDefinition.name d) ''Failed to build required object''
                \<in> set (diagnostics (snd (reportResult S' numBuildResolveErrors))))
   \<and> (\<forall>d st found. d \<in> snd ` set (definitions (environment S')) \<and> isRequired d
          \<and> \<not> isCompileTimeObject (ObjectDefinition.type d)
          \<and> st \<in> snd ` set (ObjectDefinition.references d)
          \<and> map_of (definitions (environment S')) (contents (ObjectReferenceStatus.name st))
               = Some found
          \<and> isCompileTimeObject (ObjectDefinition.type found)
          \<and> \<not> isCompileTimeCodeLoaded (environment S') found
        \<longrightarrow> \<not> fst (reportResult S' numBuildResolveErrors))
   \<and> (\<forall>d st. d \<in> snd ` set (definitions (environment S')) \<and> isRequired d
          \<and> \<not> isCompileTimeObject (ObjectDefinition.type d)
          \<and> st \<in> snd ` set (ObjectDefinition.references d)
          \<and> guessState st = GuessState_None
        \<longrightarrow> ErrorAtToken (ObjectReferenceStatus.name st) ''reference has not been resolved''
              \<in> set (diagnostics (snd (reportResult S' numBuildResolveErrors))))"
proof -
  have 1: "EvaluateResolveReferences fuel X S = Some (reportResult S' numBuildResolveErrors)"
    using assms by (simp add: EvaluateResolveReferences_def)
  show ?thesis
    using 1 reportResult_environment[of S' numBuildResolveErrors]
      reportResult_buildErrors[of numBuildResolveErrors S']
      reportResult_unbuilt[of _ S' numBuildResolveErrors]
      reportResult_missing[of _ S' _ _ numBuildResolveErrors]
      reportResult_unresolved[of _ S' _ numBuildResolveErrors]
    by blast
qed

lemma unbuiltState_loop:
  "\<exists>S'. resolveLoop 3 exampleCollaborators (unbuiltState, 0) = Some (S', 0)
     \<and> definitions (environment S')
         = [definitionOf ''<global>'' ObjectType_Function True
              [statusOf GuessState_WaitingForLoad ''m''],
            definitionOf ''m'' ObjectType_CompileTimeMacro True []]
     \<and> macros (environment S') = Map.empty \<and> generators (environment S') = Map.empty"
  by (simp add: eval_nat_numeral unbuiltState_def example_defs run_defs)

lemma EvaluateResolveReferences_reports_unbuilt:
  "\<exists>S'. resolveLoop 3 exampleCollaborators (unbuiltState, 0) = Some (S', 0)
     \<and> EvaluateResolveReferences 3 exampleCollaborators unbuiltState = Some (reportResult S' 0)
     \<and> snd (definitionOf ''m'' ObjectType_CompileTimeMacro True [])
          \<in> snd ` set (definitions (environment S'))
     \<and> findMacro (environment S') ''m'' = None \<and> findGenerator (environment S') ''m'' = None
     \<and> \<not> fst (reportResult S' 0)
     \<and> ErrorAtToken (symbolToken ''m'') ''Failed to build required object''
          \<in> set (diagnostics (snd (reportResult S' 0)))"
proof -
  from unbuiltState_loop obtain S' where
    loop: "resolveLoop 3 exampleCollaborators (unbuiltState, 0) = Some (S', 0)"
    and defs: "definitions (environment S')
         = [definitionOf ''<global>'' ObjectType_Function True
              [statusOf GuessState_WaitingForLoad ''m''],
            definitionOf ''m'' ObjectType_CompileTimeMacro True []]"
    and tables: "macros (environment S') = Map.empty" "generators (environment S') = Map.empty"
    by blast
  let ?m = "snd (definitionOf ''m'' ObjectType_CompileTimeMacro True [])"
  have m: "?m \<in> snd ` set (definitions (environment S'))"
    "isRequired ?m" "isCompileTimeObject (ObjectDefinition.type ?m)"
    "contents (ObjectDefinition.name ?m) = ''m''" "ObjectDefinition.name ?m = symbolToken ''m''"
    by (simp_all add: defs definitionOf_def isCompileTimeObject_def symbolToken_def)
  have t: "findMacro (environment S') ''m'' = None" "findGenerator (environment S') ''m'' = None"
    by (simp_all add: findMacro_def findGenerator_def tables)
  note r = EvaluateResolveReferences_reports[OF loop]
  have "\<not> fst (reportResult S' 0)
        \<and> ErrorAtToken (ObjectDefinition.name ?m) ''Failed to build required object''
            \<in> set (diagnostics (snd (reportResult S' 0)))"
    using r m t by (metis (no_types, lifting))
  with r loop m t show ?thesis by (metis (no_types, lifting))
qed

text \<open>
  C2.  A module-scope invocation of \<^verbatim>\<open>foo\<close> precedes the definition of the function
  \<^verbatim>\<open>foo\<close> and has an unknown invocation \<^verbatim>\<open>(bar)\<close> as its argument.  The readiness check
  resolves \<^verbatim>\<open>foo\<close>; the nested reference to \<^verbatim>\<open>bar\<close> is added to the required definition
  \<^verbatim>\<open><global>\<close> in state \<^verbatim>\<open>None\<close> and is never visited.  The report prints
  \<^verbatim>\<open>reference has not been resolved\<close> for it without counting an error, and
  \<^verbatim>\<open>EvaluateResolveReferences\<close> returns true.
\<close>

theorem EvaluateResolveReferences_unresolved_returns_true:
  "map_option fst (EvaluateResolveReferences 4 nestedCallCollaborators useBeforeDefinitionState)
     = Some True
   \<and> map_option (diagnostics \<circ> snd)
       (EvaluateResolveReferences 4 nestedCallCollaborators useBeforeDefinitionState)
     = Some [Printed ''\<newline>Result:\<newline>'',
             ErrorAtToken (symbolToken ''bar'') ''reference has not been resolved'']
   \<and> map_option (\<lambda>r. map_option guessState (lookupStatus (snd r) ''<global>'' ''bar''))
       (EvaluateResolveReferences 4 nestedCallCollaborators useBeforeDefinitionState)
     = Some (Some GuessState_None)
   \<and> map_option (\<lambda>r. map_option (\<lambda>d. (isRequired d, ObjectDefinition.type d))
                         (map_of (definitions (environment (snd r))) ''<global>''))
       (EvaluateResolveReferences 4 nestedCallCollaborators useBeforeDefinitionState)
     = Some (Some (True, ObjectType_Function))"
  by (simp add: eval_nat_numeral EvaluateResolveReferences_def reportResult_def
      checkDefinitionResolved_def checkReferenceResolved_def isCompileTimeCodeLoaded_def
      nestedCallCollaborators_def useBeforeDefinitionState_def
      nestedCallReference_def nestedCallTokens_def unknownReference_def newGeneratorOutput_def
      addSpliceOutput_def pushSource_def addObjectReference_def enclosingDefinitionName_def
      addReferenceToStatus_def addReferenceToPool_def globalDefinitionName_def
      emptyGeneratorOutput_def example_defs run_defs)

text \<open>
  The references of compile-time definitions are not examined by the report: a required macro
  that is loaded and holds a reference in state \<^verbatim>\<open>None\<close> is passed without a diagnostic.
\<close>

lemma EvaluateResolveReferences_loaded_macro:
  "map_option fst (EvaluateResolveReferences 4 exampleCollaborators loadedMacroState)
     = Some True
   \<and> map_option (diagnostics \<circ> snd)
       (EvaluateResolveReferences 4 exampleCollaborators loadedMacroState)
     = Some [Printed ''\<newline>Result:\<newline>'']
   \<and> map_option (definitions \<circ> environment \<circ> snd)
       (EvaluateResolveReferences 4 exampleCollaborators loadedMacroState)
     = Some (definitions (environment loadedMacroState))"
  by (simp add: eval_nat_numeral EvaluateResolveReferences_def reportResult_def
      checkDefinitionResolved_def checkReferenceResolved_def isCompileTimeCodeLoaded_def
      loadedMacroState_def example_defs run_defs)
section \<open>The guess states only advance\<close>

lemma allowedTransition_refl: "allowedTransition g g"
  by (simp add: allowedTransition_def)

lemma allowedTransition_trans:
  "allowedTransition a b \<Longrightarrow> allowedTransition b c \<Longrightarrow> allowedTransition a c"
  by (cases a; cases b; cases c; simp add: allowedTransition_def)

lemma allowedTransition_Resolved:
  "allowedTransition GuessState_Resolved g \<longleftrightarrow> g = GuessState_Resolved"
  by (auto simp: allowedTransition_def)

lemma allowedTransition_from_None: "allowedTransition GuessState_None g"
  by (cases g; simp add: allowedTransition_def)

lemma allowedTransition_to_Resolved: "allowedTransition g GuessState_Resolved"
  by (cases g; simp add: allowedTransition_def)

lemma allowedTransition_to_Waiting:
  "g \<noteq> GuessState_Resolved \<Longrightarrow> allowedTransition g GuessState_WaitingForLoad"
  by (cases g; simp add: allowedTransition_def)

lemma statusesAdvance_refl: "statusesAdvance S S"
  by (simp add: statusesAdvance_def allowedTransition_refl)

lemma statusesAdvance_trans:
  assumes "statusesAdvance a b" and "statusesAdvance b c"
  shows "statusesAdvance a c"
  unfolding statusesAdvance_def
proof (intro allI impI)
  fix defKey refKey st
  assume "lookupStatus a defKey refKey = Some st"
  with assms(1) obtain st1 where 1: "lookupStatus b defKey refKey = Some st1"
    "ObjectReferenceStatus.name st1 = ObjectReferenceStatus.name st"
    "allowedTransition (guessState st) (guessState st1)"
    unfolding statusesAdvance_def by blast
  with assms(2) obtain st2 where 2: "lookupStatus c defKey refKey = Some st2"
    "ObjectReferenceStatus.name st2 = ObjectReferenceStatus.name st1"
    "allowedTransition (guessState st1) (guessState st2)"
    unfolding statusesAdvance_def by blast
  from 1 2 allowedTransition_trans
  show "\<exists>st'. lookupStatus c defKey refKey = Some st'
               \<and> ObjectReferenceStatus.name st' = ObjectReferenceStatus.name st
               \<and> allowedTransition (guessState st) (guessState st')"
    by auto
qed

lemma definitionsPersist_refl: "definitionsPersist S S"
  by (simp add: definitionsPersist_def)

lemma definitionsPersist_trans:
  "definitionsPersist a b \<Longrightarrow> definitionsPersist b c \<Longrightarrow> definitionsPersist a c"
  unfolding definitionsPersist_def by (metis (no_types, lifting))

lemma advances_refl: "advances S S"
  by (simp add: advances_def definitionsPersist_refl statusesAdvance_refl)

lemma advances_trans: "advances a b \<Longrightarrow> advances b c \<Longrightarrow> advances a c"
  unfolding advances_def
  using definitionsPersist_trans statusesAdvance_trans by blast

lemma statusesKept_refl: "statusesKept S S"
  by (simp add: statusesKept_def)

lemma statusesKept_trans:
  assumes "statusesKept a b" and "statusesKept b c"
  shows "statusesKept a c"
  unfolding statusesKept_def
proof (intro allI impI)
  fix defKey refKey st
  assume "lookupStatus a defKey refKey = Some st"
  with assms(1) obtain st1 where 1: "lookupStatus b defKey refKey = Some st1"
    "ObjectReferenceStatus.name st1 = ObjectReferenceStatus.name st"
    "guessState st1 = guessState st"
    unfolding statusesKept_def by blast
  with assms(2) obtain st2 where 2: "lookupStatus c defKey refKey = Some st2"
    "ObjectReferenceStatus.name st2 = ObjectReferenceStatus.name st1"
    "guessState st2 = guessState st1"
    unfolding statusesKept_def by blast
  from 1 2
  show "\<exists>st'. lookupStatus c defKey refKey = Some st'
               \<and> ObjectReferenceStatus.name st' = ObjectReferenceStatus.name st
               \<and> guessState st' = guessState st"
    by auto
qed

lemma statusesKept_advance: "statusesKept S S' \<Longrightarrow> statusesAdvance S S'"
  unfolding statusesKept_def statusesAdvance_def
  by (metis allowedTransition_refl)

lemma keeps_refl: "keeps S S"
  by (simp add: keeps_def definitionsPersist_refl statusesKept_refl)

lemma keeps_trans: "keeps a b \<Longrightarrow> keeps b c \<Longrightarrow> keeps a c"
  unfolding keeps_def
  using definitionsPersist_trans statusesKept_trans by blast

lemma keeps_advances: "keeps S S' \<Longrightarrow> advances S S'"
  unfolding keeps_def advances_def using statusesKept_advance by blast

lemma lookupStatus_cong:
  "definitions (environment S') = definitions (environment S)
     \<Longrightarrow> lookupStatus S' d r = lookupStatus S d r"
  by (simp add: lookupStatus_def)

lemma keeps_same_definitions:
  assumes "definitions (environment S') = definitions (environment S)"
  shows "keeps S S'"
  using assms
  by (simp add: keeps_def definitionsPersist_def statusesKept_def resolvedSound_def
      lookupStatus_cong[OF assms])

lemma keeps_report [simp]: "keeps S (report d S)"
  by (rule keeps_same_definitions) (simp add: report_def)

lemma resolvedSound_step:
  assumes sound: "resolvedSound S" and persist: "definitionsPersist S S'"
    and origin: "\<And>d r st'. lookupStatus S' d r = Some st'
                   \<Longrightarrow> guessState st' = GuessState_Resolved
                   \<Longrightarrow> (\<exists>st. lookupStatus S d r = Some st
                              \<and> ObjectReferenceStatus.name st = ObjectReferenceStatus.name st'
                              \<and> guessState st = GuessState_Resolved)
                       \<or> (\<exists>found. map_of (definitions (environment S'))
                                      (contents (ObjectReferenceStatus.name st')) = Some found
                              \<and> (isCompileTimeObject (ObjectDefinition.type found)
                                   \<longrightarrow> isLoaded found))"
  shows "resolvedSound S'"
  unfolding resolvedSound_def
proof (intro allI impI, elim conjE)
  fix d r st'
  assume l: "lookupStatus S' d r = Some st'" and g: "guessState st' = GuessState_Resolved"
  from origin[OF l g]
  show "\<exists>found. map_of (definitions (environment S'))
                         (contents (ObjectReferenceStatus.name st')) = Some found
               \<and> (isCompileTimeObject (ObjectDefinition.type found) \<longrightarrow> isLoaded found)"
  proof
    assume "\<exists>st. lookupStatus S d r = Some st
                 \<and> ObjectReferenceStatus.name st = ObjectReferenceStatus.name st'
                 \<and> guessState st = GuessState_Resolved"
    then obtain st where st: "lookupStatus S d r = Some st"
      "ObjectReferenceStatus.name st = ObjectReferenceStatus.name st'"
      "guessState st = GuessState_Resolved" by blast
    with sound obtain found where
      f: "map_of (definitions (environment S)) (contents (ObjectReferenceStatus.name st))
            = Some found"
      "isCompileTimeObject (ObjectDefinition.type found) \<longrightarrow> isLoaded found"
      unfolding resolvedSound_def by blast
    with persist obtain found' where
      "map_of (definitions (environment S')) (contents (ObjectReferenceStatus.name st))
         = Some found'"
      "ObjectDefinition.type found' = ObjectDefinition.type found"
      "isLoaded found \<longrightarrow> isLoaded found'"
      unfolding definitionsPersist_def by blast
    with f st(2) show ?thesis by auto
  qed
qed

lemma lookupStatus_addObjectReference:
  "lookupStatus (snd (addObjectReference S tok reference)) d r =
     (if d = enclosingDefinitionName reference \<and> r = contents tok
         \<and> map_of (definitions (environment S)) d \<noteq> None
      then Some (case lookupStatus S d r of
                   None \<Rightarrow> \<lparr>ObjectReferenceStatus.name = tok, guessState = GuessState_None,
                             ObjectReferenceStatus.references = [reference]\<rparr>
                 | Some st \<Rightarrow> st\<lparr>ObjectReferenceStatus.references :=
                                   ObjectReferenceStatus.references st @ [reference]\<rparr>)
      else lookupStatus S d r)"
proof (cases "map_of (definitions (environment S)) (enclosingDefinitionName reference)")
  case None
  then show ?thesis
    by (auto simp: lookupStatus_def addObjectReference_missing definitions_addReferenceToPool)
next
  case (Some e)
  show ?thesis
    by (auto simp: lookupStatus_def addObjectReference_found[OF Some]
        definitions_addReferenceToPool AList.update_conv' map_of_addReferenceToStatus Some
        split: option.splits)
qed

lemma addReferenceToStatus_fields:
  "ObjectDefinition.type (addReferenceToStatus tok reference d) = ObjectDefinition.type d"
  "isLoaded (addReferenceToStatus tok reference d) = isLoaded d"
  by (simp_all add: addReferenceToStatus_def Let_def split: option.splits)

lemma definitionsPersist_addObjectReference:
  "definitionsPersist S (snd (addObjectReference S tok reference))"
proof (cases "map_of (definitions (environment S)) (enclosingDefinitionName reference)")
  case None
  then show ?thesis
    by (simp add: definitionsPersist_def addObjectReference_missing
        definitions_addReferenceToPool)
next
  case (Some e)
  show ?thesis
    using Some
    by (auto simp: definitionsPersist_def addObjectReference_found[OF Some]
        definitions_addReferenceToPool AList.update_conv' addReferenceToStatus_fields)
qed

lemma keeps_addObjectReference:
  "keeps S (snd (addObjectReference S tok reference))"
  unfolding keeps_def
proof (intro impI conjI)
  let ?S' = "snd (addObjectReference S tok reference)"
  assume sound: "resolvedSound S"
  show persist: "definitionsPersist S ?S'"
    by (rule definitionsPersist_addObjectReference)
  show "statusesKept S ?S'"
    by (auto simp: statusesKept_def lookupStatus_addObjectReference)
  show "resolvedSound ?S'"
  proof (rule resolvedSound_step[OF sound persist])
    fix d r st'
    assume "lookupStatus ?S' d r = Some st'" and "guessState st' = GuessState_Resolved"
    then have "\<exists>st. lookupStatus S d r = Some st
                 \<and> ObjectReferenceStatus.name st = ObjectReferenceStatus.name st'
                 \<and> guessState st = GuessState_Resolved"
      by (auto simp: lookupStatus_addObjectReference split: if_splits option.splits)
    then show "(\<exists>st. lookupStatus S d r = Some st
                  \<and> ObjectReferenceStatus.name st = ObjectReferenceStatus.name st'
                  \<and> guessState st = GuessState_Resolved)
             \<or> (\<exists>found. map_of (definitions (environment ?S'))
                            (contents (ObjectReferenceStatus.name st')) = Some found
                  \<and> (isCompileTimeObject (ObjectDefinition.type found) \<longrightarrow> isLoaded found))"
      by blast
  qed
qed

lemma definitions_outputs [simp]:
  "definitions (environment (pushSource out f S)) = definitions (environment S)"
  "definitions (environment (addStringOutput out str mods t S)) = definitions (environment S)"
  "definitions (environment (addLangTokenOutput out mods t S)) = definitions (environment S)"
  "definitions (environment (addSpliceOutput out a t S)) = definitions (environment S)"
  "definitions (environment (snd (newGeneratorOutput S))) = definitions (environment S)"
  "definitions (environment (resetGeneratorOutput out S)) = definitions (environment S)"
  "definitions (environment (pushMacroExpansion e S)) = definitions (environment S)"
  "definitions (environment (report d S)) = definitions (environment S)"
  by (simp_all add: pushSource_def addStringOutput_def addLangTokenOutput_def
      addSpliceOutput_def newGeneratorOutput_def resetGeneratorOutput_def
      pushMacroExpansion_def report_def)

lemma definitions_evaluateConstantOrSymbol [simp]:
  "definitions (environment (snd (evaluateConstantOrSymbol X S ctx t out)))
     = definitions (environment S)"
  by (simp add: evaluateConstantOrSymbol_def Let_def)

lemma definitions_pushDelimiter [simp]:
  "definitions (environment (pushDelimiter d toks s c out S)) = definitions (environment S)"
  by (simp add: pushDelimiter_def split: option.splits)

lemma definitions_expansionEvaluated [simp]:
  "definitions (environment (snd (expansionEvaluated t mo r S))) = definitions (environment S)"
  by (simp add: expansionEvaluated_def)

lemma keeps_unknownReference:
  assumes keep: "collaboratorsKeep X"
  shows "keeps S (snd (unknownReference X S ctx toks i out))"
proof -
  obtain a S1 where n: "newGeneratorOutput S = (a, S1)" by (cases "newGeneratorOutput S")
  let ?r = "\<lparr>tokens = toks, startIndex = i, context' = ctx, spliceOutput = a, isResolved = False\<rparr>"
  let ?S2 = "addSpliceOutput out a (toks ! i) S1"
  obtain st S3 where ar: "addObjectReference ?S2 (toks ! (i + 1)) ?r = (st, S3)"
    by (cases "addObjectReference ?S2 (toks ! (i + 1)) ?r")
  have "S1 = snd (newGeneratorOutput S)" by (simp only: n snd_conv)
  then have "definitions (environment ?S2) = definitions (environment S)"
    by (simp only: definitions_outputs)
  then have a2: "keeps S ?S2" by (rule keeps_same_definitions)
  have "S3 = snd (addObjectReference ?S2 (toks ! (i + 1)) ?r)"
    by (simp only: ar snd_conv)
  then have "keeps ?S2 S3" by (simp only: keeps_addObjectReference)
  with a2 have a3: "keeps S S3" by (rule keeps_trans)
  have "keeps S3 (snd (FunctionInvocationGenerator X S3 ctx toks i a))"
    using keep unfolding collaboratorsKeep_def by blast
  with a3 have fig: "keeps S (snd (FunctionInvocationGenerator X S3 ctx toks i a))"
    by (rule keeps_trans)
  have rep: "keeps S (report d S3)" for d
    using a3 keeps_report by (rule keeps_trans)
  show ?thesis
    using n ar a3 fig rep
    by (auto simp: unknownReference_def Let_def split: option.splits prod.splits)
qed

lemma keeps_dispatchMacro:
  assumes keep: "collaboratorsKeep X"
  shows "case dispatchMacro X m S ctx toks i of
           Dispatch_OutOfRange \<Rightarrow> True
         | Dispatch_Done ok S1 \<Rightarrow> keeps S S1
         | Dispatch_Expansion t mo S1 \<Rightarrow> keeps S S1"
proof -
  obtain ok mo S1 where m: "invokeMacro X m S ctx toks i = (ok, mo, S1)"
    by (cases "invokeMacro X m S ctx toks i")
  have "keeps S (snd (snd (invokeMacro X m S ctx toks i)))"
    using keep unfolding collaboratorsKeep_def by blast
  then have v1: "keeps S S1" by (simp add: m)
  have same: "keeps S S2" if "definitions (environment S2) = definitions (environment S1)"
    for S2
    using v1 keeps_same_definitions[OF that] by (rule keeps_trans)
  show ?thesis
    using v1 by (simp add: dispatchMacro_def Let_def m same)
qed

lemma keeps_dispatchInvocation:
  assumes keep: "collaboratorsKeep X"
  shows "case dispatchInvocation X S ctx toks i out of
           Dispatch_OutOfRange \<Rightarrow> True
         | Dispatch_Done ok S1 \<Rightarrow> keeps S S1
         | Dispatch_Expansion t mo S1 \<Rightarrow> keeps S S1"
proof -
  have gen: "\<And>g. keeps S (snd (invokeGenerator X g S ctx toks i out))"
    using keep unfolding collaboratorsKeep_def by blast
  have fig: "keeps S (snd (FunctionInvocationGenerator X S ctx toks i out))"
    using keep unfolding collaboratorsKeep_def by blast
  note unk = keeps_unknownReference[OF keep, where S = S and ctx = ctx and toks = toks and i = i and out = out]
  note mac = keeps_dispatchMacro[OF keep, where S = S and ctx = ctx and toks = toks and i = i]
  show ?thesis
    unfolding dispatchInvocation_def Let_def
    using gen fig unk mac keeps_refl[of S]
    by (auto split: option.splits prod.splits simp: split_beta)
qed

lemma evaluator_keeps_statuses:
  assumes keep: "collaboratorsKeep X"
  shows "(\<forall>S ctx toks i out ok S'.
            HandleInvocation_Recursive fuel X S ctx toks i out = Some (ok, S')
            \<longrightarrow> keeps S S')
       \<and> (\<forall>S ctx toks i out n S'.
            EvaluateGenerate_Recursive fuel X S ctx toks i out = Some (n, S')
            \<longrightarrow> keeps S S')
       \<and> (\<forall>S ctx toks s d out c e n S'.
            EvaluateGenerateAll_loop fuel X S ctx toks s d out c e = Some (n, S')
            \<longrightarrow> keeps S S')
       \<and> (\<forall>S ctx toks s d out n S'.
            EvaluateGenerateAll_Recursive fuel X S ctx toks s d out = Some (n, S')
            \<longrightarrow> keeps S S')"
proof (induction fuel)
  case 0
  show ?case
    by (simp add: HandleInvocation_Recursive.simps EvaluateGenerate_Recursive.simps
        EvaluateGenerateAll_loop.simps EvaluateGenerateAll_Recursive.simps)
next
  case (Suc fuel)
  note ih = Suc.IH
  note ihH = ih[THEN conjunct1, rule_format]
  note ihG = ih[THEN conjunct2, THEN conjunct1, rule_format]
  note ihL = ih[THEN conjunct2, THEN conjunct2, THEN conjunct1, rule_format]
  note ihA = ih[THEN conjunct2, THEN conjunct2, THEN conjunct2, rule_format]
  have H: "keeps S S'"
    if r: "HandleInvocation_Recursive (Suc fuel) X S ctx toks i out = Some (ok, S')"
    for S ctx toks i out ok S'
  proof (cases "dispatchInvocation X S ctx toks i out")
    case Dispatch_OutOfRange
    with r show ?thesis by (simp add: HandleInvocation_Recursive.simps)
  next
    case (Dispatch_Done ok1 S1)
    with keeps_dispatchInvocation[OF keep, where S = S and ctx = ctx and toks = toks and i = i and out = out] r show ?thesis
      by (simp add: HandleInvocation_Recursive.simps)
  next
    case (Dispatch_Expansion t mo S1)
    with keeps_dispatchInvocation[OF keep, where S = S and ctx = ctx and toks = toks and i = i and out = out]
    have v1: "keeps S S1" by simp
    from r Dispatch_Expansion obtain res S2 where
      a: "EvaluateGenerateAll_Recursive fuel X S1 ctx mo 0 None out = Some (res, S2)"
      and e: "(ok, S') = expansionEvaluated t mo res S2"
      by (auto simp: HandleInvocation_Recursive.simps split: option.splits)
    from ihA[OF a] have v2: "keeps S1 S2" .
    from e have "S' = snd (expansionEvaluated t mo res S2)" by (metis snd_conv)
    then have "definitions (environment S') = definitions (environment S2)" by simp
    then have "keeps S2 S'" by (rule keeps_same_definitions)
    with v1 v2 show ?thesis by (blast intro: keeps_trans)
  qed
  have G: "keeps S S'"
    if r: "EvaluateGenerate_Recursive (Suc fuel) X S ctx toks i out = Some (n, S')"
    for S ctx toks i out n S'
  proof (cases "Token.type (toks ! i) = TokenType_OpenParen")
    case True
    with r obtain ok where "HandleInvocation_Recursive fuel X S ctx toks i out = Some (ok, S')"
      by (auto simp: EvaluateGenerate_Recursive.simps split: if_splits option.splits)
    from ihH[OF this] show ?thesis .
  next
    case False
    with r have "S' = S \<or> S' = snd (evaluateConstantOrSymbol X S ctx (toks ! i) out)"
      by (auto simp: EvaluateGenerate_Recursive.simps split: if_splits)
    then have "definitions (environment S') = definitions (environment S)" by auto
    then show ?thesis by (rule keeps_same_definitions)
  qed
  have L: "keeps S S'"
    if r: "EvaluateGenerateAll_loop (Suc fuel) X S ctx toks s d out c e = Some (n, S')"
    for S ctx toks s d out c e n S'
  proof (cases "\<not> c < length toks \<or> Token.type (toks ! c) = TokenType_CloseParen")
    case True
    with r have "S' = S" by (auto simp: EvaluateGenerateAll_loop.simps split: if_splits)
    then show ?thesis by (simp add: keeps_refl)
  next
    case False
    with r obtain m S2 where
      g: "EvaluateGenerate_Recursive fuel X (pushDelimiter d toks s c out S) ctx toks c out
            = Some (m, S2)"
      and l: "EvaluateGenerateAll_loop fuel X S2 ctx toks s d out (nextTokenIndex X toks c) (e + m)
            = Some (n, S')"
      by (auto simp: EvaluateGenerateAll_loop.simps split: option.splits)
    have "keeps S (pushDelimiter d toks s c out S)"
      by (rule keeps_same_definitions) simp
    with ihG[OF g] ihL[OF l] show ?thesis by (blast intro: keeps_trans)
  qed
  have A: "keeps S S'"
    if r: "EvaluateGenerateAll_Recursive (Suc fuel) X S ctx toks s d out = Some (n, S')"
    for S ctx toks s d out n S'
    using ihL r by (simp add: EvaluateGenerateAll_Recursive.simps)
  from H G L A show ?case by blast
qed

lemma lookupStatus_setGuessState:
  "lookupStatus (setGuessState defKey refKey g S) d r =
     (if d = defKey \<and> r = refKey
      then map_option (\<lambda>st. st\<lparr>guessState := g\<rparr>) (lookupStatus S defKey refKey)
      else lookupStatus S d r)"
  by (auto simp: lookupStatus_def setGuessState_def AList.map_of_map_entry split: option.splits)

lemma map_of_setGuessState:
  "map_of (definitions (environment (setGuessState defKey refKey g S))) k =
     (if k = defKey
      then map_option (\<lambda>d. d\<lparr>ObjectDefinition.references :=
                               AList.map_entry refKey (\<lambda>st. st\<lparr>guessState := g\<rparr>)
                                 (ObjectDefinition.references d)\<rparr>)
             (map_of (definitions (environment S)) k)
      else map_of (definitions (environment S)) k)"
  by (auto simp: setGuessState_def AList.map_of_map_entry split: option.splits)

lemma definitionsPersist_setGuessState:
  "definitionsPersist S (setGuessState defKey refKey g S)"
  by (auto simp: definitionsPersist_def map_of_setGuessState)

lemma advances_setGuessState:
  assumes "\<And>st. resolvedSound S \<Longrightarrow> lookupStatus S defKey refKey = Some st
             \<Longrightarrow> allowedTransition (guessState st) g
                 \<and> (g = GuessState_Resolved
                      \<longrightarrow> (\<exists>found. map_of (definitions (environment S))
                                       (contents (ObjectReferenceStatus.name st)) = Some found
                             \<and> (isCompileTimeObject (ObjectDefinition.type found)
                                  \<longrightarrow> isLoaded found)))"
  shows "advances S (setGuessState defKey refKey g S)"
  unfolding advances_def
proof (intro impI conjI)
  let ?S' = "setGuessState defKey refKey g S"
  assume sound: "resolvedSound S"
  note a = assms[OF sound]
  show persist: "definitionsPersist S ?S'" by (rule definitionsPersist_setGuessState)
  show "statusesAdvance S ?S'"
    using a by (auto simp: statusesAdvance_def lookupStatus_setGuessState allowedTransition_refl)
  show "resolvedSound ?S'"
  proof (rule resolvedSound_step[OF sound persist])
    fix d r st'
    assume l: "lookupStatus ?S' d r = Some st'" and g: "guessState st' = GuessState_Resolved"
    show "(\<exists>st. lookupStatus S d r = Some st
                  \<and> ObjectReferenceStatus.name st = ObjectReferenceStatus.name st'
                  \<and> guessState st = GuessState_Resolved)
             \<or> (\<exists>found. map_of (definitions (environment ?S'))
                            (contents (ObjectReferenceStatus.name st')) = Some found
                  \<and> (isCompileTimeObject (ObjectDefinition.type found) \<longrightarrow> isLoaded found))"
    proof (cases "d = defKey \<and> r = refKey")
      case False
      with l g show ?thesis by (auto simp: lookupStatus_setGuessState)
    next
      case True
      with l obtain st where st: "lookupStatus S defKey refKey = Some st"
        and st': "st' = st\<lparr>guessState := g\<rparr>"
        by (auto simp: lookupStatus_setGuessState)
      from st' g have "g = GuessState_Resolved" by simp
      with a[OF st] obtain found where
        f: "map_of (definitions (environment S)) (contents (ObjectReferenceStatus.name st))
              = Some found"
        "isCompileTimeObject (ObjectDefinition.type found) \<longrightarrow> isLoaded found"
        by blast
      with persist obtain found' where
        "map_of (definitions (environment ?S')) (contents (ObjectReferenceStatus.name st))
           = Some found'"
        "ObjectDefinition.type found' = ObjectDefinition.type found"
        "isLoaded found \<longrightarrow> isLoaded found'"
        unfolding definitionsPersist_def by blast
      with f st' show ?thesis by auto
    qed
  qed
qed

lemma keeps_invokeOnOccurrences:
  assumes keep: "collaboratorsKeep X"
  shows "invokeOnOccurrences fuel X defKey refKey i (S, c) = Some (S', cb) \<Longrightarrow> keeps S S'"
proof (induction fuel arbitrary: i S c)
  case 0
  then show ?case by simp
next
  case (Suc fuel)
  show ?case
  proof (cases "lookupStatus S defKey refKey")
    case None
    with Suc.prems show ?thesis by simp
  next
    case (Some st)
    show ?thesis
    proof (cases "i < length (ObjectReferenceStatus.references st)")
      case False
      with Suc.prems Some show ?thesis by (simp add: keeps_refl)
    next
      case True
      let ?r = "ObjectReferenceStatus.references st ! i"
      obtain res S1 where fig: "FunctionInvocationGenerator X S (context' ?r) (tokens ?r)
                                  (startIndex ?r) (spliceOutput ?r) = (res, S1)"
        by (cases "FunctionInvocationGenerator X S (context' ?r) (tokens ?r)
                     (startIndex ?r) (spliceOutput ?r)")
      have "keeps S (snd (FunctionInvocationGenerator X S (context' ?r) (tokens ?r)
                                  (startIndex ?r) (spliceOutput ?r)))"
        using keep unfolding collaboratorsKeep_def by blast
      then have a1: "keeps S S1" by (simp add: fig)
      from Suc.prems Some True fig
      have "invokeOnOccurrences fuel X defKey refKey (i + 1) (S1, if \<not> res then False else c)
              = Some (S', cb)"
        by (auto simp: Let_def split: if_splits)
      from Suc.IH[OF this] a1 show ?thesis by (blast intro: keeps_trans)
    qed
  qed
qed

lemma advances_keeps_then_set:
  assumes k: "keeps S S1" and st: "lookupStatus S defKey refKey = Some st"
    and ok: "resolvedSound S
             \<Longrightarrow> allowedTransition (guessState st) g
                 \<and> (g = GuessState_Resolved
                      \<longrightarrow> (\<exists>found. map_of (definitions (environment S))
                                       (contents (ObjectReferenceStatus.name st)) = Some found
                             \<and> (isCompileTimeObject (ObjectDefinition.type found)
                                  \<longrightarrow> isLoaded found)))"
  shows "advances S (setGuessState defKey refKey g S1)"
  unfolding advances_def
proof (intro impI)
  assume sound: "resolvedSound S"
  from k sound have persist: "definitionsPersist S S1" and kept: "statusesKept S S1"
    and sound1: "resolvedSound S1"
    by (simp_all add: keeps_def)
  from kept st obtain st1 where st1: "lookupStatus S1 defKey refKey = Some st1"
    "ObjectReferenceStatus.name st1 = ObjectReferenceStatus.name st"
    "guessState st1 = guessState st"
    unfolding statusesKept_def by blast
  note o = ok[OF sound]
  have "advances S1 (setGuessState defKey refKey g S1)"
  proof (rule advances_setGuessState)
    fix st'
    assume "lookupStatus S1 defKey refKey = Some st'"
    with st1 have eq: "st' = st1" by simp
    have "g = GuessState_Resolved
            \<longrightarrow> (\<exists>found. map_of (definitions (environment S1))
                             (contents (ObjectReferenceStatus.name st1)) = Some found
                   \<and> (isCompileTimeObject (ObjectDefinition.type found) \<longrightarrow> isLoaded found))"
    proof
      assume "g = GuessState_Resolved"
      with o obtain found where
        f: "map_of (definitions (environment S)) (contents (ObjectReferenceStatus.name st))
              = Some found"
        "isCompileTimeObject (ObjectDefinition.type found) \<longrightarrow> isLoaded found"
        by blast
      with persist obtain found' where
        "map_of (definitions (environment S1)) (contents (ObjectReferenceStatus.name st))
           = Some found'"
        "ObjectDefinition.type found' = ObjectDefinition.type found"
        "isLoaded found \<longrightarrow> isLoaded found'"
        unfolding definitionsPersist_def by blast
      with f st1(2)
      show "\<exists>found. map_of (definitions (environment S1))
                             (contents (ObjectReferenceStatus.name st1)) = Some found
                   \<and> (isCompileTimeObject (ObjectDefinition.type found) \<longrightarrow> isLoaded found)"
        by auto
    qed
    with o st1(3) eq
    show "allowedTransition (guessState st') g
            \<and> (g = GuessState_Resolved
                 \<longrightarrow> (\<exists>found. map_of (definitions (environment S1))
                                  (contents (ObjectReferenceStatus.name st')) = Some found
                        \<and> (isCompileTimeObject (ObjectDefinition.type found)
                             \<longrightarrow> isLoaded found)))"
      by simp
  qed
  with sound1 have 2: "definitionsPersist S1 (setGuessState defKey refKey g S1)"
    "statusesAdvance S1 (setGuessState defKey refKey g S1)"
    "resolvedSound (setGuessState defKey refKey g S1)"
    by (simp_all add: advances_def)
  from persist 2(1) have "definitionsPersist S (setGuessState defKey refKey g S1)"
    by (rule definitionsPersist_trans)
  moreover from statusesKept_advance[OF kept] 2(2)
  have "statusesAdvance S (setGuessState defKey refKey g S1)"
    by (rule statusesAdvance_trans)
  ultimately show "definitionsPersist S (setGuessState defKey refKey g S1)
       \<and> statusesAdvance S (setGuessState defKey refKey g S1)
       \<and> resolvedSound (setGuessState defKey refKey g S1)"
    using 2(3) by simp
qed

lemma advances_checkReference:
  assumes keep: "collaboratorsKeep X"
    and run: "checkReference fuel X defKey refKey (S, flags) = Some (S', flags')"
  shows "advances S S'"
proof -
  from run obtain st where st: "lookupStatus S defKey refKey = Some st"
    by (auto simp: checkReference_def split: option.splits)
  let ?target = "map_of (definitions (environment S)) (contents (ObjectReferenceStatus.name st))"
  note inv = keeps_invokeOnOccurrences[OF keep]
  show ?thesis
  proof (cases ?target)
    case None
    show ?thesis
    proof (cases "guessState st = GuessState_None")
      case True
      with run st None obtain S1 cb where
        i: "invokeOnOccurrences fuel X defKey refKey 0 (S, canBuild flags) = Some (S1, cb)"
        and S': "S' = setGuessState defKey refKey GuessState_Guessed S1"
        by (auto simp: checkReference_def split: option.splits)
      show ?thesis
        unfolding S'
        by (rule advances_keeps_then_set[OF inv[OF i] st])
           (simp add: True allowedTransition_from_None)
    next
      case False
      with run st None have "S' = S"
        by (auto simp: checkReference_def split: if_splits)
      then show ?thesis by (simp add: advances_refl)
    qed
  next
    case (Some found)
    show ?thesis
    proof (cases "isCompileTimeObject (ObjectDefinition.type found)")
      case True
      show ?thesis
      proof (cases "isLoaded found")
        case loaded: True
        with run st Some True
        have S': "S' = setGuessState defKey refKey GuessState_Resolved S"
          by (auto simp: checkReference_def split: if_splits)
        show ?thesis
          unfolding S'
          by (rule advances_keeps_then_set[OF keeps_refl st])
             (simp add: Some loaded allowedTransition_to_Resolved)
      next
        case unloaded: False
        with run st Some True
        have S': "S' = setGuessState defKey refKey GuessState_WaitingForLoad S"
          by (auto simp: checkReference_def split: if_splits)
        have "guessState st \<noteq> GuessState_Resolved" if "resolvedSound S"
          using that st Some True unloaded unfolding resolvedSound_def by fastforce
        then show ?thesis
          unfolding S'
          by (intro advances_keeps_then_set[OF keeps_refl st])
             (simp add: allowedTransition_to_Waiting)
      qed
    next
      case False
      show ?thesis
      proof (cases "ObjectDefinition.type found = ObjectType_Function
                      \<and> guessState st \<noteq> GuessState_Resolved")
        case True
        with run st Some False obtain S1 cb where
          i: "invokeOnOccurrences fuel X defKey refKey 0 (S, canBuild flags) = Some (S1, cb)"
          and S': "S' = setGuessState defKey refKey GuessState_Resolved S1"
          by (auto simp: checkReference_def split: option.splits)
        show ?thesis
          unfolding S'
          by (rule advances_keeps_then_set[OF inv[OF i] st])
             (simp add: Some False allowedTransition_to_Resolved)
      next
        case other: False
        with run st Some False have "S' = S"
          by (auto simp: checkReference_def split: if_splits)
        then show ?thesis by (simp add: advances_refl)
      qed
    qed
  qed
qed

lemma advances_checkReferences:
  assumes keep: "collaboratorsKeep X"
  shows "checkReferences fuel X defKey refs (S, flags) = Some (S', flags') \<Longrightarrow> advances S S'"
proof (induction refs arbitrary: S flags)
  case Nil
  then show ?case by (simp add: advances_refl)
next
  case (Cons r refs)
  then obtain S1 flags1 where step: "checkReference fuel X defKey r (S, flags) = Some (S1, flags1)"
    and rest: "checkReferences fuel X defKey refs (S1, flags1) = Some (S', flags')"
    by (auto split: option.splits)
  from advances_checkReference[OF keep step] Cons.IH[OF rest]
  show ?case by (rule advances_trans)
qed

lemma advances_checkDefinitionReferences:
  assumes keep: "collaboratorsKeep X"
  shows "checkDefinitionReferences fuel X defKey (S, flags) = Some (S', flags')
           \<Longrightarrow> advances S S'"
proof (induction fuel arbitrary: S flags)
  case 0
  then show ?case by simp
next
  case (Suc fuel)
  from Suc.prems obtain d where d: "map_of (definitions (environment S)) defKey = Some d"
    by (auto split: option.splits)
  let ?refs = "map fst (ObjectDefinition.references d)"
  from Suc.prems d obtain S1 flags1 where
    round: "checkReferences fuel X defKey ?refs
              (S, flags\<lparr>guessMaybeDirtiedReferences := False\<rparr>) = Some (S1, flags1)"
    by (auto split: option.splits)
  note a1 = advances_checkReferences[OF keep round]
  show ?case
  proof (cases "guessMaybeDirtiedReferences flags1")
    case True
    with Suc.prems d round have
      "checkDefinitionReferences fuel X defKey (S1, flags1) = Some (S', flags')"
      by simp
    from a1 Suc.IH[OF this] show ?thesis by (rule advances_trans)
  next
    case False
    with Suc.prems d round have "S' = S1" by simp
    with a1 show ?thesis by simp
  qed
qed

lemma advances_same_definitions:
  "definitions (environment S') = definitions (environment S) \<Longrightarrow> advances S S'"
  by (rule keeps_advances[OF keeps_same_definitions])

lemma advances_checkToBuild:
  assumes keep: "collaboratorsKeep X"
    and run: "checkToBuild fuel X defKey (S, queue) = Some (S', queue')"
  shows "advances S S'"
proof -
  from run obtain S1 flags where
    c: "checkDefinitionReferences fuel X defKey (S, initialFlags) = Some (S1, flags)"
    and same: "definitions (environment S') = definitions (environment S1)"
    by (auto simp: checkToBuild_def getNextFreeBuildId_def split: option.splits if_splits)
  from advances_checkDefinitionReferences[OF keep c] advances_same_definitions[OF same]
  show ?thesis by (rule advances_trans)
qed

lemma advances_checkAllToBuild:
  assumes keep: "collaboratorsKeep X"
  shows "checkAllToBuild fuel X keys (S, queue) = Some (S', queue') \<Longrightarrow> advances S S'"
proof (induction keys arbitrary: S queue)
  case Nil
  then show ?case by (simp add: advances_refl)
next
  case (Cons k keys)
  then obtain S1 queue1 where step: "checkToBuild fuel X k (S, queue) = Some (S1, queue1)"
    and rest: "checkAllToBuild fuel X keys (S1, queue1) = Some (S', queue')"
    by (auto split: option.splits)
  from advances_checkToBuild[OF keep step] Cons.IH[OF rest]
  show ?case by (rule advances_trans)
qed

lemma environment_waitForAllProcessesClosed:
  "environment (fst (waitForAllProcessesClosed X acc)) = environment (fst acc)"
  by (simp add: waitForAllProcessesClosed_def split: prod.splits)

lemma environment_spawnProcess:
  "environment (spawnProcess X i arguments S) = environment S"
  by (simp add: spawnProcess_def)

lemma environment_compileBuildObject:
  "environment (fst (fst (compileBuildObject X i acc))) = environment (fst (fst acc))"
  by (auto simp: compileBuildObject_def Let_def environment_spawnProcess
      waitForAllProcessesClosed_def report_def split: prod.splits option.splits)

lemma environment_fold_compileBuildObject:
  "environment (fst (fst (fold (compileBuildObject X) indices acc))) = environment (fst (fst acc))"
  by (induction indices arbitrary: acc) (simp_all add: environment_compileBuildObject)

lemma environment_compilePhase:
  "environment (fst (compilePhase X acc)) = environment (fst acc)"
  by (simp add: compilePhase_def environment_waitForAllProcessesClosed
      environment_fold_compileBuildObject)

lemma environment_linkBuildObject:
  "environment (fst (linkBuildObject X i acc)) = environment (fst acc)"
  by (auto simp: linkBuildObject_def environment_spawnProcess report_def
      split: prod.splits option.splits)

lemma environment_fold_linkBuildObject:
  "environment (fst (fold (linkBuildObject X) indices acc)) = environment (fst acc)"
  by (induction indices arbitrary: acc) (simp_all add: environment_linkBuildObject)

lemma environment_linkPhase:
  "environment (fst (linkPhase X acc)) = environment (fst acc)"
  by (simp add: linkPhase_def environment_waitForAllProcessesClosed
      environment_fold_linkBuildObject)

lemma definitions_installCompileTimeFunction [simp]:
  "definitions (environment (installCompileTimeFunction d f S)) = definitions (environment S)"
  by (simp add: installCompileTimeFunction_def)

lemma definitions_markResolved [simp]:
  "definitions (environment (markResolved poolName j S)) = definitions (environment S)"
  by (simp add: markResolved_def split: option.splits)

lemma map_of_setLoaded:
  "map_of (definitions (environment (setLoaded defKey S))) k =
     (if k = defKey
      then map_option (\<lambda>d. d\<lparr>isLoaded := True\<rparr>) (map_of (definitions (environment S)) k)
      else map_of (definitions (environment S)) k)"
  by (auto simp: setLoaded_def AList.map_of_map_entry split: option.splits)

lemma lookupStatus_setLoaded: "lookupStatus (setLoaded defKey S) d r = lookupStatus S d r"
  by (auto simp: lookupStatus_def map_of_setLoaded split: option.splits)

lemma keeps_setLoaded: "keeps S (setLoaded defKey S)"
  unfolding keeps_def
proof (intro impI conjI)
  assume sound: "resolvedSound S"
  show persist: "definitionsPersist S (setLoaded defKey S)"
    by (auto simp: definitionsPersist_def map_of_setLoaded)
  show "statusesKept S (setLoaded defKey S)"
    by (simp add: statusesKept_def lookupStatus_setLoaded)
  show "resolvedSound (setLoaded defKey S)"
    by (rule resolvedSound_step[OF sound persist]) (simp add: lookupStatus_setLoaded)
qed

lemma keeps_resolveReference:
  assumes keep: "collaboratorsKeep X"
    and run: "resolveReference fuel X poolName j (S, e, r) = Some (S', e', r')"
  shows "keeps S S'"
proof -
  from run obtain pool where pool: "referencePools (environment S) poolName = Some pool"
    by (auto simp: resolveReference_def split: option.splits)
  show ?thesis
  proof (cases "isResolved (pool ! j)")
    case True
    with run pool have "S' = S"
      by (auto simp: resolveReference_def split: if_splits)
    then show ?thesis by (simp add: keeps_refl)
  next
    case False
    let ?S0 = "resetGeneratorOutput (spliceOutput (pool ! j)) S"
    from run pool False obtain result S1 where
      g: "EvaluateGenerate_Recursive fuel X ?S0 (context' (pool ! j)) (tokens (pool ! j))
            (startIndex (pool ! j)) (spliceOutput (pool ! j)) = Some (result, S1)"
      and S': "S' = markResolved poolName j S1"
      by (auto simp: resolveReference_def split: if_splits option.splits)
    have 0: "keeps S ?S0" by (rule keeps_same_definitions) simp
    have 1: "keeps ?S0 S1"
      using evaluator_keeps_statuses[OF keep, of fuel, THEN conjunct2, THEN conjunct1,
              rule_format, OF g] .
    have 2: "keeps S1 S'" unfolding S' by (rule keeps_same_definitions) simp
    from 0 1 2 show ?thesis by (blast intro: keeps_trans)
  qed
qed

lemma keeps_resolveReferences:
  assumes keep: "collaboratorsKeep X"
  shows "resolveReferences fuel X poolName js (S, e, r) = Some (S', e', r') \<Longrightarrow> keeps S S'"
proof (induction js arbitrary: S e r)
  case Nil
  then show ?case by (simp add: keeps_refl)
next
  case (Cons j js)
  then obtain S1 e1 r1 where
    step: "resolveReference fuel X poolName j (S, e, r) = Some (S1, e1, r1)"
    and rest: "resolveReferences fuel X poolName js (S1, e1, r1) = Some (S', e', r')"
    by (auto split: option.splits)
  from keeps_resolveReference[OF keep step] Cons.IH[OF rest]
  show ?case by (rule keeps_trans)
qed

lemma keeps_loadBuildObject:
  assumes keep: "collaboratorsKeep X"
    and run: "loadBuildObject fuel X i ((S, objs), e, r) = Some ((S', objs'), e', r')"
  shows "keeps S S'"
proof -
  have same: "keeps S T" if "definitions (environment T) = definitions (environment S)" for T
    using that by (rule keeps_same_definitions)
  have resolved: "keeps S (setLoaded k S2)"
    if "resolveReferences fuel X poolName js (installCompileTimeFunction d f S, e, r)
          = Some (S2, e2, r2)"
    for k S2 poolName js d f e2 r2
  proof -
    have "keeps S (installCompileTimeFunction d f S)" by (rule same) simp
    moreover note keeps_resolveReferences[OF keep that]
    moreover have "keeps S2 (setLoaded k S2)" by (rule keeps_setLoaded)
    ultimately show ?thesis by (blast intro: keeps_trans)
  qed
  from run show ?thesis
    unfolding loadBuildObject_def Let_def
    by (auto simp: keeps_refl same resolved split: if_splits option.splits prod.splits)
qed

lemma keeps_loadPhase:
  assumes keep: "collaboratorsKeep X"
  shows "loadPhase fuel X indices ((S, objs), e, r) = Some ((S', objs'), e', r')
           \<Longrightarrow> keeps S S'"
proof (induction indices arbitrary: S objs e r)
  case Nil
  then show ?case by (simp add: keeps_refl)
next
  case (Cons i indices)
  then obtain S1 objs1 e1 r1 where
    step: "loadBuildObject fuel X i ((S, objs), e, r) = Some ((S1, objs1), e1, r1)"
    and rest: "loadPhase fuel X indices ((S1, objs1), e1, r1) = Some ((S', objs'), e', r')"
    by (auto split: option.splits)
  from keeps_loadBuildObject[OF keep step] Cons.IH[OF rest]
  show ?case by (rule keeps_trans)
qed

lemma advances_BuildEvaluateReferences:
  assumes keep: "collaboratorsKeep X"
    and run: "BuildEvaluateReferences fuel X S numErrorsOut = Some (resolved, errors, S')"
  shows "advances S S'"
proof -
  from run obtain S1 queue where
    queued: "checkAllToBuild fuel X (definitionsToCheck (environment S)) (S, []) = Some (S1, queue)"
    by (auto simp: BuildEvaluateReferences_def split: option.splits)
  obtain S2 objs2 where built: "linkPhase X (compilePhase X (S1, queue)) = (S2, objs2)"
    by (cases "linkPhase X (compilePhase X (S1, queue))")
  from run queued built obtain objs' where
    load: "loadPhase fuel X [0..<length objs2] ((S2, objs2), numErrorsOut, 0)
             = Some ((S', objs'), errors, resolved)"
    by (auto simp: BuildEvaluateReferences_def Let_def split: option.splits)
  have "environment S2 = environment S1"
    using environment_linkPhase[of X "compilePhase X (S1, queue)"]
      environment_compilePhase[of X "(S1, queue)"] by (simp add: built)
  then have 2: "advances S1 S2" by (intro advances_same_definitions) simp
  from advances_checkAllToBuild[OF keep queued] 2 keeps_advances[OF keeps_loadPhase[OF keep load]]
  show ?thesis by (blast intro: advances_trans)
qed



section \<open>A call of a known function is resolved whether or not it generates\<close>


























section \<open>The transitions of a guess state\<close>

lemma sameButRequired_refl: "sameButRequired env env"
  by (simp add: sameButRequired_def)

lemma sameButRequired_trans:
  "sameButRequired a b \<Longrightarrow> sameButRequired b c \<Longrightarrow> sameButRequired a c"
  by (simp add: sameButRequired_def)

lemma sameButRequired_setRequired:
  "sameButRequired env (env\<lparr>definitions := setRequired k (definitions env)\<rparr>)"
  by (auto simp: sameButRequired_def map_of_setRequired option.map_comp comp_def
      split: option.splits)

lemma sameButRequired_propagateToReference:
  "sameButRequired (fst acc) (fst (propagateToReference defKey st acc))"
  by (auto simp: propagateToReference_def sameButRequired_refl sameButRequired_setRequired
      split: prod.splits option.splits)

lemma sameButRequired_fold_propagateToReference:
  "sameButRequired (fst acc) (fst (fold (propagateToReference defKey) sts acc))"
proof (induction sts arbitrary: acc)
  case Nil
  show ?case by (simp add: sameButRequired_refl)
next
  case (Cons st sts)
  from sameButRequired_propagateToReference[of acc defKey st]
    Cons.IH[of "propagateToReference defKey st acc"]
  show ?case by (simp add: sameButRequired_trans)
qed

lemma sameButRequired_propagateDefinition:
  "sameButRequired (fst acc) (fst (propagateDefinition defKey acc))"
  by (simp add: propagateDefinition_def sameButRequired_refl
      sameButRequired_fold_propagateToReference split: option.splits)

lemma sameButRequired_fold_propagateDefinition:
  "sameButRequired (fst acc) (fst (fold propagateDefinition keys acc))"
proof (induction keys arbitrary: acc)
  case Nil
  show ?case by (simp add: sameButRequired_refl)
next
  case (Cons k keys)
  from sameButRequired_propagateDefinition[of acc k]
    Cons.IH[of "propagateDefinition k acc"]
  show ?case by (simp add: sameButRequired_trans)
qed

lemma sameButRequired_propagatePass: "sameButRequired env (fst (propagatePass env))"
  using sameButRequired_fold_propagateDefinition[of "(env, 0)" "map fst (definitions env)"]
  by (simp add: propagatePass_def)

lemma sameButRequired_Propagate: "sameButRequired env (PropagateRequiredToReferences env)"
proof (induction env rule: PropagateRequiredToReferences.induct)
  case (1 env)
  obtain env' n where pass: "propagatePass env = (env', n)"
    by (cases "propagatePass env")
  from sameButRequired_propagatePass[of env] pass have step: "sameButRequired env env'" by simp
  show ?case
  proof (cases "n = 0")
    case True
    with pass step show ?thesis
      by (subst PropagateRequiredToReferences.simps) simp
  next
    case False
    from "1.IH"[OF pass[symmetric] False] step
    have "sameButRequired env (PropagateRequiredToReferences env')"
      by (blast intro: sameButRequired_trans)
    with pass False show ?thesis
      by (subst PropagateRequiredToReferences.simps) simp
  qed
qed

lemma keeps_sameButRequired:
  assumes same: "sameButRequired (environment S) (environment S')"
  shows "keeps S S'"
proof -
  have lookup: "\<exists>d'. map_of (definitions (environment S')) k = Some d'
                  \<and> d'\<lparr>isRequired := False\<rparr> = d\<lparr>isRequired := False\<rparr>"
    if "map_of (definitions (environment S)) k = Some d" for k d
    using same[unfolded sameButRequired_def, rule_format, of k] that
    by (cases "map_of (definitions (environment S')) k") auto
  have fields: "ObjectDefinition.type d' = ObjectDefinition.type d \<and> isLoaded d' = isLoaded d
                  \<and> ObjectDefinition.references d' = ObjectDefinition.references d"
    if "d'\<lparr>isRequired := False\<rparr> = d\<lparr>isRequired := False\<rparr>"
    for d d' :: ObjectDefinition
    using arg_cong[OF that, of ObjectDefinition.type] arg_cong[OF that, of isLoaded]
      arg_cong[OF that, of ObjectDefinition.references]
    by simp
  have status: "lookupStatus S' d r = lookupStatus S d r" for d r
  proof (cases "map_of (definitions (environment S)) d")
    case None
    with same[unfolded sameButRequired_def, rule_format, of d]
    have "map_of (definitions (environment S')) d = None" by simp
    with None show ?thesis by (simp add: lookupStatus_def)
  next
    case (Some e)
    from lookup[OF Some] obtain e' where e': "map_of (definitions (environment S')) d = Some e'"
      "e'\<lparr>isRequired := False\<rparr> = e\<lparr>isRequired := False\<rparr>"
      by blast
    from fields[OF e'(2)] e'(1) Some show ?thesis by (simp add: lookupStatus_def)
  qed
  show ?thesis
    unfolding keeps_def
  proof (intro impI conjI)
    assume sound: "resolvedSound S"
    show persist: "definitionsPersist S S'"
      unfolding definitionsPersist_def
    proof (intro allI impI)
      fix k d
      assume "map_of (definitions (environment S)) k = Some d"
      from lookup[OF this] obtain d' where d': "map_of (definitions (environment S')) k = Some d'"
        "d'\<lparr>isRequired := False\<rparr> = d\<lparr>isRequired := False\<rparr>"
        by blast
      from fields[OF d'(2)] d'(1)
      show "\<exists>d'. map_of (definitions (environment S')) k = Some d'
               \<and> ObjectDefinition.type d' = ObjectDefinition.type d
               \<and> (isLoaded d \<longrightarrow> isLoaded d')"
        by simp
    qed
    show "statusesKept S S'" by (simp add: statusesKept_def status)
    show "resolvedSound S'"
      by (rule resolvedSound_step[OF sound persist]) (simp add: status)
  qed
qed

lemma advances_runCall:
  assumes keep: "collaboratorsKeep X" and run: "runCall X call S = Some S'"
  shows "advances S S'"
proof (cases call)
  case (Call_HandleInvocation fuel ctx toks i out)
  with run obtain ok where "HandleInvocation_Recursive fuel X S ctx toks i out = Some (ok, S')"
    by auto
  from evaluator_keeps_statuses[OF keep, of fuel, THEN conjunct1, rule_format, OF this]
  show ?thesis by (rule keeps_advances)
next
  case Call_Propagate
  with run have "S' = S\<lparr>environment := PropagateRequiredToReferences (environment S)\<rparr>"
    by simp
  then have "sameButRequired (environment S) (environment S')"
    by (simp add: sameButRequired_Propagate)
  then show ?thesis by (intro keeps_advances keeps_sameButRequired)
next
  case (Call_BuildEvaluateReferences fuel n)
  with run obtain r e where "BuildEvaluateReferences fuel X S n = Some (r, e, S')"
    by auto
  from advances_BuildEvaluateReferences[OF keep this] show ?thesis .
qed

lemma advances_runCalls:
  assumes keep: "collaboratorsKeep X"
  shows "runCalls X calls S = Some S' \<Longrightarrow> advances S S'"
proof (induction calls arbitrary: S)
  case Nil
  then show ?case by (simp add: advances_refl)
next
  case (Cons call calls)
  then obtain S1 where 1: "runCall X call S = Some S1" and 2: "runCalls X calls S1 = Some S'"
    by (auto split: option.splits)
  from advances_runCall[OF keep 1] Cons.IH[OF 2] show ?case by (rule advances_trans)
qed

text \<open>
  C1, as the code has it.  Let the macros, the generators and
  \<^verbatim>\<open>FunctionInvocationGenerator\<close> keep the statuses (they do not write guess states), and
  let every \<^verbatim>\<open>Resolved\<close> status of \<open>S\<close> name a definition that is loaded if it is
  compile-time code, as the code establishes where it writes \<^verbatim>\<open>Resolved\<close>.  Then after
  any sequence of calls of \<^verbatim>\<open>HandleInvocation_Recursive\<close>,
  \<^verbatim>\<open>PropagateRequiredToReferences\<close> and \<^verbatim>\<open>BuildEvaluateReferences\<close> that returns, every status of \<open>S\<close> is still there and its
  guess state is unchanged or has made one of the five transitions of the specification or
  the transition from \<^verbatim>\<open>Guessed\<close> to \<^verbatim>\<open>WaitingForLoad\<close>; a status that was
  \<^verbatim>\<open>Resolved\<close> is \<^verbatim>\<open>Resolved\<close>; the \<^verbatim>\<open>Resolved\<close> statuses are sound again; and a call of
  \<^verbatim>\<open>HandleInvocation_Recursive\<close> changes no guess state at all.
\<close>

theorem guessState_transitions:
  assumes keep: "collaboratorsKeep X" and sound: "resolvedSound S"
    and run: "runCalls X calls S = Some S'"
  shows "statusesAdvance S S' \<and> resolvedSound S'
       \<and> (\<forall>defKey refKey st. lookupStatus S defKey refKey = Some st
              \<and> guessState st = GuessState_Resolved
            \<longrightarrow> map_option guessState (lookupStatus S' defKey refKey)
                  = Some GuessState_Resolved)
       \<and> (\<forall>fuel ctx toks i out ok S1.
              HandleInvocation_Recursive fuel X S ctx toks i out = Some (ok, S1)
            \<longrightarrow> statusesKept S S1)"
proof -
  from advances_runCalls[OF keep run] sound
  have adv: "statusesAdvance S S'" and sound': "resolvedSound S'"
    by (simp_all add: advances_def)
  have final: "map_option guessState (lookupStatus S' defKey refKey) = Some GuessState_Resolved"
    if "lookupStatus S defKey refKey = Some st" "guessState st = GuessState_Resolved"
    for defKey refKey st
  proof -
    from adv that(1) obtain st' where "lookupStatus S' defKey refKey = Some st'"
      "allowedTransition (guessState st) (guessState st')"
      unfolding statusesAdvance_def by blast
    with that(2) show ?thesis by (simp add: allowedTransition_Resolved)
  qed
  have kept: "statusesKept S S1"
    if "HandleInvocation_Recursive fuel X S ctx toks i out = Some (ok, S1)"
    for fuel ctx toks i out ok S1
    using evaluator_keeps_statuses[OF keep, of fuel, THEN conjunct1, rule_format, OF that] sound
    by (simp add: keeps_def)
  from adv sound' final kept show ?thesis by blast
qed

lemma keeps_addObjectDefinition:
  assumes fresh: "ObjectDefinition.references d = []"
  shows "keeps S (snd (addObjectDefinition S d))"
proof (cases "map_of (definitions (environment S)) (contents (ObjectDefinition.name d)) = None
                \<and> findGenerator (environment S) (contents (ObjectDefinition.name d)) = None
                \<and> findMacro (environment S) (contents (ObjectDefinition.name d)) = None")
  case False
  then have "definitions (environment (snd (addObjectDefinition S d)))
               = definitions (environment S)"
    by (auto simp: addObjectDefinition_def Let_def report_def split: option.splits)
  then show ?thesis by (rule keeps_same_definitions)
next
  case True
  let ?key = "contents (ObjectDefinition.name d)"
  let ?S' = "snd (addObjectDefinition S d)"
  from True have defs: "definitions (environment ?S') = definitions (environment S) @ [(?key, d)]"
    by (simp add: addObjectDefinition_def Let_def)
  have lookup: "map_of (definitions (environment ?S')) k =
                  (case map_of (definitions (environment S)) k of
                     None \<Rightarrow> if k = ?key then Some d else None
                   | Some e \<Rightarrow> Some e)" for k
    by (simp add: defs map_add_def split: option.splits)
  have status: "lookupStatus ?S' k r = lookupStatus S k r" for k r
    using fresh by (simp add: lookupStatus_def lookup split: option.splits)
  show ?thesis
    unfolding keeps_def
  proof (intro impI conjI)
    assume sound: "resolvedSound S"
    show persist: "definitionsPersist S ?S'"
      by (simp add: definitionsPersist_def lookup)
    show "statusesKept S ?S'" by (simp add: statusesKept_def status)
    show "resolvedSound ?S'"
      by (rule resolvedSound_step[OF sound persist]) (simp add: status)
  qed
qed

lemma lateDefinitionCollaborators_keep: "collaboratorsKeep lateDefinitionCollaborators"
  by (simp add: collaboratorsKeep_def lateDefinitionCollaborators_def exampleCollaborators_def
      keeps_refl keeps_addObjectDefinition definitionOf_def)

lemma freshModuleState_sound: "resolvedSound freshModuleState"
  by (auto simp: resolvedSound_def lookupStatus_def freshModuleState_def
      stateOf_def environmentOf_def definitionOf_def split: if_splits)

lemma freshModule_runs:
  "\<exists>S1. runCalls lateDefinitionCollaborators moduleCalls freshModuleState = Some S1
     \<and> map_option guessState (lookupStatus S1 ''<global>'' ''foo'') = Some GuessState_Guessed
     \<and> map_option guessState (lookupStatus S1 ''<global>'' ''mk'')
         = Some GuessState_WaitingForLoad
     \<and> (\<exists>S2. runCalls lateDefinitionCollaborators
                 [Call_Propagate, Call_BuildEvaluateReferences 5 0] S1 = Some S2
           \<and> map_option guessState (lookupStatus S2 ''<global>'' ''foo'')
               = Some GuessState_WaitingForLoad
           \<and> map_option guessState (lookupStatus S2 ''<global>'' ''mk'')
               = Some GuessState_Resolved)"
  by (simp add: eval_nat_numeral freshModuleState_def moduleCalls_def moduleContext_def
      lateDefinitionCollaborators_def callStatus_def callReference_def
      addObjectDefinition_def resolveReference_def markResolved_def setLoaded_def
      installCompileTimeFunction_def resetGeneratorOutput_def
      HandleInvocation_Recursive.simps EvaluateGenerate_Recursive.simps
      dispatchInvocation_def dispatchMacro_def emptyGeneratorOutput_def
      unknownReference_def newGeneratorOutput_def addSpliceOutput_def pushSource_def
      addObjectReference_def enclosingDefinitionName_def addReferenceToStatus_def
      addReferenceToPool_def globalDefinitionName_def
      example_defs run_defs)

theorem guessState_transitions_witness:
  "collaboratorsKeep lateDefinitionCollaborators \<and> resolvedSound freshModuleState
   \<and> (\<exists>S1 S2.
         runCalls lateDefinitionCollaborators moduleCalls freshModuleState = Some S1
       \<and> runCalls lateDefinitionCollaborators
           [Call_Propagate, Call_BuildEvaluateReferences 5 0] S1 = Some S2
       \<and> statusesAdvance freshModuleState S1 \<and> resolvedSound S1
       \<and> statusesAdvance S1 S2 \<and> resolvedSound S2
       \<and> map_option guessState (lookupStatus S1 ''<global>'' ''foo'') = Some GuessState_Guessed
       \<and> map_option guessState (lookupStatus S1 ''<global>'' ''mk'')
           = Some GuessState_WaitingForLoad
       \<and> map_option guessState (lookupStatus S2 ''<global>'' ''foo'')
           = Some GuessState_WaitingForLoad
       \<and> map_option guessState (lookupStatus S2 ''<global>'' ''mk'')
           = Some GuessState_Resolved)"
proof -
  from freshModule_runs obtain S1 S2 where
    1: "runCalls lateDefinitionCollaborators moduleCalls freshModuleState = Some S1"
    and g1: "map_option guessState (lookupStatus S1 ''<global>'' ''foo'')
               = Some GuessState_Guessed"
         "map_option guessState (lookupStatus S1 ''<global>'' ''mk'')
               = Some GuessState_WaitingForLoad"
    and 2: "runCalls lateDefinitionCollaborators
              [Call_Propagate, Call_BuildEvaluateReferences 5 0] S1 = Some S2"
    and g2: "map_option guessState (lookupStatus S2 ''<global>'' ''foo'')
               = Some GuessState_WaitingForLoad"
         "map_option guessState (lookupStatus S2 ''<global>'' ''mk'')
               = Some GuessState_Resolved"
    by blast
  note first = guessState_transitions[OF lateDefinitionCollaborators_keep
                 freshModuleState_sound 1]
  then have a1: "statusesAdvance freshModuleState S1" and sound1: "resolvedSound S1"
    by blast+
  note second = guessState_transitions[OF lateDefinitionCollaborators_keep sound1 2]
  then have "statusesAdvance S1 S2" "resolvedSound S2" by blast+
  with 1 2 a1 sound1 g1 g2 lateDefinitionCollaborators_keep freshModuleState_sound
  show ?thesis by blast
qed

text \<open>
  The claim as it was stated fails in two passes of \<^verbatim>\<open>BuildEvaluateReferences\<close>, each
  after a propagation: the first pass guesses the unknown \<^verbatim>\<open>foo\<close> and loads the macro
  \<^verbatim>\<open>mk\<close>, whose invocation defines the macro \<^verbatim>\<open>foo\<close>; the second pass finds \<^verbatim>\<open>foo\<close>
  defined and not loaded, and sets the guessed status to \<^verbatim>\<open>WaitingForLoad\<close>.
\<close>

theorem guessState_transitions_counterexample:
  "BuildEvaluateReferences 5 lateDefinitionCollaborators (propagated lateDefinitionState) 0
     = Some (1, 0, afterFirstPass)
   \<and> map_option guessState (lookupStatus afterFirstPass ''<global>'' ''foo'')
       = Some GuessState_Guessed
   \<and> BuildEvaluateReferences 5 lateDefinitionCollaborators (propagated afterFirstPass) 0
       = Some (0, 0, afterSecondPass)
   \<and> map_option guessState (lookupStatus afterSecondPass ''<global>'' ''foo'')
       = Some GuessState_WaitingForLoad"
proof -
  have first: "\<exists>S. BuildEvaluateReferences 5 lateDefinitionCollaborators
                     (propagated lateDefinitionState) 0 = Some (1, 0, S)
          \<and> map_option guessState (lookupStatus S ''<global>'' ''foo'') = Some GuessState_Guessed
          \<and> (\<exists>S2. BuildEvaluateReferences 5 lateDefinitionCollaborators (propagated S) 0
                      = Some (0, 0, S2)
                \<and> map_option guessState (lookupStatus S2 ''<global>'' ''foo'')
                    = Some GuessState_WaitingForLoad)"
    by (simp add: eval_nat_numeral propagated_def lateDefinitionState_def
        lateDefinitionCollaborators_def callStatus_def callReference_def
        addObjectDefinition_def resolveReference_def markResolved_def setLoaded_def
        installCompileTimeFunction_def resetGeneratorOutput_def
        HandleInvocation_Recursive.simps EvaluateGenerate_Recursive.simps
        dispatchInvocation_def dispatchMacro_def emptyGeneratorOutput_def
        example_defs run_defs)
  then obtain S S2 where
    1: "BuildEvaluateReferences 5 lateDefinitionCollaborators
          (propagated lateDefinitionState) 0 = Some (1, 0, S)"
    and 2: "map_option guessState (lookupStatus S ''<global>'' ''foo'') = Some GuessState_Guessed"
    and 3: "BuildEvaluateReferences 5 lateDefinitionCollaborators (propagated S) 0
              = Some (0, 0, S2)"
    and 4: "map_option guessState (lookupStatus S2 ''<global>'' ''foo'')
              = Some GuessState_WaitingForLoad"
    by blast
  have a: "afterFirstPass = S" by (simp add: afterFirstPass_def 1)
  have b: "afterSecondPass = S2" by (simp add: afterSecondPass_def a 3)
  from 1 2 3 4 a b show ?thesis by simp
qed

section \<open>Reuse of a cached library\<close>

lemma leavesObject_refl: "leavesObject i acc acc"
  by (simp add: leavesObject_def)

lemma leavesObject_trans:
  "leavesObject i a b \<Longrightarrow> leavesObject i b c \<Longrightarrow> leavesObject i a c"
  by (auto simp: leavesObject_def)

lemma fold_closeProcess:
  "length (fold (closeProcess X) ps objs) = length objs
   \<and> (i \<notin> fst ` set ps \<longrightarrow> fold (closeProcess X) ps objs ! i = objs ! i)"
proof (induction ps arbitrary: objs)
  case Nil
  show ?case by simp
next
  case (Cons p ps)
  have 1: "length (closeProcess X p objs) = length objs"
    by (simp add: closeProcess_def)
  have 2: "i \<noteq> fst p \<Longrightarrow> closeProcess X p objs ! i = objs ! i"
    by (simp add: closeProcess_def)
  from Cons.IH[of "closeProcess X p objs"] 1 2 show ?case by auto
qed

lemma leavesObject_wait: "leavesObject i (S, objs) (waitForAllProcessesClosed X (S, objs))"
  using fold_closeProcess[of X "runningProcesses S" objs i]
  by (simp add: leavesObject_def waitForAllProcessesClosed_def spawnsFor_def spawnedFor_def)

lemma leavesObject_spawn:
  "j \<noteq> i \<Longrightarrow> leavesObject i (S, objs) (spawnProcess X j arguments S, objs)"
  by (auto simp: leavesObject_def spawnProcess_def spawnsFor_def spawnedFor_def)

lemma leavesObject_report: "leavesObject i (S, objs) (report d S, objs)"
  by (simp add: leavesObject_def report_def spawnsFor_def)

lemma leavesObject_update:
  "j \<noteq> i \<Longrightarrow> leavesObject i (S, objs) (S, objs[j := obj])"
  by (simp add: leavesObject_def)

lemma leavesObject_compile:
  assumes "j \<noteq> i"
  shows "leavesObject i acc (fst (compileBuildObject X j (acc, c)))"
proof -
  obtain S objs where acc: "acc = (S, objs)" by (cases acc)
  have upd: "\<And>obj. leavesObject i (S, objs) (S, objs[j := obj])"
    using assms by (rule leavesObject_update)
  have rep: "\<And>d obj. leavesObject i (S, objs) (report d S, objs[j := obj])"
    using assms by (simp add: leavesObject_def report_def spawnsFor_def)
  have sp: "\<And>a obj. leavesObject i (S, objs) (spawnProcess X j a S, objs[j := obj])"
    using assms by (auto simp: leavesObject_def spawnProcess_def spawnsFor_def spawnedFor_def)
  have spw: "\<And>a obj. leavesObject i (S, objs)
                (waitForAllProcessesClosed X (spawnProcess X j a S, objs[j := obj]))"
    using leavesObject_trans[OF sp leavesObject_wait] by blast
  show ?thesis
    unfolding acc compileBuildObject_def
    by (auto simp: Let_def leavesObject_refl upd rep sp spw split: option.splits)
qed

lemma leavesObject_link:
  assumes "j \<noteq> i"
  shows "leavesObject i acc (linkBuildObject X j acc)"
proof -
  obtain S objs where acc: "acc = (S, objs)" by (cases acc)
  have sp: "\<And>a obj. leavesObject i (S, objs) (spawnProcess X j a S, objs[j := obj])"
    using assms by (auto simp: leavesObject_def spawnProcess_def spawnsFor_def spawnedFor_def)
  show ?thesis
    unfolding acc linkBuildObject_def
    by (auto simp: leavesObject_refl leavesObject_report sp split: option.splits)
qed

lemma leavesObject_fold_compile:
  assumes "i \<notin> set js"
  shows "leavesObject i acc (fst (fold (compileBuildObject X) js (acc, c)))"
  using assms
proof (induction js arbitrary: acc c)
  case Nil
  show ?case by (simp add: leavesObject_refl)
next
  case (Cons j js)
  obtain acc1 c1 where step: "compileBuildObject X j (acc, c) = (acc1, c1)"
    by (cases "compileBuildObject X j (acc, c)")
  have 1: "leavesObject i acc acc1"
    using leavesObject_compile[of j i acc X c] Cons.prems by (simp add: step)
  have 2: "leavesObject i acc1 (fst (fold (compileBuildObject X) js (acc1, c1)))"
    using Cons.IH Cons.prems by simp
  from leavesObject_trans[OF 1 2] show ?case by (simp add: step)
qed

lemma leavesObject_fold_link:
  assumes "i \<notin> set js"
  shows "leavesObject i acc (fold (linkBuildObject X) js acc)"
  using assms
proof (induction js arbitrary: acc)
  case Nil
  show ?case by (simp add: leavesObject_refl)
next
  case (Cons j js)
  have 1: "leavesObject i acc (linkBuildObject X j acc)"
    using leavesObject_link[of j i acc X] Cons.prems by simp
  have 2: "leavesObject i (linkBuildObject X j acc)
             (fold (linkBuildObject X) js (linkBuildObject X j acc))"
    using Cons.IH Cons.prems by simp
  from leavesObject_trans[OF 1 2] show ?case by simp
qed

lemma upt_split_at: "i < n \<Longrightarrow> [0..<n] = [0..<i] @ i # [Suc i..<n]"
  using upt_add_eq_append[of 0 i "n - i"] upt_conv_Cons[of i n] by simp

lemma compileBuildObject_cached:
  assumes "map_of (definitions (environment S)) (definition' (objs ! i)) = Some d"
    and "writeGeneratorOutput X (outputs S) (output' d) (ObjectDefinition.type d)
           (cakelispWorkingDir @ ''/'' @ artifactsNameOf X d)"
    and "\<not> fileIsMoreRecentlyModified X (sourceOutputNameOf (artifactsNameOf X d))
             (dynamicLibraryOutOf (artifactsNameOf X d))"
  shows "compileBuildObject X i ((S, objs), c)
           = ((S, objs[i := cachedBuildObject X d (objs ! i)]), c)"
  using assms
  by (simp add: compileBuildObject_def Let_def cachedBuildObject_def)

lemma linkBuildObject_skip:
  "stage (snd acc ! i) \<noteq> BuildStage_Compiling \<Longrightarrow> linkBuildObject X i acc = acc"
  by (cases acc) (simp add: linkBuildObject_def)

lemma compilePhase_cached:
  assumes i: "i < length objs"
    and idle: "i \<notin> fst ` set (runningProcesses S)"
    and d: "map_of (definitions (environment S)) (definition' (objs ! i)) = Some d"
    and w: "writeGeneratorOutput X (outputs S) (output' d) (ObjectDefinition.type d)
           (cakelispWorkingDir @ ''/'' @ artifactsNameOf X d)"
    and f: "\<not> fileIsMoreRecentlyModified X (sourceOutputNameOf (artifactsNameOf X d))
             (dynamicLibraryOutOf (artifactsNameOf X d))"
    and phase: "compilePhase X (S, objs) = (S', objs')"
  shows "environment S' = environment S \<and> outputs S' = outputs S
       \<and> length objs' = length objs
       \<and> i \<notin> fst ` set (runningProcesses S')
       \<and> spawnsFor i S' = spawnsFor i S
       \<and> objs' ! i = cachedBuildObject X d (objs ! i)"
proof -
  let ?cached = "cachedBuildObject X d (objs ! i)"
  obtain S1 objs1 c1 where before:
    "fold (compileBuildObject X) [0..<i] ((S, objs), 0) = ((S1, objs1), c1)"
    by (metis surj_pair)
  have l1: "leavesObject i (S, objs) (S1, objs1)"
    using leavesObject_fold_compile[of i "[0..<i]" "(S, objs)" X 0] by (simp add: before)
  then have e1: "environment S1 = environment S" "outputs S1 = outputs S"
    "length objs1 = length objs" "i \<notin> fst ` set (runningProcesses S1)"
    "objs1 ! i = objs ! i" "spawnsFor i S1 = spawnsFor i S"
    using idle by (simp_all add: leavesObject_def)
  have here: "compileBuildObject X i ((S1, objs1), c1) = ((S1, objs1[i := ?cached]), c1)"
    using compileBuildObject_cached[of S1 objs1 i d X c1] d w f e1 by simp
  obtain S2 objs2 c2 where after:
    "fold (compileBuildObject X) [Suc i..<length objs] ((S1, objs1[i := ?cached]), c1)
       = ((S2, objs2), c2)"
    by (metis surj_pair)
  have l2: "leavesObject i (S1, objs1[i := ?cached]) (S2, objs2)"
    using leavesObject_fold_compile[of i "[Suc i..<length objs]" "(S1, objs1[i := ?cached])" X c1]
    by (simp add: after)
  have l3: "leavesObject i (S2, objs2) (waitForAllProcessesClosed X (S2, objs2))"
    by (rule leavesObject_wait)
  have whole: "compilePhase X (S, objs) = waitForAllProcessesClosed X (S2, objs2)"
    by (simp add: compilePhase_def upt_split_at[OF i] before here after)
  from leavesObject_trans[OF l2 l3] have
    "leavesObject i (S1, objs1[i := ?cached]) (S', objs')"
    using whole phase by simp
  with e1 i show ?thesis
    by (simp add: leavesObject_def)
qed

lemma linkPhase_linking:
  assumes i: "i < length objs"
    and idle: "i \<notin> fst ` set (runningProcesses S)"
    and st: "stage (objs ! i) \<noteq> BuildStage_Compiling"
    and phase: "linkPhase X (S, objs) = (S', objs')"
  shows "environment S' = environment S \<and> outputs S' = outputs S
       \<and> length objs' = length objs \<and> spawnsFor i S' = spawnsFor i S \<and> objs' ! i = objs ! i"
proof -
  obtain S1 objs1 where before: "fold (linkBuildObject X) [0..<i] (S, objs) = (S1, objs1)"
    by (metis surj_pair)
  have l1: "leavesObject i (S, objs) (S1, objs1)"
    using leavesObject_fold_link[of i "[0..<i]" "(S, objs)" X] by (simp add: before)
  then have e1: "objs1 ! i = objs ! i" using idle by (simp add: leavesObject_def)
  have here: "linkBuildObject X i (S1, objs1) = (S1, objs1)"
    using linkBuildObject_skip[of "(S1, objs1)" i X] st e1 by simp
  have l2: "leavesObject i (S1, objs1)
              (fold (linkBuildObject X) [Suc i..<length objs] (S1, objs1))"
    using leavesObject_fold_link[of i "[Suc i..<length objs]" "(S1, objs1)" X] by simp
  have l3: "leavesObject i (fold (linkBuildObject X) [Suc i..<length objs] (S1, objs1))
              (waitForAllProcessesClosed X
                 (fold (linkBuildObject X) [Suc i..<length objs] (S1, objs1)))"
    using leavesObject_wait by (metis surj_pair)
  have whole: "linkPhase X (S, objs)
                 = waitForAllProcessesClosed X
                     (fold (linkBuildObject X) [Suc i..<length objs] (S1, objs1))"
    by (simp add: linkPhase_def upt_split_at[OF i] before here)
  from leavesObject_trans[OF l1 leavesObject_trans[OF l2 l3]]
  have "leavesObject i (S, objs) (S', objs')"
    using whole phase by simp
  with idle show ?thesis by (simp add: leavesObject_def)
qed

text \<open>
  C7, as the code has it.  The library whose existence and age decide the reuse is
  \<^verbatim>\<open>cakelisp_cache/libcomptime_<name>.so\<close>, with \<^verbatim>\<open><name>\<close> the definition's name in the
  underscore style, and the source it is compared with is
  \<^verbatim>\<open>cakelisp_cache/comptime_<name>.cpp\<close>, written first.  When the output was written and
  the source is not newer than that library, the compile and link loops spawn no process for the
  object: it leaves them at stage \<^verbatim>\<open>Linking\<close> with status 0 and the library's path.  The
  load loop then opens that library, looks the function up under the definition's name in the
  function name style, installs it in the macro or generator table, resolves the references of
  the definition's pool, marks the definition loaded and the object \<^verbatim>\<open>Finished\<close>; a library
  that does not load, a symbol that is not found and a missing pool are reported and end the
  step.
\<close>

theorem cached_library_skips_compile_and_link:
  assumes "i < length objs"
    and "i \<notin> fst ` set (runningProcesses S)"
    and "map_of (definitions (environment S)) (definition' (objs ! i)) = Some d"
    and "writeGeneratorOutput X (outputs S) (output' d) (ObjectDefinition.type d)
           (cakelispWorkingDir @ ''/'' @ artifactsNameOf X d)"
    and "\<not> fileIsMoreRecentlyModified X (sourceOutputNameOf (artifactsNameOf X d))
             (dynamicLibraryOutOf (artifactsNameOf X d))"
    and "linkPhase X (compilePhase X (S, objs)) = (S', objs')"
  shows "spawnsFor i S' = spawnsFor i S
       \<and> objs' ! i = cachedBuildObject X d (objs ! i)
       \<and> stage (objs' ! i) = BuildStage_Linking \<and> status (objs' ! i) = 0
       \<and> dynamicLibraryPath (objs' ! i)
           = ''cakelisp_cache/libcomptime_''
               @ lispNameStyleToCNameStyle X NameStyleMode_Underscores
                   (contents (ObjectDefinition.name d)) @ ''.so''
       \<and> sourceOutputNameOf (artifactsNameOf X d)
           = ''cakelisp_cache/comptime_''
               @ lispNameStyleToCNameStyle X NameStyleMode_Underscores
                   (contents (ObjectDefinition.name d)) @ ''.cpp''
       \<and> environment S' = environment S
       \<and> loadBuildObject fuel X i ((S', objs'), numErrorsOut, numReferencesResolved)
           = (case loadDynamicLibrary X
                       (''cakelisp_cache/libcomptime_''
                          @ lispNameStyleToCNameStyle X NameStyleMode_Underscores
                              (contents (ObjectDefinition.name d)) @ ''.so'') of
                 None \<Rightarrow>
                   Some ((report (ErrorAtToken (ObjectDefinition.name d)
                                    ''Failed to load compile-time library'') S',
                          objs'[i := (objs' ! i)\<lparr>stage := BuildStage_Loading\<rparr>]),
                         numErrorsOut, numReferencesResolved)
               | Some builtLib \<Rightarrow>
                   (case getSymbolFromDynamicLibrary X builtLib
                           (lispNameStyleToCNameStyle X (functionNameMode X)
                              (contents (ObjectDefinition.name d))) of
                      None \<Rightarrow>
                        Some ((report (ErrorAtToken (ObjectDefinition.name d)
                                         ''Failed to find symbol in loaded library'') S',
                               objs'[i := (objs' ! i)\<lparr>stage := BuildStage_Loading\<rparr>]),
                              numErrorsOut, numReferencesResolved)
                    | Some compileTimeFunction \<Rightarrow>
                        (case referencePools
                                (environment (installCompileTimeFunction d compileTimeFunction S'))
                                (contents (ObjectDefinition.name d)) of
                           None \<Rightarrow>
                             Some ((report (Printed
                                      (''Error: built an object which had no references. It ''
                                       @ ''should not have been required. There must be a ''
                                       @ ''problem with Cakelisp internally\<newline>''))
                                      (installCompileTimeFunction d compileTimeFunction S'),
                                    objs'[i := (objs' ! i)
                                                 \<lparr>stage := BuildStage_ResolvingReferences\<rparr>]),
                                   numErrorsOut, numReferencesResolved)
                         | Some pool \<Rightarrow>
                             (case resolveReferences fuel X (contents (ObjectDefinition.name d))
                                     [0..<length pool]
                                     (installCompileTimeFunction d compileTimeFunction S',
                                      numErrorsOut, numReferencesResolved) of
                                None \<Rightarrow> None
                              | Some (S2, numErrorsOut', numReferencesResolved') \<Rightarrow>
                                  Some ((setLoaded (definition' (objs ! i)) S2,
                                         objs'[i := (objs' ! i)\<lparr>stage := BuildStage_Finished\<rparr>]),
                                        numErrorsOut', numReferencesResolved')))))"
proof -
  obtain S1 objs1 where c: "compilePhase X (S, objs) = (S1, objs1)"
    by (cases "compilePhase X (S, objs)")
  note c1 = compilePhase_cached[OF assms(1-5) c]
  have l: "linkPhase X (S1, objs1) = (S', objs')" using assms(6) c by simp
  have "stage (objs1 ! i) \<noteq> BuildStage_Compiling"
    using c1 by (simp add: cachedBuildObject_def)
  note l1 = linkPhase_linking[OF _ _ this l]
  have l2: "environment S' = environment S1 \<and> outputs S' = outputs S1
       \<and> length objs' = length objs1 \<and> spawnsFor i S' = spawnsFor i S1 \<and> objs' ! i = objs1 ! i"
    using l1 c1 assms(1) by simp
  have obj: "objs' ! i = cachedBuildObject X d (objs ! i)" using l2 c1 by simp
  have def': "definition' (objs' ! i) = definition' (objs ! i)"
    by (simp add: obj cachedBuildObject_def)
  have env: "environment S' = environment S" using l2 c1 by simp
  have paths: "dynamicLibraryPath (objs' ! i)
           = ''cakelisp_cache/libcomptime_''
               @ lispNameStyleToCNameStyle X NameStyleMode_Underscores
                   (contents (ObjectDefinition.name d)) @ ''.so''"
    "sourceOutputNameOf (artifactsNameOf X d)
           = ''cakelisp_cache/comptime_''
               @ lispNameStyleToCNameStyle X NameStyleMode_Underscores
                   (contents (ObjectDefinition.name d)) @ ''.cpp''"
    by (simp_all add: obj cachedBuildObject_def dynamicLibraryOutOf_def sourceOutputNameOf_def
        artifactsNameOf_def cakelispWorkingDir_def)
  have ready: "stage (objs' ! i) = BuildStage_Linking" "status (objs' ! i) = 0"
    by (simp_all add: obj cachedBuildObject_def)
  have found: "map_of (definitions (environment S')) (definition' (objs' ! i)) = Some d"
    using assms(3) by (simp add: env def')
  have load0: "loadBuildObject fuel X i ((S', objs'), numErrorsOut, numReferencesResolved)
           = (case loadDynamicLibrary X
                       (dynamicLibraryPath (objs' ! i)) of
                 None \<Rightarrow>
                   Some ((report (ErrorAtToken (ObjectDefinition.name d)
                                    ''Failed to load compile-time library'') S',
                          objs'[i := (objs' ! i)\<lparr>stage := BuildStage_Loading\<rparr>]),
                         numErrorsOut, numReferencesResolved)
               | Some builtLib \<Rightarrow>
                   (case getSymbolFromDynamicLibrary X builtLib
                           (lispNameStyleToCNameStyle X (functionNameMode X)
                              (contents (ObjectDefinition.name d))) of
                      None \<Rightarrow>
                        Some ((report (ErrorAtToken (ObjectDefinition.name d)
                                         ''Failed to find symbol in loaded library'') S',
                               objs'[i := (objs' ! i)\<lparr>stage := BuildStage_Loading\<rparr>]),
                              numErrorsOut, numReferencesResolved)
                    | Some compileTimeFunction \<Rightarrow>
                        (case referencePools
                                (environment (installCompileTimeFunction d compileTimeFunction S'))
                                (contents (ObjectDefinition.name d)) of
                           None \<Rightarrow>
                             Some ((report (Printed
                                      (''Error: built an object which had no references. It ''
                                       @ ''should not have been required. There must be a ''
                                       @ ''problem with Cakelisp internally\<newline>''))
                                      (installCompileTimeFunction d compileTimeFunction S'),
                                    objs'[i := (objs' ! i)
                                                 \<lparr>stage := BuildStage_ResolvingReferences\<rparr>]),
                                   numErrorsOut, numReferencesResolved)
                         | Some pool \<Rightarrow>
                             (case resolveReferences fuel X (contents (ObjectDefinition.name d))
                                     [0..<length pool]
                                     (installCompileTimeFunction d compileTimeFunction S',
                                      numErrorsOut, numReferencesResolved) of
                                None \<Rightarrow> None
                              | Some (S2, numErrorsOut', numReferencesResolved') \<Rightarrow>
                                  Some ((setLoaded (definition' (objs' ! i)) S2,
                                         objs'[i := (objs' ! i)\<lparr>stage := BuildStage_Finished\<rparr>]),
                                        numErrorsOut', numReferencesResolved')))))"
    unfolding loadBuildObject_def Let_def
    by (simp add: ready found)
  note load = load0[unfolded paths(1) def']
  have "spawnsFor i S' = spawnsFor i S" using l2 c1 by simp
  with obj ready paths env load show ?thesis by (simp only: simp_thms)
qed

lemma cachedMacroState_facts:
  "0 < length [newBuildObject 1 ''m'']"
  "0 \<notin> fst ` set (runningProcesses cachedMacroState)"
  "map_of (definitions (environment cachedMacroState)) (definition' ([newBuildObject 1 ''m''] ! 0))
     = Some (snd (definitionOf ''m'' ObjectType_CompileTimeMacro True []))"
  "writeGeneratorOutput loadingCollaborators (outputs cachedMacroState)
     (output' (snd (definitionOf ''m'' ObjectType_CompileTimeMacro True [])))
     (ObjectDefinition.type (snd (definitionOf ''m'' ObjectType_CompileTimeMacro True [])))
     (cakelispWorkingDir @ ''/'' @ artifactsNameOf loadingCollaborators
        (snd (definitionOf ''m'' ObjectType_CompileTimeMacro True [])))"
  "\<not> fileIsMoreRecentlyModified loadingCollaborators
       (sourceOutputNameOf (artifactsNameOf loadingCollaborators
          (snd (definitionOf ''m'' ObjectType_CompileTimeMacro True []))))
       (dynamicLibraryOutOf (artifactsNameOf loadingCollaborators
          (snd (definitionOf ''m'' ObjectType_CompileTimeMacro True []))))"
  "spawnsFor 0 cachedMacroState = []"
  by (simp_all add: cachedMacroState_def loadingCollaborators_def newBuildObject_def
      spawnsFor_def example_defs run_defs)

lemma cachedMacroState_phases:
  "linkPhase loadingCollaborators
     (compilePhase loadingCollaborators (cachedMacroState, [newBuildObject 1 ''m'']))
   = (cachedMacroState\<lparr>runningProcesses := [],
        processLog := [WaitedForAllProcessesClosed, WaitedForAllProcessesClosed]\<rparr>,
      [cachedBuildObject loadingCollaborators
         (snd (definitionOf ''m'' ObjectType_CompileTimeMacro True []))
         (newBuildObject 1 ''m'')])"
  by (simp add: cachedMacroState_def loadingCollaborators_def cachedBuildObject_def
      callStatus_def callReference_def example_defs run_defs)

theorem cached_library_skips_compile_and_link_witness:
  "\<not> fileIsMoreRecentlyModified loadingCollaborators
       (sourceOutputNameOf (artifactsNameOf loadingCollaborators
          (snd (definitionOf ''m'' ObjectType_CompileTimeMacro True []))))
       (dynamicLibraryOutOf (artifactsNameOf loadingCollaborators
          (snd (definitionOf ''m'' ObjectType_CompileTimeMacro True []))))
   \<and> processLog (fst (linkPhase loadingCollaborators
         (compilePhase loadingCollaborators (cachedMacroState, [newBuildObject 1 ''m'']))))
       = [WaitedForAllProcessesClosed, WaitedForAllProcessesClosed]
   \<and> map (\<lambda>obj. (stage obj, status obj, dynamicLibraryPath obj))
        (snd (linkPhase loadingCollaborators
           (compilePhase loadingCollaborators (cachedMacroState, [newBuildObject 1 ''m'']))))
       = [(BuildStage_Linking, 0, ''cakelisp_cache/libcomptime_m.so'')]
   \<and> map_option
        (\<lambda>r. (macros (environment (fst (fst r))) ''m'',
              map_option isLoaded (map_of (definitions (environment (fst (fst r)))) ''m''),
              map_option (map isResolved) (referencePools (environment (fst (fst r))) ''m''),
              map stage (snd (fst r)), snd r, diagnostics (fst (fst r))))
        (loadBuildObject 3 loadingCollaborators 0
           (linkPhase loadingCollaborators
              (compilePhase loadingCollaborators (cachedMacroState, [newBuildObject 1 ''m''])),
            0, 0))
       = Some (Some 1, Some True, Some [True], [BuildStage_Finished], (0, 1), [])"
proof -
  let ?X = loadingCollaborators
  let ?d = "snd (definitionOf ''m'' ObjectType_CompileTimeMacro True [])"
  let ?S' = "cachedMacroState\<lparr>runningProcesses := [],
               processLog := [WaitedForAllProcessesClosed, WaitedForAllProcessesClosed]\<rparr>"
  let ?objs' = "[cachedBuildObject ?X ?d (newBuildObject 1 ''m'')]"
  note t = cached_library_skips_compile_and_link[OF cachedMacroState_facts(1-5)
             cachedMacroState_phases, of 3 0 0]
  have object: "map (\<lambda>obj. (stage obj, status obj, dynamicLibraryPath obj)) ?objs'
                  = [(BuildStage_Linking, 0, ''cakelisp_cache/libcomptime_m.so'')]"
    by (simp add: cachedBuildObject_def loadingCollaborators_def example_defs run_defs)
  note tl = t[THEN conjunct2, THEN conjunct2, THEN conjunct2, THEN conjunct2, THEN conjunct2,
              THEN conjunct2, THEN conjunct2]
  have f4: "contents (ObjectDefinition.name ?d) = ''m''"
    "definition' ([newBuildObject 1 ''m''] ! 0) = ''m''"
    by (simp_all add: definitionOf_def symbolToken_def newBuildObject_def)
  have f1: "loadDynamicLibrary ?X
              (''cakelisp_cache/libcomptime_''
                 @ lispNameStyleToCNameStyle ?X NameStyleMode_Underscores ''m'' @ ''.so'') = Some 0"
    by (simp add: loadingCollaborators_def exampleCollaborators_def)
  have f2: "getSymbolFromDynamicLibrary ?X 0
              (lispNameStyleToCNameStyle ?X (functionNameMode ?X) ''m'') = Some 1"
    by (simp add: loadingCollaborators_def exampleCollaborators_def)
  have f3: "referencePools (environment (installCompileTimeFunction ?d 1 ?S')) ''m''
              = Some [callReference ''m'' 1]"
    by (simp add: installCompileTimeFunction_def cachedMacroState_def definitionOf_def
        stateOf_def environmentOf_def)
  have load: "loadBuildObject 3 ?X 0 ((?S', ?objs'), 0, 0)
                = (case resolveReferences 3 ?X ''m'' [0..<length [callReference ''m'' 1]]
                          (installCompileTimeFunction ?d 1 ?S', 0, 0) of
                     None \<Rightarrow> None
                   | Some (S2, numErrorsOut', numReferencesResolved') \<Rightarrow>
                       Some ((setLoaded ''m'' S2,
                              ?objs'[0 := (?objs' ! 0)\<lparr>stage := BuildStage_Finished\<rparr>]),
                             numErrorsOut', numReferencesResolved'))"
    by (simp only: tl f4 f1 f2 f3 option.case)
  have resolved: "map_option
        (\<lambda>r. (macros (environment (fst (fst r))) ''m'',
              map_option isLoaded (map_of (definitions (environment (fst (fst r)))) ''m''),
              map_option (map isResolved) (referencePools (environment (fst (fst r))) ''m''),
              map stage (snd (fst r)), snd r, diagnostics (fst (fst r))))
        (loadBuildObject 3 ?X 0 ((?S', ?objs'), 0, 0))
       = Some (Some 1, Some True, Some [True], [BuildStage_Finished], (0, 1), [])"
    unfolding load
    by (simp add: eval_nat_numeral loadingCollaborators_def cachedMacroState_def
        installCompileTimeFunction_def setLoaded_def markResolved_def resolveReference_def
        resetGeneratorOutput_def callStatus_def callReference_def cachedBuildObject_def
        HandleInvocation_Recursive.simps EvaluateGenerate_Recursive.simps
        EvaluateGenerateAll_Recursive.simps EvaluateGenerateAll_loop.simps
        dispatchInvocation_def dispatchMacro_def expansionEvaluated_def
        emptyGeneratorOutput_def example_defs run_defs)
  show ?thesis
    using cachedMacroState_facts(5) object resolved
    by (simp add: cachedMacroState_phases)
qed

text \<open>
  With the library at \<^verbatim>\<open>cakelisp_cache/lib<name>.so\<close>, as the claim was stated, and the source
  not newer than it, the pass still compiles and links the macro \<^verbatim>\<open>m\<close>.
\<close>

theorem cached_library_skips_compile_and_link_counterexample:
  "\<not> fileIsMoreRecentlyModified libNameCollaborators
       ''cakelisp_cache/comptime_m.cpp'' ''cakelisp_cache/libm.so''
   \<and> lispNameStyleToCNameStyle libNameCollaborators NameStyleMode_Underscores ''m'' = ''m''
   \<and> map_option (processLog \<circ> snd \<circ> snd)
         (BuildEvaluateReferences 3 libNameCollaborators macroOnlyState 0)
       = Some [ProcessSpawned 0
                 [''/usr/bin/clang++'', ''-g'', ''-c'', ''cakelisp_cache/comptime_m.cpp'', ''-o'',
                  ''cakelisp_cache/comptime_m.o'', ''-Isrc/'', ''-fPIC''],
               WaitedForAllProcessesClosed,
               ProcessSpawned 0
                 [''/usr/bin/clang++'', ''-shared'', ''-o'', ''cakelisp_cache/libcomptime_m.so'',
                  ''cakelisp_cache/comptime_m.o''],
               WaitedForAllProcessesClosed]"
  by (simp add: eval_nat_numeral macroOnlyState_def libNameCollaborators_def
      example_defs run_defs)

section \<open>Waves of compiler and linker processes\<close>

lemma waveState_append:
  "waveState (xs @ ys) = fold waveStep ys (waveState xs)"
  by (simp add: waveState_def)

lemma waveState_spawn:
  "waveState (xs @ [ProcessSpawned i arguments]) = (fst (waveState xs), snd (waveState xs) + 1)"
  by (simp add: waveState_append waveStep_def)

lemma waveState_wait:
  "waveState (xs @ [WaitedForAllProcessesClosed])
     = (fst (waveState xs) @ [snd (waveState xs)], 0)"
  by (simp add: waveState_append waveStep_def)

lemma closeProcess_fields:
  "length (closeProcess X p objs) = length objs
   \<and> map definition' (closeProcess X p objs) = map definition' objs
   \<and> map stage (closeProcess X p objs) = map stage objs"
  by (simp add: closeProcess_def map_update list_update_same_conv)

lemma fold_closeProcess_fields:
  "length (fold (closeProcess X) ps objs) = length objs
   \<and> map definition' (fold (closeProcess X) ps objs) = map definition' objs
   \<and> map stage (fold (closeProcess X) ps objs) = map stage objs"
proof (induction ps arbitrary: objs)
  case Nil
  show ?case by simp
next
  case (Cons p ps)
  show ?case using Cons.IH[of "closeProcess X p objs"] closeProcess_fields[of X p objs]
    by simp
qed

lemma fold_closeProcess_status:
  assumes "\<forall>arguments. processExitStatus X arguments = 0"
    and "i < length objs"
    and "status (objs ! i) = 0 \<or> i \<in> fst ` set ps"
  shows "status (fold (closeProcess X) ps objs ! i) = 0"
  using assms(2,3)
proof (induction ps arbitrary: objs)
  case Nil
  then show ?case by simp
next
  case (Cons p ps)
  have len: "i < length (closeProcess X p objs)"
    using Cons.prems(1) by (simp add: closeProcess_def)
  have "status (closeProcess X p objs ! i) = 0 \<or> i \<in> fst ` set ps"
  proof (cases "i = fst p")
    case True
    then show ?thesis using Cons.prems(1) assms(1) by (simp add: closeProcess_def)
  next
    case False
    then have "closeProcess X p objs ! i = objs ! i"
      by (simp add: closeProcess_def)
    with False Cons.prems(2) show ?thesis by auto
  qed
  from Cons.IH[OF len this] show ?case by simp
qed

lemma compileBuildObject_spawn:
  assumes "alwaysBuilds X"
    and "map_of (definitions (environment S)) (definition' (objs ! i)) = Some d"
  shows "compileBuildObject X i ((S, objs), n) =
     (if maxProcessesSpawned \<le> n + 1
      then (waitForAllProcessesClosed X
              (spawnProcess X i (compileArguments (artifactsNameOf X d)) S,
               objs[i := (objs ! i)\<lparr>artifactsName := artifactsNameOf X d,
                                      stage := BuildStage_Compiling,
                                      buildObjectName := buildObjectNameOf (artifactsNameOf X d),
                                      dynamicLibraryPath := dynamicLibraryOutOf (artifactsNameOf X d)\<rparr>]),
            0)
      else ((spawnProcess X i (compileArguments (artifactsNameOf X d)) S,
             objs[i := (objs ! i)\<lparr>artifactsName := artifactsNameOf X d,
                                    stage := BuildStage_Compiling,
                                    buildObjectName := buildObjectNameOf (artifactsNameOf X d),
                                    dynamicLibraryPath := dynamicLibraryOutOf (artifactsNameOf X d)\<rparr>]),
            n + 1))"
  using assms by (simp add: compileBuildObject_def alwaysBuilds_def Let_def)

lemma compiledUpToI:
  assumes "n = k mod 8"
    and "environment S' = environment S"
    and "length objs' = length objs"
    and "map definition' objs' = map definition' objs"
    and "waveState (processLog S') = (closed @ replicate (k div 8) 8, k mod 8)"
    and "fst ` set (runningProcesses S') \<subseteq> {..<k}"
    and "\<forall>i<k. stage (objs' ! i) = BuildStage_Compiling
                 \<and> (status (objs' ! i) = 0 \<or> i \<in> fst ` set (runningProcesses S'))"
  shows "compiledUpTo S objs closed k ((S', objs'), n)"
  using assms by (simp add: compiledUpTo_def maxProcessesSpawned_def list_all_iff)

lemma compiledUpTo_step:
  assumes U: "alwaysBuilds X"
    and defs: "list_all (\<lambda>obj. map_of (definitions (environment S)) (definition' obj) \<noteq> None) objs"
    and k: "k < length objs"
    and inv: "compiledUpTo S objs closed k acc"
  shows "compiledUpTo S objs closed (Suc k) (compileBuildObject X k acc)"
proof -
  obtain S' objs' n where acc: "acc = ((S', objs'), n)"
    by (metis prod.exhaust)
  from inv acc have n: "n = k mod 8"
    and env: "environment S' = environment S"
    and len: "length objs' = length objs"
    and names: "map definition' objs' = map definition' objs"
    and log: "waveState (processLog S') = (closed @ replicate (k div 8) 8, k mod 8)"
    and running: "fst ` set (runningProcesses S') \<subseteq> {..<k}"
    and compiled: "list_all (\<lambda>i. stage (objs' ! i) = BuildStage_Compiling
                         \<and> (status (objs' ! i) = 0 \<or> i \<in> fst ` set (runningProcesses S')))
                 [0..<k]"
    by (simp_all add: compiledUpTo_def maxProcessesSpawned_def)
  have dk: "definition' (objs' ! k) = definition' (objs ! k)"
    using names k len by (metis nth_map)
  moreover have "map_of (definitions (environment S)) (definition' (objs ! k)) \<noteq> None"
    using defs k by (simp add: list_all_length)
  ultimately obtain d where d: "map_of (definitions (environment S')) (definition' (objs' ! k)) = Some d"
    using env by auto
  define args where "args = compileArguments (artifactsNameOf X d)"
  define S1 where "S1 = spawnProcess X k args S'"
  define compiling where
    "compiling = (objs' ! k)\<lparr>artifactsName := artifactsNameOf X d,
                      stage := BuildStage_Compiling,
                      buildObjectName := buildObjectNameOf (artifactsNameOf X d),
                      dynamicLibraryPath := dynamicLibraryOutOf (artifactsNameOf X d)\<rparr>"
  define objs1 where "objs1 = objs'[k := compiling]"
  have S1: "S1 = S'\<lparr>runningProcesses := runningProcesses S' @ [(k, args)],
                      processLog := processLog S' @ [ProcessSpawned k args]\<rparr>"
    using U by (simp add: S1_def spawnProcess_def alwaysBuilds_def)
  have compiling: "stage compiling = BuildStage_Compiling"
    "definition' compiling = definition' (objs' ! k)"
    by (simp_all add: compiling_def)
  have env1: "environment S1 = environment S" using env by (simp add: S1)
  have run1: "runningProcesses S1 = runningProcesses S' @ [(k, args)]" by (simp add: S1)
  have len1: "length objs1 = length objs" using len by (simp add: objs1_def)
  have names1: "map definition' objs1 = map definition' objs"
    using names k len dk compiling(2)
    by (simp add: objs1_def map_update list_update_same_conv)
  have log1: "waveState (processLog S1) = (closed @ replicate (k div 8) 8, k mod 8 + 1)"
    using log by (simp add: S1 waveState_spawn)
  have running1: "fst ` set (runningProcesses S1) \<subseteq> {..<Suc k}"
    using running by (auto simp: run1)
  have compiled1: "\<forall>i<Suc k. stage (objs1 ! i) = BuildStage_Compiling
                 \<and> (status (objs1 ! i) = 0 \<or> i \<in> fst ` set (runningProcesses S1))"
  proof (intro allI impI)
    fix i assume i: "i < Suc k"
    show "stage (objs1 ! i) = BuildStage_Compiling
            \<and> (status (objs1 ! i) = 0 \<or> i \<in> fst ` set (runningProcesses S1))"
    proof (cases "i = k")
      case True
      then show ?thesis using k len compiling(1) by (simp add: run1 objs1_def)
    next
      case False
      with i have "i < k" by simp
      with compiled have "stage (objs' ! i) = BuildStage_Compiling
                 \<and> (status (objs' ! i) = 0 \<or> i \<in> fst ` set (runningProcesses S'))"
        by (simp add: list_all_iff)
      with False show ?thesis by (auto simp: run1 objs1_def)
    qed
  qed
  have step: "compileBuildObject X k acc =
     (if 8 \<le> n + 1 then (waitForAllProcessesClosed X (S1, objs1), 0)
      else ((S1, objs1), n + 1))"
    unfolding acc compileBuildObject_spawn[OF U d, of n] S1_def objs1_def compiling_def args_def
    by (simp add: maxProcessesSpawned_def)
  show ?thesis
  proof (cases "8 \<le> n + 1")
    case True
    with n have k7: "k mod 8 = 7" by simp
    then have sk: "Suc k mod 8 = 0" "Suc k div 8 = Suc (k div 8)"
      by (simp_all add: mod_Suc div_Suc)
    define objs2 where "objs2 = fold (closeProcess X) (runningProcesses S1) objs1"
    define S2 where "S2 = S1\<lparr>runningProcesses := [],
               processLog := processLog S1 @ [WaitedForAllProcessesClosed]\<rparr>"
    have res: "compileBuildObject X k acc = ((S2, objs2), 0)"
      using True by (simp add: step waitForAllProcessesClosed_def S2_def objs2_def)
    have fields: "length objs2 = length objs" "map definition' objs2 = map definition' objs"
      "map stage objs2 = map stage objs1"
      using fold_closeProcess_fields[of X "runningProcesses S1" objs1] len1 names1
      by (simp_all add: objs2_def)
    have exit0: "\<forall>arguments. processExitStatus X arguments = 0"
      using U by (simp add: alwaysBuilds_def)
    have compiled2: "\<forall>i<Suc k. stage (objs2 ! i) = BuildStage_Compiling
          \<and> (status (objs2 ! i) = 0 \<or> i \<in> fst ` set (runningProcesses S2))"
    proof (intro allI impI)
      fix i assume i: "i < Suc k"
      then have il: "i < length objs1" using k len1 by simp
      have "map stage objs2 ! i = map stage objs1 ! i"
        by (simp only: fields(3))
      then have "stage (objs2 ! i) = stage (objs1 ! i)"
        using il fields(1) len1 by simp
      moreover have "status (objs1 ! i) = 0 \<or> i \<in> fst ` set (runningProcesses S1)"
        using compiled1 i by simp
      then have "status (objs2 ! i) = 0"
        unfolding objs2_def by (rule fold_closeProcess_status[OF exit0 il])
      moreover have "stage (objs1 ! i) = BuildStage_Compiling"
        using compiled1 i by simp
      ultimately show "stage (objs2 ! i) = BuildStage_Compiling
          \<and> (status (objs2 ! i) = 0 \<or> i \<in> fst ` set (runningProcesses S2))"
        by simp
    qed
    show ?thesis
      unfolding res
    proof (rule compiledUpToI)
      show "(0::nat) = Suc k mod 8" using sk by simp
      show "environment S2 = environment S" using env1 by (simp add: S2_def)
      show "length objs2 = length objs" by (rule fields(1))
      show "map definition' objs2 = map definition' objs" by (rule fields(2))
      show "waveState (processLog S2) = (closed @ replicate (Suc k div 8) 8, Suc k mod 8)"
        using log1 k7 sk by (simp add: S2_def waveState_wait replicate_append_same)
      show "fst ` set (runningProcesses S2) \<subseteq> {..<Suc k}"
        by (simp add: S2_def)
      show "\<forall>i<Suc k. stage (objs2 ! i) = BuildStage_Compiling
          \<and> (status (objs2 ! i) = 0 \<or> i \<in> fst ` set (runningProcesses S2))"
        by (rule compiled2)
    qed
  next
    case False
    with n have sk: "Suc k mod 8 = k mod 8 + 1" "Suc k div 8 = k div 8"
      by (simp_all add: mod_Suc div_Suc)
    have res: "compileBuildObject X k acc = ((S1, objs1), n + 1)"
      using False by (simp add: step)
    show ?thesis
      unfolding res
    proof (rule compiledUpToI)
      show "n + 1 = Suc k mod 8" using sk n by simp
      show "environment S1 = environment S" by (rule env1)
      show "length objs1 = length objs" by (rule len1)
      show "map definition' objs1 = map definition' objs" by (rule names1)
      show "waveState (processLog S1) = (closed @ replicate (Suc k div 8) 8, Suc k mod 8)"
        using log1 sk by simp
      show "fst ` set (runningProcesses S1) \<subseteq> {..<Suc k}" by (rule running1)
      show "\<forall>i<Suc k. stage (objs1 ! i) = BuildStage_Compiling
                 \<and> (status (objs1 ! i) = 0 \<or> i \<in> fst ` set (runningProcesses S1))"
        by (rule compiled1)
    qed
  qed
qed

lemma compiledUpTo_fold:
  assumes U: "alwaysBuilds X"
    and defs: "list_all (\<lambda>obj. map_of (definitions (environment S)) (definition' obj) \<noteq> None) objs"
    and idle: "runningProcesses S = []"
    and log: "waveState (processLog S) = (closed, 0)"
    and k: "k \<le> length objs"
  shows "compiledUpTo S objs closed k (fold (compileBuildObject X) [0..<k] ((S, objs), 0))"
  using k
proof (induction k)
  case 0
  show ?case using idle log by (simp add: compiledUpTo_def maxProcessesSpawned_def)
next
  case (Suc k)
  then have "compiledUpTo S objs closed k (fold (compileBuildObject X) [0..<k] ((S, objs), 0))"
    and "k < length objs" by simp_all
  from compiledUpTo_step[OF U defs this(2) this(1)] show ?case by simp
qed

lemma compilePhase_alwaysBuilds:
  assumes U: "alwaysBuilds X"
    and defs: "list_all (\<lambda>obj. map_of (definitions (environment S)) (definition' obj) \<noteq> None) objs"
    and idle: "runningProcesses S = []"
    and log: "waveState (processLog S) = (closed, 0)"
    and phase: "compilePhase X (S, objs) = (S2, objs2)"
  shows "environment S2 = environment S \<and> length objs2 = length objs
       \<and> map definition' objs2 = map definition' objs
       \<and> runningProcesses S2 = []
       \<and> waveState (processLog S2)
           = (closed @ replicate (length objs div 8) 8 @ [length objs mod 8], 0)
       \<and> (\<forall>i<length objs. stage (objs2 ! i) = BuildStage_Compiling \<and> status (objs2 ! i) = 0)"
proof -
  obtain S1 objs1 n where folded:
    "fold (compileBuildObject X) [0..<length objs] ((S, objs), 0) = ((S1, objs1), n)"
    by (metis prod.exhaust)
  have "compiledUpTo S objs closed (length objs) ((S1, objs1), n)"
    using compiledUpTo_fold[OF U defs idle log, of "length objs"] by (simp add: folded)
  then have env: "environment S1 = environment S"
    and len: "length objs1 = length objs"
    and names: "map definition' objs1 = map definition' objs"
    and log1: "waveState (processLog S1)
                 = (closed @ replicate (length objs div 8) 8, length objs mod 8)"
    and compiled: "\<forall>i<length objs. stage (objs1 ! i) = BuildStage_Compiling
                     \<and> (status (objs1 ! i) = 0 \<or> i \<in> fst ` set (runningProcesses S1))"
    by (simp_all add: compiledUpTo_def maxProcessesSpawned_def list_all_iff)
  have S2: "S2 = S1\<lparr>runningProcesses := [],
                      processLog := processLog S1 @ [WaitedForAllProcessesClosed]\<rparr>"
    and objs2: "objs2 = fold (closeProcess X) (runningProcesses S1) objs1"
    using phase by (simp_all add: compilePhase_def folded waitForAllProcessesClosed_def)
  have fields: "length objs2 = length objs" "map definition' objs2 = map definition' objs"
    "map stage objs2 = map stage objs1"
    using fold_closeProcess_fields[of X "runningProcesses S1" objs1] len names
    by (simp_all add: objs2)
  have exit0: "\<forall>arguments. processExitStatus X arguments = 0"
    using U by (simp add: alwaysBuilds_def)
  have compiled2: "\<forall>i<length objs. stage (objs2 ! i) = BuildStage_Compiling \<and> status (objs2 ! i) = 0"
  proof (intro allI impI)
    fix i assume i: "i < length objs"
    then have il: "i < length objs1" using len by simp
    have "map stage objs2 ! i = map stage objs1 ! i"
      by (simp only: fields(3))
    then have "stage (objs2 ! i) = stage (objs1 ! i)"
      using il fields(1) len by simp
    moreover have "status (objs1 ! i) = 0 \<or> i \<in> fst ` set (runningProcesses S1)"
      using compiled i by simp
    then have "status (objs2 ! i) = 0"
      unfolding objs2 by (rule fold_closeProcess_status[OF exit0 il])
    moreover have "stage (objs1 ! i) = BuildStage_Compiling"
      using compiled i by simp
    ultimately show "stage (objs2 ! i) = BuildStage_Compiling \<and> status (objs2 ! i) = 0"
      by simp
  qed
  have "waveState (processLog S2)
          = (closed @ replicate (length objs div 8) 8 @ [length objs mod 8], 0)"
    using log1 by (simp add: S2 waveState_wait)
  with env fields compiled2 show ?thesis by (simp add: S2)
qed

lemma linkBuildObject_spawn:
  assumes "\<forall>arguments. runProcess X arguments = 0"
    and "stage (objs ! i) = BuildStage_Compiling" and "status (objs ! i) = 0"
  shows "linkBuildObject X i (S, objs) =
     (S\<lparr>runningProcesses := runningProcesses S @ [(i, linkArguments (objs ! i))],
        processLog := processLog S @ [ProcessSpawned i (linkArguments (objs ! i))]\<rparr>,
      objs[i := (objs ! i)\<lparr>stage := BuildStage_Linking\<rparr>])"
  using assms by (simp add: linkBuildObject_def spawnProcess_def)

lemma link_fold_spawns:
  assumes run: "\<forall>arguments. runProcess X arguments = 0"
    and compiled: "\<forall>i<length objs. stage (objs ! i) = BuildStage_Compiling \<and> status (objs ! i) = 0"
    and k: "k \<le> length objs"
  shows "\<exists>S' objs'. fold (linkBuildObject X) [0..<k] (S, objs) = (S', objs')
           \<and> environment S' = environment S
           \<and> length objs' = length objs
           \<and> map definition' objs' = map definition' objs
           \<and> (\<forall>i<length objs. k \<le> i \<longrightarrow> objs' ! i = objs ! i)
           \<and> waveState (processLog S')
               = (fst (waveState (processLog S)), snd (waveState (processLog S)) + k)"
  using k
proof (induction k)
  case 0
  show ?case by simp
next
  case (Suc k)
  then obtain S' objs' where folded: "fold (linkBuildObject X) [0..<k] (S, objs) = (S', objs')"
    and env: "environment S' = environment S"
    and len: "length objs' = length objs"
    and names: "map definition' objs' = map definition' objs"
    and rest: "\<forall>i<length objs. k \<le> i \<longrightarrow> objs' ! i = objs ! i"
    and log: "waveState (processLog S')
               = (fst (waveState (processLog S)), snd (waveState (processLog S)) + k)"
    by auto
  from Suc.prems have k: "k < length objs" by simp
  with rest have same: "objs' ! k = objs ! k" by simp
  with compiled k have "stage (objs' ! k) = BuildStage_Compiling" "status (objs' ! k) = 0"
    by simp_all
  note step = linkBuildObject_spawn[OF run this, of S']
  have names': "map definition' (objs'[k := (objs' ! k)\<lparr>stage := BuildStage_Linking\<rparr>])
                  = map definition' objs"
    using names k len same by (simp add: map_update list_update_same_conv)
  have "fold (linkBuildObject X) [0..<Suc k] (S, objs) = linkBuildObject X k (S', objs')"
    by (simp add: folded)
  then show ?case
    using env len rest log names' by (simp add: step waveState_spawn)
qed

lemma linkPhase_spawns_all:
  assumes run: "\<forall>arguments. runProcess X arguments = 0"
    and compiled: "\<forall>i<length objs. stage (objs ! i) = BuildStage_Compiling \<and> status (objs ! i) = 0"
    and phase: "linkPhase X (S, objs) = (S3, objs3)"
  shows "waveState (processLog S3)
           = (fst (waveState (processLog S))
                @ [snd (waveState (processLog S)) + length objs], 0)
         \<and> environment S3 = environment S
         \<and> length objs3 = length objs
         \<and> map definition' objs3 = map definition' objs"
proof -
  obtain S' objs' where folded: "fold (linkBuildObject X) [0..<length objs] (S, objs) = (S', objs')"
    and env: "environment S' = environment S"
    and len: "length objs' = length objs"
    and names: "map definition' objs' = map definition' objs"
    and log: "waveState (processLog S')
               = (fst (waveState (processLog S)), snd (waveState (processLog S)) + length objs)"
    using link_fold_spawns[OF run compiled, of "length objs" S] by auto
  have S3: "S3 = S'\<lparr>runningProcesses := [],
                      processLog := processLog S' @ [WaitedForAllProcessesClosed]\<rparr>"
    and objs3: "objs3 = fold (closeProcess X) (runningProcesses S') objs'"
    using phase by (simp_all add: linkPhase_def folded waitForAllProcessesClosed_def)
  show ?thesis
    using fold_closeProcess_fields[of X "runningProcesses S'" objs'] env len names log
    by (simp add: S3 objs3 waveState_wait)
qed

lemma loadBuildObject_no_library:
  assumes none: "\<forall>path. loadDynamicLibrary X path = None"
    and defs: "list_all (\<lambda>obj. map_of (definitions (environment S)) (definition' obj) \<noteq> None) objs"
    and i: "i < length objs"
  shows "\<exists>S' objs'. loadBuildObject fuel X i ((S, objs), numErrorsOut, numReferencesResolved)
                      = Some ((S', objs'), numErrorsOut, numReferencesResolved)
           \<and> processLog S' = processLog S \<and> environment S' = environment S
           \<and> length objs' = length objs \<and> map definition' objs' = map definition' objs"
proof -
  obtain d where d: "map_of (definitions (environment S)) (definition' (objs ! i)) = Some d"
    using defs i by (auto simp: list_all_length)
  have names: "map definition' (objs[i := (objs ! i)\<lparr>stage := BuildStage_Loading\<rparr>])
                 = map definition' objs"
    using i by (simp add: map_update list_update_same_conv)
  show ?thesis
    using none d names by (simp add: loadBuildObject_def report_def)
qed

lemma loadPhase_no_library:
  assumes none: "\<forall>path. loadDynamicLibrary X path = None"
  shows "list_all (\<lambda>obj. map_of (definitions (environment S)) (definition' obj) \<noteq> None) objs
     \<Longrightarrow> list_all (\<lambda>i. i < length objs) indices
     \<Longrightarrow> \<exists>S' objs'. loadPhase fuel X indices ((S, objs), numErrorsOut, numReferencesResolved)
                      = Some ((S', objs'), numErrorsOut, numReferencesResolved)
           \<and> processLog S' = processLog S"
proof (induction indices arbitrary: S objs)
  case Nil
  show ?case by simp
next
  case (Cons i indices)
  from Cons.prems have i: "i < length objs" and rest: "list_all (\<lambda>i. i < length objs) indices"
    by simp_all
  from loadBuildObject_no_library[OF none Cons.prems(1) i, of fuel numErrorsOut numReferencesResolved]
  obtain S1 objs1 where
    step: "loadBuildObject fuel X i ((S, objs), numErrorsOut, numReferencesResolved)
             = Some ((S1, objs1), numErrorsOut, numReferencesResolved)"
    and log: "processLog S1 = processLog S" and env: "environment S1 = environment S"
    and len: "length objs1 = length objs" and names: "map definition' objs1 = map definition' objs"
    by blast
  have "list_all (\<lambda>obj. map_of (definitions (environment S)) (definition' obj) \<noteq> None) objs
          = list_all (\<lambda>key. map_of (definitions (environment S)) key \<noteq> None) (map definition' objs)"
    by (simp add: list.pred_map comp_def)
  moreover have "list_all (\<lambda>obj. map_of (definitions (environment S1)) (definition' obj) \<noteq> None) objs1
          = list_all (\<lambda>key. map_of (definitions (environment S)) key \<noteq> None) (map definition' objs1)"
    by (simp add: list.pred_map comp_def env)
  ultimately have defs1:
    "list_all (\<lambda>obj. map_of (definitions (environment S1)) (definition' obj) \<noteq> None) objs1"
    using Cons.prems(1) names by simp
  from Cons.IH[OF defs1] rest len
  obtain S' objs' where "loadPhase fuel X indices ((S1, objs1), numErrorsOut, numReferencesResolved)
                      = Some ((S', objs'), numErrorsOut, numReferencesResolved)"
    and "processLog S' = processLog S1"
    by auto
  then show ?case using step log by simp
qed

lemma build_waves:
  assumes U: "alwaysBuilds X"
    and defs: "list_all (\<lambda>obj. map_of (definitions (environment S)) (definition' obj) \<noteq> None) objs"
    and idle: "runningProcesses S = []"
    and log: "waveState (processLog S) = (closed, 0)"
  shows "waves (processLog (fst (compilePhase X (S, objs))))
           = closed @ replicate (length objs div maxProcessesSpawned) maxProcessesSpawned
               @ [length objs mod maxProcessesSpawned, 0]
       \<and> waves (processLog (fst (linkPhase X (compilePhase X (S, objs)))))
           = closed @ replicate (length objs div maxProcessesSpawned) maxProcessesSpawned
               @ [length objs mod maxProcessesSpawned, length objs, 0]"
proof -
  obtain S2 objs2 where phase: "compilePhase X (S, objs) = (S2, objs2)"
    by (metis prod.exhaust)
  note c = compilePhase_alwaysBuilds[OF U defs idle log phase]
  from c have len: "length objs2 = length objs"
    and log2: "waveState (processLog S2)
           = (closed @ replicate (length objs div 8) 8 @ [length objs mod 8], 0)"
    and compiled: "\<forall>i<length objs2. stage (objs2 ! i) = BuildStage_Compiling \<and> status (objs2 ! i) = 0"
    by simp_all
  have run: "\<forall>arguments. runProcess X arguments = 0"
    using U by (simp add: alwaysBuilds_def)
  obtain S3 objs3 where link: "linkPhase X (S2, objs2) = (S3, objs3)"
    by (metis prod.exhaust)
  from linkPhase_spawns_all[OF run compiled link] log2 len
  show ?thesis
    by (simp add: phase link waves_def maxProcessesSpawned_def)
qed

lemma alwaysBuilds_exampleCollaborators: "alwaysBuilds exampleCollaborators"
  by (simp add: alwaysBuilds_def exampleCollaborators_def)

lemma nineMacros_queued:
  "\<exists>S objs. checkAllToBuild 3 exampleCollaborators
                (definitionsToCheck (environment nineMacrosState)) (nineMacrosState, [])
              = Some (S, objs)
     \<and> definitions (environment S) = definitions (environment nineMacrosState)
     \<and> runningProcesses S = [] \<and> processLog S = []
     \<and> map definition' objs = nineMacros"
  by (simp add: eval_nat_numeral nineMacrosState_def nineMacros_def example_defs
      definitionsToCheck_def checkToBuild_def initialFlags_def shouldBuild_def
      isCompileTimeObject_def getNextFreeBuildId_def wrapInt_def newBuildObject_def)

text \<open>
  C4.  The compile loop counts the children it spawns and waits for the wave after every
  \<^verbatim>\<open>maxProcessesSpawned\<close>-th one; the link loop spawns a linker for every compiled object
  and waits only after the loop.  One pass over nine required macros, with collaborators that
  compile and link every one of them, spawns the compilers in waves of 8 and 1 and then nine
  linkers before it waits for them.
\<close>

theorem link_phase_exceeds_process_cap:
  "map_option (waves \<circ> processLog \<circ> snd \<circ> snd)
     (BuildEvaluateReferences 3 exampleCollaborators nineMacrosState 0) = Some [8, 1, 9, 0]
   \<and> maxProcessesSpawned = 8"
proof -
  let ?X = exampleCollaborators
  obtain S objs where queued:
      "checkAllToBuild 3 ?X (definitionsToCheck (environment nineMacrosState))
         (nineMacrosState, []) = Some (S, objs)"
    and definitions: "definitions (environment S) = definitions (environment nineMacrosState)"
    and idle: "runningProcesses S = []" and log: "processLog S = []"
    and names: "map definition' objs = nineMacros"
    using nineMacros_queued by blast
  have len: "length objs = 9"
    using arg_cong[OF names, of length] by (simp add: nineMacros_def)
  have "list_all (\<lambda>key. map_of (definitions (environment S)) key \<noteq> None) (map definition' objs)"
    unfolding names definitions
    by (simp add: nineMacros_def nineMacrosState_def example_defs)
  then have defs:
    "list_all (\<lambda>obj. map_of (definitions (environment S)) (definition' obj) \<noteq> None) objs"
    by (simp add: list.pred_map comp_def)
  have log0: "waveState (processLog S) = ([], 0)"
    by (simp add: log waveState_def)
  obtain S2 objs2 where compile: "compilePhase ?X (S, objs) = (S2, objs2)"
    by (metis prod.exhaust)
  obtain S3 objs3 where link: "linkPhase ?X (S2, objs2) = (S3, objs3)"
    by (metis prod.exhaust)
  note U = alwaysBuilds_exampleCollaborators
  have run: "\<forall>arguments. runProcess ?X arguments = 0"
    using U by (simp add: alwaysBuilds_def)
  note c = compilePhase_alwaysBuilds[OF U defs idle log0 compile]
  from c have compiled:
    "\<forall>i<length objs2. stage (objs2 ! i) = BuildStage_Compiling \<and> status (objs2 ! i) = 0"
    by simp
  note l = linkPhase_spawns_all[OF run compiled link]
  have waves3: "waves (processLog S3) = [8, 1, 9, 0]"
    using build_waves[OF U defs idle log0] len
    by (simp add: compile link maxProcessesSpawned_def)
  have "list_all (\<lambda>key. map_of (definitions (environment S3)) key \<noteq> None) (map definition' objs3)"
    using c l defs by (simp add: list.pred_map comp_def)
  then have defs3:
    "list_all (\<lambda>obj. map_of (definitions (environment S3)) (definition' obj) \<noteq> None) objs3"
    by (simp add: list.pred_map comp_def)
  have none: "\<forall>path. loadDynamicLibrary ?X path = None"
    by (simp add: exampleCollaborators_def)
  have indices: "list_all (\<lambda>i. i < length objs3) [0..<length objs3]"
    by (simp add: list_all_iff)
  from loadPhase_no_library[OF none defs3 indices, of 3 0 0]
  obtain S' objs' where load: "loadPhase 3 ?X [0..<length objs3] ((S3, objs3), 0, 0)
                                 = Some ((S', objs'), 0, 0)"
    and log': "processLog S' = processLog S3"
    by blast
  have "BuildEvaluateReferences 3 ?X nineMacrosState 0 = Some (0, 0, S')"
    by (simp add: BuildEvaluateReferences_def queued compile link load)
  then show ?thesis
    using waves3 log' by (simp add: maxProcessesSpawned_def)
qed

section \<open>The build queue\<close>

















end
